(* ===== verification/Prelude.thy ===== *)
theory Prelude
  imports
    Main
    "HOL-Library.Word"
    "HOL-Library.AList"
    "HOL-Library.Char_ord"
    "HOL-Library.List_Lexorder"
begin

text \<open>
  The prelude of the development: names for the machine types of the Go sources, the
  collections of rewrite rules the components extend, and the generic facts about lists,
  association lists and machine words that several components use.

  A Go map that the code ranges over is an association list with distinct keys; the order
  of the list is the (unspecified) iteration order, so a statement about every such list
  holds for every order in which Go may run the loop. A Go map that is only read and
  written by key is a partial function. A Go map to the empty struct is a list without
  repetitions.
\<close>

section \<open>Machine types\<close>

type_synonym u8 = "8 word"
type_synonym u16 = "16 word"
type_synonym u32 = "32 word"
type_synonym u64 = "64 word"

text \<open>Transaction identifiers (\<^verbatim>\<open>txn.ID\<close>, \<^verbatim>\<open>mvcc.TxnID\<close>, \<^verbatim>\<open>deadlock.TxnID\<close>) and
  log sequence numbers are Go's \<^verbatim>\<open>uint64\<close>; Go strings are byte sequences.\<close>

type_synonym txn_id = u64
type_synonym lsn = u64
type_synonym gostring = string
type_synonym 'a goset = "'a list"
type_synonym ('k, 'v) gomap = "('k \<times> 'v) list"

section \<open>Rule collections\<close>

named_theorems gomap_simps \<open>rewrite rules for Go maps kept as association lists\<close>

section \<open>Go maps and sets\<close>

text \<open>\<^verbatim>\<open>m[k] = v\<close>, \<^verbatim>\<open>delete(m, k)\<close> and \<^verbatim>\<open>v, ok := m[k]\<close>.\<close>

abbreviation go_get :: "('k, 'v) gomap \<Rightarrow> 'k \<Rightarrow> 'v option" where
  "go_get m k \<equiv> map_of m k"

abbreviation go_put :: "'k \<Rightarrow> 'v \<Rightarrow> ('k, 'v) gomap \<Rightarrow> ('k, 'v) gomap" where
  "go_put k v m \<equiv> AList.update k v m"

abbreviation go_del :: "'k \<Rightarrow> ('k, 'v) gomap \<Rightarrow> ('k, 'v) gomap" where
  "go_del k m \<equiv> AList.delete k m"

abbreviation go_keys :: "('k, 'v) gomap \<Rightarrow> 'k list" where
  "go_keys m \<equiv> map fst m"

lemma go_get_put [gomap_simps]: "go_get (go_put k v m) k' = (if k' = k then Some v else go_get m k')"
  by (simp add: update_conv')

lemma go_get_del [gomap_simps]: "go_get (go_del k m) k' = (if k' = k then None else go_get m k')"
  by (simp add: delete_conv')

lemma go_keys_put [gomap_simps]: "set (go_keys (go_put k v m)) = insert k (set (go_keys m))"
  by (simp add: dom_update)

lemma go_keys_del [gomap_simps]: "set (go_keys (go_del k m)) = set (go_keys m) - {k}"
  by (auto simp: AList.delete_keys set_removeAll)

lemma go_get_None: "go_get m k = None \<longleftrightarrow> k \<notin> set (go_keys m)"
  by (simp add: map_of_eq_None_iff image_def)

lemma distinct_go_put: "distinct (go_keys m) \<Longrightarrow> distinct (go_keys (go_put k v m))"
  by (rule distinct_update)

lemma distinct_go_del: "distinct (go_keys m) \<Longrightarrow> distinct (go_keys (go_del k m))"
  by (simp add: AList.distinct_delete)

section \<open>Lists\<close>

lemma successively_next: "successively P (xs @ [z]) \<Longrightarrow> v \<in> set xs \<Longrightarrow> \<exists>w. P v w"
proof (induction xs)
  case (Cons x xs)
  then show ?case by (cases xs) (auto simp: successively_Cons)
qed simp

end
