(* ===== verification/Deadlock.thy ===== *)
theory Deadlock
  imports Prelude
begin

text \<open>
  The package \<^verbatim>\<open>internal/deadlock\<close>: the wait-for graph (graph.go), its depth-first cycle
  search and victim selection, the detector's tick (detector.go), the bounded history
  (history.go) and the prevention policies (prevention.go).

  The graph is a Go map from a transaction to the set of transactions it waits for. Both
  are ranged over, so both are lists here; the search result depends on the iteration
  order, the theorems hold for every order.
\<close>

section \<open>The wait-for graph\<close>

type_synonym graph = "(txn_id, txn_id goset) gomap"

definition succs :: "graph \<Rightarrow> txn_id \<Rightarrow> txn_id list" where
  "succs g v = (case go_get g v of None \<Rightarrow> [] | Some ws \<Rightarrow> ws)"

definition NewWaitForGraph :: graph where
  "NewWaitForGraph = []"

definition ensure_node :: "txn_id \<Rightarrow> graph \<Rightarrow> graph" where
  "ensure_node v g = (if go_get g v = None then go_put v [] g else g)"

definition AddEdge :: "graph \<Rightarrow> txn_id \<Rightarrow> txn_id \<Rightarrow> graph" where
  "AddEdge g from to =
     (let g1 = ensure_node from g;
          g2 = go_put from (List.insert to (succs g1 from)) g1
      in ensure_node to g2)"

definition RemoveNode :: "graph \<Rightarrow> txn_id \<Rightarrow> graph" where
  "RemoveNode g v = map (\<lambda>(from, tos). (from, removeAll v tos)) (go_del v g)"

definition RemoveEdges :: "graph \<Rightarrow> txn_id \<Rightarrow> graph" where
  "RemoveEdges g v = go_del v g"

definition Nodes :: "graph \<Rightarrow> txn_id list" where
  "Nodes g = go_keys g"

definition Edges :: "graph \<Rightarrow> (txn_id \<times> txn_id) list" where
  "Edges g = concat (map (\<lambda>(from, tos). map (\<lambda>to. (from, to)) tos) g)"

text \<open>The edge relation of a graph.\<close>

definition edge_rel :: "graph \<Rightarrow> (txn_id \<times> txn_id) set" where
  "edge_rel g = {(v, w). w \<in> set (succs g v)}"

section \<open>Cycle search\<close>

datatype color = White | Gray | Black

record dfs_state =
  colors :: "txn_id \<Rightarrow> color"
  parents :: "txn_id \<Rightarrow> txn_id"

definition dfs_init :: dfs_state where
  "dfs_init = \<lparr>colors = (\<lambda>_. White), parents = (\<lambda>_. 0)\<rparr>"

definition paint :: "txn_id \<Rightarrow> color \<Rightarrow> dfs_state \<Rightarrow> dfs_state" where
  "paint v c st = st\<lparr>colors := (colors st)(v := c)\<rparr>"

definition set_parent :: "txn_id \<Rightarrow> txn_id \<Rightarrow> dfs_state \<Rightarrow> dfs_state" where
  "set_parent w v st = st\<lparr>parents := (parents st)(w := v)\<rparr>"

lemma paint_simps [simp]:
  "colors (paint v c st) = (colors st)(v := c)"
  "parents (paint v c st) = parents st"
  "colors (set_parent w v st) = colors st"
  "parents (set_parent w v st) = (parents st)(w := v)"
  by (simp_all add: paint_def set_parent_def)

definition graph_nodes :: "graph \<Rightarrow> txn_id set" where
  "graph_nodes g = set (go_keys g) \<union> (\<Union>(v, ws) \<in> set g. set ws)"

definition white_nodes :: "graph \<Rightarrow> dfs_state \<Rightarrow> txn_id set" where
  "white_nodes g st = {v \<in> graph_nodes g. colors st v = White}"

lemma finite_graph_nodes [simp]: "finite (graph_nodes g)"
  by (auto simp: graph_nodes_def)

lemma finite_white_nodes [simp]: "finite (white_nodes g st)"
  by (simp add: white_nodes_def)

lemma succs_not_node: "v \<notin> graph_nodes g \<Longrightarrow> succs g v = []"
  by (auto simp: succs_def graph_nodes_def image_iff dest!: map_of_SomeD split: option.splits)

text \<open>
  The closure \<^verbatim>\<open>dfs\<close> of \<^verbatim>\<open>FindCycle\<close>: \<open>dfs_loop g v ws st\<close> is its loop over the
  remaining neighbours \<open>ws\<close> of \<open>v\<close>. A result \<open>Some (cycleStart, cycleEnd)\<close> is Go's
  \<^verbatim>\<open>return true\<close>.
\<close>

function dfs_loop ::
  "graph \<Rightarrow> txn_id \<Rightarrow> txn_id list \<Rightarrow> dfs_state \<Rightarrow> (txn_id \<times> txn_id) option \<times> dfs_state"
where
  "dfs_loop g v [] st = (None, st)"
| "dfs_loop g v (w # ws) st =
     (case colors st w of
        Gray \<Rightarrow> (Some (w, v), st)
      | Black \<Rightarrow> dfs_loop g v ws st
      | White \<Rightarrow>
          (case dfs_loop g w (succs g w) (paint w Gray (set_parent w v st)) of
             (Some c, st') \<Rightarrow> (Some c, st')
           | (None, st') \<Rightarrow> dfs_loop g v ws (paint w Black st')))"
  by pat_completeness auto

lemma dfs_loop_no_new_white:
  "dfs_loop_dom (g, v, ws, st) \<Longrightarrow>
     colors (snd (dfs_loop g v ws st)) x = White \<Longrightarrow> colors st x = White"
proof (induction g v ws st arbitrary: x rule: dfs_loop.pinduct)
  case (1 g v st)
  then show ?case by (simp add: dfs_loop.psimps)
next
  case (2 g v w ws st)
  then show ?case
    by (simp add: dfs_loop.psimps split: color.splits option.splits prod.splits if_splits)
       (metis (no_types, lifting) fun_upd_apply color.distinct(1,3) paint_simps(1,3) snd_conv)+
qed

termination dfs_loop
proof (relation "inv_image (finite_psubset <*lex*> less_than)
                   (\<lambda>(g, v, ws, st). (white_nodes g st, length ws))", goal_cases)
  case 1
  then show ?case by auto
next
  case (2 g v w ws st)
  then show ?case
  proof (cases "w \<in> graph_nodes g")
    case True
    with 2 have "white_nodes g (paint w Gray (set_parent w v st)) \<subset> white_nodes g st"
      by (auto simp: white_nodes_def)
    then show ?thesis by (simp add: finite_psubset_def)
  next
    case False
    then have "white_nodes g (paint w Gray (set_parent w v st)) = white_nodes g st"
      by (auto simp: white_nodes_def)
    with False show ?thesis by (simp add: succs_not_node)
  qed
next
  case (3 g v w ws st r st')
  then have eq: "dfs_loop g w (succs g w) (paint w Gray (set_parent w v st)) = (None, st')"
    by simp
  have "colors st x = White" if "colors st' x = White" "x \<noteq> w" for x
    using dfs_loop_no_new_white [OF 3(4), of x] eq that by simp
  then have "white_nodes g (paint w Black st') \<subseteq> white_nodes g st"
    by (auto simp: white_nodes_def split: if_splits)
  then show ?case
    by (auto simp: finite_psubset_def psubset_eq)
next
  case (4 g v w ws st)
  then show ?case by simp
qed

text \<open>\<^verbatim>\<open>dfs(node)\<close> for a root of the search.\<close>

definition dfs :: "graph \<Rightarrow> txn_id \<Rightarrow> dfs_state \<Rightarrow> (txn_id \<times> txn_id) option \<times> dfs_state" where
  "dfs g v st =
     (case dfs_loop g v (succs g v) (paint v Gray st) of
        (Some c, st') \<Rightarrow> (Some c, st')
      | (None, st') \<Rightarrow> (None, paint v Black st'))"

text \<open>The outer loop of \<^verbatim>\<open>FindCycle\<close> over the nodes of the graph.\<close>

fun dfs_roots :: "graph \<Rightarrow> txn_id list \<Rightarrow> dfs_state \<Rightarrow> (txn_id \<times> txn_id) option \<times> dfs_state" where
  "dfs_roots g [] st = (None, st)"
| "dfs_roots g (v # vs) st =
     (if colors st v = White
      then (case dfs g v st of
              (Some c, st') \<Rightarrow> (Some c, st')
            | (None, st') \<Rightarrow> dfs_roots g vs st')
      else dfs_roots g vs st)"

text \<open>The loop that follows the parent pointers back from \<^verbatim>\<open>cycleEnd\<close> to \<^verbatim>\<open>cycleStart\<close>;
  \<open>None\<close> would be a loop that never returns.\<close>

partial_function (option) walk_back ::
  "(txn_id \<Rightarrow> txn_id) \<Rightarrow> txn_id \<Rightarrow> txn_id \<Rightarrow> txn_id list \<Rightarrow> txn_id list option"
where
  "walk_back par start cur acc =
     (if cur = start then Some acc else walk_back par start (par cur) (cur # acc))"

fun selectVictim_from :: "txn_id \<Rightarrow> txn_id list \<Rightarrow> txn_id" where
  "selectVictim_from maxID [] = maxID"
| "selectVictim_from maxID (i # is) = selectVictim_from (if maxID < i then i else maxID) is"

definition selectVictim :: "txn_id list \<Rightarrow> txn_id" where
  "selectVictim cycle = selectVictim_from 0 cycle"

datatype find_result = NotFound | Found txn_id "txn_id list"

definition FindCycle :: "graph \<Rightarrow> find_result option" where
  "FindCycle g =
     (case dfs_roots g (go_keys g) dfs_init of
        (None, _) \<Rightarrow> Some NotFound
      | (Some (cycleStart, cycleEnd), st) \<Rightarrow>
          map_option
            (\<lambda>path. let cycle = path @ [cycleStart] in Found (selectVictim cycle) cycle)
            (walk_back (parents st) cycleStart cycleEnd [cycleStart]))"

section \<open>Correctness of the cycle search\<close>

declare walk_back.simps [code]

abbreviation visit :: "txn_id \<Rightarrow> txn_id \<Rightarrow> dfs_state \<Rightarrow> dfs_state" where
  "visit w v st \<equiv> paint w Gray (set_parent w v st)"

lemma dfs_loop_induct [consumes 1, case_names Nil Gray Black Found Done]:
  assumes run: "dfs_loop g v ws st = (r, st')"
    and Nil: "\<And>g v st. P g v [] st None st"
    and Gray: "\<And>g v w ws st. colors st w = Gray \<Longrightarrow> P g v (w # ws) st (Some (w, v)) st"
    and Black: "\<And>g v w ws st r st'. colors st w = Black \<Longrightarrow> P g v ws st r st' \<Longrightarrow>
                  P g v (w # ws) st r st'"
    and Found: "\<And>g v w ws st c st'. colors st w = White \<Longrightarrow>
                  P g w (succs g w) (visit w v st) (Some c) st' \<Longrightarrow> P g v (w # ws) st (Some c) st'"
    and Done: "\<And>g v w ws st st1 r st'. colors st w = White \<Longrightarrow>
                  dfs_loop g w (succs g w) (visit w v st) = (None, st1) \<Longrightarrow>
                  P g w (succs g w) (visit w v st) None st1 \<Longrightarrow>
                  P g v ws (paint w Black st1) r st' \<Longrightarrow> P g v (w # ws) st r st'"
  shows "P g v ws st r st'"
  using run
proof (induction g v ws st arbitrary: r st' rule: dfs_loop.induct)
  case (1 g v st)
  then show ?case by (simp add: Nil)
next
  case (2 g v w ws st)
  show ?case
  proof (cases "colors st w")
    case White
    obtain c st1 where inner: "dfs_loop g w (succs g w) (visit w v st) = (c, st1)"
      by fastforce
    show ?thesis
    proof (cases c)
      case None
      with 2 White inner show ?thesis by (auto intro: Done)
    next
      case (Some e)
      with 2 White inner show ?thesis by (auto intro: Found)
    qed
  qed (use 2 in \<open>auto intro: Gray Black\<close>)
qed

lemma dfs_loop_white_anti:
  "dfs_loop g v ws st = (r, st') \<Longrightarrow> colors st x \<noteq> White \<Longrightarrow> colors st' x \<noteq> White"
  by (induction rule: dfs_loop_induct) auto

lemma dfs_loop_parents:
  "dfs_loop g v ws st = (r, st') \<Longrightarrow> colors st x \<noteq> White \<Longrightarrow> parents st' x = parents st x"
  by (induction rule: dfs_loop_induct) (auto dest: dfs_loop_white_anti [where x = x] split: if_splits)

lemma dfs_loop_gray:
  "dfs_loop g v ws st = (r, st') \<Longrightarrow> r = None \<Longrightarrow> colors st' x = Gray \<longleftrightarrow> colors st x = Gray"
  by (induction rule: dfs_loop_induct) (auto split: if_splits)

subsection \<open>Completeness: an unsuccessful search has seen no cycle\<close>

definition black_edges :: "graph \<Rightarrow> dfs_state \<Rightarrow> (txn_id \<times> txn_id) set" where
  "black_edges g st = {(v, w). (v, w) \<in> edge_rel g \<and> colors st v = Black}"

definition dfs_inv :: "graph \<Rightarrow> dfs_state \<Rightarrow> bool" where
  "dfs_inv g st \<longleftrightarrow>
     (\<forall>v w. colors st v = Black \<longrightarrow> w \<in> set (succs g v) \<longrightarrow> colors st w = Black) \<and>
     acyclic (black_edges g st)"

lemma acyclic_add_source:
  assumes "acyclic R" and R: "\<And>a b. (a, b) \<in> R \<Longrightarrow> b \<noteq> w"
    and S: "\<And>a b. (a, b) \<in> S \<Longrightarrow> a = w \<and> b \<noteq> w"
  shows "acyclic (R \<union> S)"
proof -
  have step: "(x, y) \<in> (R \<union> S)\<^sup>+ \<Longrightarrow> x \<noteq> w \<Longrightarrow> (x, y) \<in> R\<^sup>+ \<and> y \<noteq> w" for x y
    by (induction rule: trancl_induct) (auto dest: R S intro: trancl_into_trancl)
  have into: "(x, y) \<in> (R \<union> S)\<^sup>+ \<Longrightarrow> y \<noteq> w" for x y
    by (induction rule: trancl_induct) (auto dest: R S)
  show ?thesis
    using \<open>acyclic R\<close> step into unfolding acyclic_def by blast
qed

lemma dfs_inv_finish:
  assumes "dfs_inv g st" and "colors st w = Gray" and "\<forall>x \<in> set (succs g w). colors st x = Black"
  shows "dfs_inv g (paint w Black st)"
proof -
  let ?S = "{(a, b). a = w \<and> b \<in> set (succs g w)}"
  have eq: "black_edges g (paint w Black st) = black_edges g st \<union> ?S"
    using assms(2) by (auto simp: edge_rel_def black_edges_def split: if_splits)
  have "acyclic (black_edges g st \<union> ?S)"
    by (rule acyclic_add_source [where w = w])
      (use assms in \<open>auto simp: dfs_inv_def edge_rel_def black_edges_def\<close>)
  then show ?thesis
    using assms unfolding dfs_inv_def eq by auto
qed

lemma dfs_inv_visit: "dfs_inv g st \<Longrightarrow> colors st w = White \<Longrightarrow> dfs_inv g (visit w v st)"
proof -
  assume inv: "dfs_inv g st" and w: "colors st w = White"
  then have same: "colors (visit w v st) x = Black \<longleftrightarrow> colors st x = Black" for x
    by simp
  show ?thesis
    using inv unfolding dfs_inv_def black_edges_def same .
qed

lemma dfs_loop_complete:
  "dfs_loop g v ws st = (r, st') \<Longrightarrow> r = None \<Longrightarrow> dfs_inv g st \<Longrightarrow>
     dfs_inv g st' \<and> (\<forall>w \<in> set ws. colors st' w = Black) \<and>
     (\<forall>x. colors st x = Black \<longrightarrow> colors st' x = Black)"
proof (induction rule: dfs_loop_induct)
  case (Done g v w ws st st1 r st')
  then have inv1: "dfs_inv g st1" and black1: "\<forall>x \<in> set (succs g w). colors st1 x = Black"
    and keep1: "\<forall>x. colors st x = Black \<longrightarrow> colors st1 x = Black"
    by (auto simp: dfs_inv_visit split: if_splits)
  have "colors st1 w = Gray"
    using dfs_loop_gray [OF Done(2) refl, of w] by simp
  with inv1 black1 have "dfs_inv g (paint w Black st1)"
    by (blast intro: dfs_inv_finish)
  with Done keep1 show ?case by auto
qed auto

subsection \<open>Soundness: a reported cycle is a cycle of the graph\<close>

text \<open>The gray nodes, innermost first, are linked by parent pointers that follow edges
  backwards.\<close>

definition gray_stack :: "graph \<Rightarrow> dfs_state \<Rightarrow> txn_id list \<Rightarrow> bool" where
  "gray_stack g st stk \<longleftrightarrow>
     distinct stk \<and> set stk = {v. colors st v = Gray} \<and>
     successively (\<lambda>x y. parents st x = y \<and> x \<in> set (succs g y)) stk"

definition back_edge :: "graph \<Rightarrow> dfs_state \<Rightarrow> txn_id \<Rightarrow> txn_id \<Rightarrow> bool" where
  "back_edge g st a b \<longleftrightarrow>
     (\<exists>pre post. distinct (pre @ a # post) \<and> hd (pre @ [a]) = b \<and> a \<in> set (succs g b) \<and>
        successively (\<lambda>x y. parents st x = y \<and> x \<in> set (succs g y)) (pre @ [a]))"

lemma gray_stack_back_edge:
  assumes "gray_stack g st (b # stk)" and "colors st a = Gray" and "a \<in> set (succs g b)"
  shows "back_edge g st a b"
proof -
  from assms(1,2) have "a \<in> set (b # stk)"
    by (auto simp: gray_stack_def)
  then obtain pre post where split: "b # stk = pre @ a # post"
    by (metis split_list)
  then have "hd (pre @ [a]) = b"
    by (cases pre) auto
  moreover have "successively (\<lambda>x y. parents st x = y \<and> x \<in> set (succs g y)) (pre @ [a])"
    using assms(1) unfolding gray_stack_def split
    by (auto simp: successively_append_iff)
  moreover have "distinct (pre @ a # post)"
    using assms(1) unfolding gray_stack_def split by simp
  ultimately show ?thesis
    using assms(3) unfolding back_edge_def by blast
qed

lemma gray_stack_visit:
  assumes "gray_stack g st (v # stk)" and "colors st w = White" and "w \<in> set (succs g v)"
  shows "gray_stack g (visit w v st) (w # v # stk)"
proof -
  have old: "successively (\<lambda>x y. parents st x = y \<and> x \<in> set (succs g y)) (v # stk)"
    and w: "w \<notin> set (v # stk)"
    using assms by (auto simp: gray_stack_def)
  from old have "successively (\<lambda>x y. parents (visit w v st) x = y \<and> x \<in> set (succs g y)) (v # stk)"
    by (rule successively_mono) (use w in auto)
  with assms w show ?thesis
    by (auto simp: gray_stack_def)
qed

lemma gray_stack_return:
  assumes "gray_stack g st stk" and "colors st w = White"
    and run: "dfs_loop g w ws (visit w v st) = (None, st1)"
  shows "gray_stack g (paint w Black st1) stk"
proof -
  have gray: "colors (paint w Black st1) x = Gray \<longleftrightarrow> colors st x = Gray" for x
    using dfs_loop_gray [OF run refl, of x] assms(2) by auto
  have par: "parents (paint w Black st1) x = parents st x" if "x \<in> set stk" for x
    using dfs_loop_parents [OF run, of x] that assms(1,2) by (auto simp: gray_stack_def)
  have "successively (\<lambda>x y. parents st x = y \<and> x \<in> set (succs g y)) stk"
    using assms(1) by (simp add: gray_stack_def)
  then have "successively (\<lambda>x y. parents (paint w Black st1) x = y \<and> x \<in> set (succs g y)) stk"
    by (rule successively_mono) (use par in auto)
  with assms(1) gray show ?thesis
    by (simp add: gray_stack_def)
qed

lemma dfs_loop_sound:
  "dfs_loop g v ws st = (r, st') \<Longrightarrow> r = Some (a, b) \<Longrightarrow> gray_stack g st (v # stk) \<Longrightarrow>
     set ws \<subseteq> set (succs g v) \<Longrightarrow> back_edge g st' a b"
proof (induction arbitrary: stk rule: dfs_loop_induct)
  case (Gray g v w ws st)
  then show ?case by (auto intro: gray_stack_back_edge)
next
  case (Found g v w ws st c st')
  then show ?case by (auto intro: gray_stack_visit)
next
  case (Done g v w ws st st1 r st')
  then show ?case by (auto dest: gray_stack_return)
qed auto

lemma walk_back_chain:
  assumes "successively (\<lambda>x y. par x = y \<and> E x y) (pre @ [a])" and "a \<notin> set pre"
  shows "walk_back par a (hd (pre @ [a])) acc = Some (rev pre @ acc)"
  using assms
proof (induction pre arbitrary: acc)
  case Nil
  then show ?case by (simp add: walk_back.simps)
next
  case (Cons x pre)
  then have "par x = hd (pre @ [a])"
    by (cases pre) auto
  moreover have "successively (\<lambda>x y. par x = y \<and> E x y) (pre @ [a])"
    using Cons.prems by (cases pre) auto
  ultimately show ?case
    using Cons by (auto simp: walk_back.simps [of par a x])
qed


lemma dfs_sound:
  assumes "dfs g v st = (Some (a, b), st')" and "\<forall>x. colors st x \<noteq> Gray"
  shows "back_edge g st' a b"
proof -
  have "gray_stack g (paint v Gray st) [v]"
    using assms(2) by (auto simp: gray_stack_def)
  then show ?thesis
    using assms(1) by (auto simp: dfs_def split: prod.splits option.splits intro: dfs_loop_sound)
qed

lemma dfs_complete:
  assumes run: "dfs g v st = (None, st')" and "colors st v = White" and "\<forall>x. colors st x \<noteq> Gray"
    and "dfs_inv g st"
  shows "dfs_inv g st'" and "\<forall>x. colors st' x \<noteq> Gray" and "colors st' v = Black"
    and "\<forall>x. colors st x = Black \<longrightarrow> colors st' x = Black"
proof -
  from run obtain st1 where loop: "dfs_loop g v (succs g v) (paint v Gray st) = (None, st1)"
    and st': "st' = paint v Black st1"
    by (auto simp: dfs_def split: prod.splits option.splits)
  have gray: "colors st1 x = Gray \<longleftrightarrow> x = v" for x
    using dfs_loop_gray [OF loop refl, of x] assms(3) by simp
  have "dfs_inv g (paint v Gray st)"
    using dfs_inv_visit [OF assms(4,2), of 0] by (simp add: dfs_inv_def black_edges_def)
  from dfs_loop_complete [OF loop refl this]
  have inv1: "dfs_inv g st1" and black: "\<forall>x \<in> set (succs g v). colors st1 x = Black"
    and keep: "\<forall>x. colors (paint v Gray st) x = Black \<longrightarrow> colors st1 x = Black"
    by blast+
  show "dfs_inv g st'"
    unfolding st' by (rule dfs_inv_finish [OF inv1 _ black]) (simp add: gray)
  show "\<forall>x. colors st' x \<noteq> Gray" and "colors st' v = Black"
    using gray by (auto simp: st')
  show "\<forall>x. colors st x = Black \<longrightarrow> colors st' x = Black"
    using keep by (auto simp: st')
qed

lemma dfs_roots_sound:
  "dfs_roots g vs st = (Some (a, b), st') \<Longrightarrow> \<forall>x. colors st x \<noteq> Gray \<Longrightarrow> dfs_inv g st \<Longrightarrow>
     back_edge g st' a b"
proof (induction vs arbitrary: st)
  case (Cons v vs)
  show ?case
  proof (cases "colors st v = White")
    case True
    obtain r st1 where one: "dfs g v st = (r, st1)" by fastforce
    show ?thesis
    proof (cases r)
      case None
      note fin = dfs_complete [OF one [unfolded None] True Cons.prems(2,3)]
      show ?thesis
        using Cons.IH [OF _ fin(2) fin(1)] Cons.prems(1) True one None by simp
    next
      case (Some c)
      with Cons.prems True one show ?thesis
        by (auto intro: dfs_sound)
    qed
  next
    case False
    with Cons show ?thesis by simp
  qed
qed simp

lemma dfs_roots_complete:
  "dfs_roots g vs st = (None, st') \<Longrightarrow> \<forall>x. colors st x \<noteq> Gray \<Longrightarrow> dfs_inv g st \<Longrightarrow>
     dfs_inv g st' \<and> (\<forall>v \<in> set vs. colors st' v = Black) \<and>
     (\<forall>x. colors st x = Black \<longrightarrow> colors st' x = Black)"
proof (induction vs arbitrary: st)
  case (Cons v vs)
  show ?case
  proof (cases "colors st v = White")
    case True
    obtain st1 where one: "dfs g v st = (None, st1)" and rest: "dfs_roots g vs st1 = (None, st')"
      using Cons.prems(1) True by (auto split: prod.splits option.splits)
    note fin = dfs_complete [OF one True Cons.prems(2,3)]
    show ?thesis
      using Cons.IH [OF rest fin(2) fin(1)] fin by auto
  next
    case False
    with Cons.prems(2) have "colors st v = Black"
      by (metis color.exhaust)
    with Cons False show ?thesis by auto
  qed
qed simp

lemma dfs_init_inv: "\<forall>x. colors dfs_init x \<noteq> Gray" "dfs_inv g dfs_init"
  by (auto simp: dfs_init_def dfs_inv_def black_edges_def acyclic_def)

lemma edge_rel_keys: "(v, w) \<in> edge_rel g \<Longrightarrow> v \<in> set (go_keys g)"
  by (cases "go_get g v") (auto simp: edge_rel_def succs_def dest!: map_of_SomeD intro: rev_image_eqI)

lemma FindCycle_NotFound_acyclic: "FindCycle g = Some NotFound \<Longrightarrow> acyclic (edge_rel g)"
proof -
  assume "FindCycle g = Some NotFound"
  then obtain st where roots: "dfs_roots g (go_keys g) dfs_init = (None, st)"
    by (auto simp: FindCycle_def Let_def split: prod.splits option.splits)
  from dfs_roots_complete [OF this dfs_init_inv]
  have inv: "dfs_inv g st" and black: "\<forall>v \<in> set (go_keys g). colors st v = Black"
    by blast+
  have "black_edges g st = edge_rel g"
    using black edge_rel_keys [of _ _ g] by (fastforce simp: black_edges_def)
  with inv show ?thesis
    by (simp add: dfs_inv_def)
qed

lemma selectVictim_from_max:
  "selectVictim_from m xs \<in> insert m (set xs) \<and> (\<forall>x \<in> insert m (set xs). x \<le> selectVictim_from m xs)"
proof (induction xs arbitrary: m)
  case (Cons x xs)
  then show ?case
    by (cases "m < x") (force, force simp: not_less)
qed simp

lemma selectVictim_max: "xs \<noteq> [] \<Longrightarrow> selectVictim xs \<in> set xs \<and> (\<forall>x \<in> set xs. x \<le> selectVictim xs)"
proof -
  assume "xs \<noteq> []"
  then obtain y ys where "xs = y # ys" by (cases xs) auto
  then have "selectVictim xs = selectVictim_from y ys"
    by (auto simp: selectVictim_def word_gt_0)
  with \<open>xs = y # ys\<close> show ?thesis
    using selectVictim_from_max [of y ys] by simp
qed

text \<open>A closed walk along edges of the graph.\<close>

definition is_cycle :: "graph \<Rightarrow> txn_id \<Rightarrow> txn_id list \<Rightarrow> bool" where
  "is_cycle g start path \<longleftrightarrow>
     distinct (start # path) \<and> successively (\<lambda>v w. w \<in> set (succs g v)) (start # path @ [start])"

lemma back_edge_cycle:
  assumes "back_edge g st a b"
  obtains path where "walk_back (parents st) a b [a] = Some (path @ [a])" and "is_cycle g a path"
proof -
  from assms obtain pre post where dist: "distinct (pre @ a # post)" and hd: "hd (pre @ [a]) = b"
    and edge: "a \<in> set (succs g b)"
    and chain: "successively (\<lambda>x y. parents st x = y \<and> x \<in> set (succs g y)) (pre @ [a])"
    by (auto simp: back_edge_def)
  have "walk_back (parents st) a b [a] = Some (rev pre @ [a])"
    using walk_back_chain [OF chain, of "[a]"] dist hd by simp
  moreover have "is_cycle g a (rev pre)"
  proof -
    have "successively (\<lambda>x y. x \<in> set (succs g y)) (pre @ [a])"
      using chain by (rule successively_mono) simp
    then have "successively (\<lambda>x y. x \<in> set (succs g y)) (a # pre @ [a])"
      using hd edge by (simp add: successively_Cons)
    then have "successively (\<lambda>v w. w \<in> set (succs g v)) (rev (a # pre @ [a]))"
      by (simp only: successively_rev)
    with dist show ?thesis by (simp add: is_cycle_def)
  qed
  ultimately show ?thesis using that by blast
qed

lemma FindCycle_roots:
  "FindCycle g = Some NotFound \<or>
   (\<exists>a path. FindCycle g = Some (Found (selectVictim (path @ [a, a])) (path @ [a, a])) \<and> is_cycle g a path)"
proof (cases "dfs_roots g (go_keys g) dfs_init")
  case (Pair r st)
  show ?thesis
  proof (cases r)
    case None
    with Pair show ?thesis by (simp add: FindCycle_def)
  next
    case (Some ab)
    obtain a b where ab: "ab = (a, b)" by fastforce
    from dfs_roots_sound [OF Pair [unfolded Some ab] dfs_init_inv]
    obtain path where "walk_back (parents st) a b [a] = Some (path @ [a])" and "is_cycle g a path"
      by (rule back_edge_cycle)
    with Pair Some ab show ?thesis
      by (auto simp: FindCycle_def Let_def)
  qed
qed

lemma is_cycle_not_acyclic: "is_cycle g a path \<Longrightarrow> \<not> acyclic (edge_rel g)"
proof -
  have walk: "successively (\<lambda>v w. w \<in> set (succs g v)) (v # p @ [w]) \<Longrightarrow> (v, w) \<in> (edge_rel g)\<^sup>+" for v w p
  proof (induction p arbitrary: v)
    case Nil
    then show ?case by (simp add: edge_rel_def trancl.r_into_trancl)
  next
    case (Cons x p)
    then have "(v, x) \<in> edge_rel g" and "(x, w) \<in> (edge_rel g)\<^sup>+"
      by (auto simp: edge_rel_def)
    then show ?case by (rule trancl_into_trancl2)
  qed
  assume "is_cycle g a path"
  then have "(a, a) \<in> (edge_rel g)\<^sup>+"
    using walk [of a path a] by (simp only: is_cycle_def)
  then show ?thesis by (auto simp: acyclic_def)
qed

section \<open>The graph operations on the edge relation\<close>

lemma succs_NewWaitForGraph [simp]: "succs NewWaitForGraph v = []"
  by (simp add: succs_def NewWaitForGraph_def)

lemma succs_ensure_node [simp]: "succs (ensure_node w g) v = succs g v"
  by (simp add: succs_def ensure_node_def gomap_simps)

lemma succs_AddEdge:
  "succs (AddEdge g from to) v = (if v = from then List.insert to (succs g from) else succs g v)"
proof -
  have "succs (go_put from ws g) v = (if v = from then ws else succs g v)" for ws and g :: graph
    by (simp add: succs_def gomap_simps)
  then show ?thesis by (simp add: AddEdge_def Let_def)
qed

lemma succs_RemoveEdges: "succs (RemoveEdges g t) v = (if v = t then [] else succs g v)"
  by (simp add: succs_def RemoveEdges_def gomap_simps)

lemma succs_RemoveNode: "succs (RemoveNode g t) v = (if v = t then [] else removeAll t (succs g v))"
  by (simp add: succs_def RemoveNode_def map_of_map gomap_simps split: option.splits)

lemma edge_rel_ops:
  "edge_rel NewWaitForGraph = {}"
  "edge_rel (AddEdge g from to) = insert (from, to) (edge_rel g)"
  "edge_rel (RemoveEdges g t) = {(v, w) \<in> edge_rel g. v \<noteq> t}"
  "edge_rel (RemoveNode g t) = {(v, w) \<in> edge_rel g. v \<noteq> t \<and> w \<noteq> t}"
  by (auto simp: edge_rel_def succs_AddEdge succs_RemoveEdges succs_RemoveNode split: if_splits)

text \<open>The invariant of the two-level Go map: no key and no successor twice.\<close>

definition graph_ok :: "graph \<Rightarrow> bool" where
  "graph_ok g \<longleftrightarrow> distinct (go_keys g) \<and> (\<forall>v. distinct (succs g v))"

lemma distinct_keys_ensure_node: "distinct (go_keys g) \<Longrightarrow> distinct (go_keys (ensure_node v g))"
  by (simp add: ensure_node_def distinct_go_put)

lemma graph_ok_ops:
  "graph_ok NewWaitForGraph"
  "graph_ok g \<Longrightarrow> graph_ok (AddEdge g from to)"
  "graph_ok g \<Longrightarrow> graph_ok (RemoveEdges g t)"
  "graph_ok g \<Longrightarrow> graph_ok (RemoveNode g t)"
proof -
  show "graph_ok NewWaitForGraph" by (simp add: graph_ok_def) (simp add: NewWaitForGraph_def)
  show "graph_ok g \<Longrightarrow> graph_ok (AddEdge g from to)"
    by (auto simp: graph_ok_def succs_AddEdge)
       (simp add: AddEdge_def Let_def distinct_keys_ensure_node distinct_go_put)
  show "graph_ok g \<Longrightarrow> graph_ok (RemoveEdges g t)"
    by (auto simp: graph_ok_def succs_RemoveEdges) (simp add: RemoveEdges_def distinct_go_del)
  show "graph_ok g \<Longrightarrow> graph_ok (RemoveNode g t)"
    by (auto simp: graph_ok_def succs_RemoveNode distinct_removeAll)
       (simp add: RemoveNode_def distinct_go_del comp_def case_prod_unfold)
qed

lemma set_Edges: "distinct (go_keys g) \<Longrightarrow> set (Edges g) = edge_rel g"
  by (auto simp: Edges_def edge_rel_def succs_def split: option.splits dest: map_of_SomeD)

text \<open>
  \<^verbatim>\<open>lock.WFGInterface\<close>, the contract between the lock manager and the wait-for graph: what the
  two calls of the lock package do to the recorded edges. The lock manager's own use, one
  \<^verbatim>\<open>AddEdge\<close> per conflicting holder and one \<^verbatim>\<open>RemoveEdges\<close> when the wait is over, is derived
  from it.
\<close>

locale WFGInterface =
  fixes add_edge :: "'g \<Rightarrow> txn_id \<Rightarrow> txn_id \<Rightarrow> 'g"
    and remove_edges :: "'g \<Rightarrow> txn_id \<Rightarrow> 'g"
    and waits :: "'g \<Rightarrow> (txn_id \<times> txn_id) set"
  assumes waits_add: "waits (add_edge g from to) = insert (from, to) (waits g)"
    and waits_remove: "waits (remove_edges g t) = {(v, w) \<in> waits g. v \<noteq> t}"
begin

lemma waits_add_all: "waits (fold (\<lambda>c g. add_edge g t c) cs g) = waits g \<union> {t} \<times> set cs"
  by (induction cs arbitrary: g) (auto simp: waits_add)

lemma wait_then_remove:
  "waits (remove_edges (fold (\<lambda>c g. add_edge g t c) cs g) t) = waits (remove_edges g t)"
  by (auto simp: waits_add_all waits_remove)

lemma remove_keeps_others: "v \<noteq> t \<Longrightarrow> (v, w) \<in> waits (remove_edges g t) \<longleftrightarrow> (v, w) \<in> waits g"
  by (simp add: waits_remove)

end

interpretation wfg: WFGInterface AddEdge RemoveEdges edge_rel
  by unfold_locales (simp_all add: edge_rel_ops)

section \<open>The detector\<close>

text \<open>A detection record without its generated name and time stamp.\<close>

record dl_record =
  rec_cycle :: "txn_id list"
  rec_victim :: txn_id
  rec_reason :: gostring

record history =
  records :: "dl_record list"
  maxSize :: nat

definition NewHistory :: history where
  "NewHistory = \<lparr>records = [], maxSize = 100\<rparr>"

definition History_Add :: "history \<Rightarrow> dl_record \<Rightarrow> history" where
  "History_Add h r =
     (let rs = records h @ [r]
      in h\<lparr>records := (if maxSize h < length rs then drop (length rs - maxSize h) rs else rs)\<rparr>)"

definition History_All :: "history \<Rightarrow> dl_record list" where
  "History_All h = records h"

text \<open>One firing of the ticker: the new graph and history, and the arguments of the abort
  callback if a cycle was found. \<open>None\<close> is a tick that does not end.\<close>

definition tick :: "graph \<Rightarrow> history \<Rightarrow> (graph \<times> history \<times> (txn_id \<times> txn_id list) option) option" where
  "tick g h =
     (case FindCycle g of
        None \<Rightarrow> None
      | Some NotFound \<Rightarrow> Some (g, h, None)
      | Some (Found victim cycle) \<Rightarrow>
          Some (RemoveNode g victim,
                History_Add h \<lparr>rec_cycle = cycle, rec_victim = victim, rec_reason = ''youngest''\<rparr>,
                Some (victim, cycle)))"

text \<open>\<open>n\<close> ticks with no other change of the graph in between; the victims in order.\<close>

fun ticks :: "nat \<Rightarrow> graph \<Rightarrow> history \<Rightarrow> (graph \<times> history \<times> txn_id list) option" where
  "ticks 0 g h = Some (g, h, [])"
| "ticks (Suc n) g h =
     (case tick g h of
        None \<Rightarrow> None
      | Some (g1, h1, r) \<Rightarrow>
          (case ticks n g1 h1 of
             None \<Rightarrow> None
           | Some (g2, h2, vs) \<Rightarrow>
               Some (g2, h2, (case r of None \<Rightarrow> vs | Some (v, _) \<Rightarrow> v # vs))))"

section \<open>Prevention policies\<close>

datatype PreventionPolicy = PolicyDetect | PolicyWaitDie | PolicyWoundWait

datatype Action = ActionWait | ActionDie | ActionWound

definition WaitDie :: "txn_id \<Rightarrow> txn_id \<Rightarrow> Action" where
  "WaitDie requesterID holderID = (if requesterID < holderID then ActionWait else ActionDie)"

definition WoundWait :: "txn_id \<Rightarrow> txn_id \<Rightarrow> Action" where
  "WoundWait requesterID holderID = (if requesterID < holderID then ActionWound else ActionWait)"

text \<open>The transaction that an action aborts: the requester that dies, the holder that is wounded.\<close>

definition aborted_by :: "Action \<Rightarrow> txn_id \<Rightarrow> txn_id \<Rightarrow> txn_id option" where
  "aborted_by a requesterID holderID =
     (case a of ActionWait \<Rightarrow> None | ActionDie \<Rightarrow> Some requesterID | ActionWound \<Rightarrow> Some holderID)"

text \<open>A policy lets a transaction wait for another one only along a fixed order of their
  identifiers; then no set of permitted waits has a cycle.\<close>

locale prevention_policy =
  fixes policy :: "txn_id \<Rightarrow> txn_id \<Rightarrow> Action"
    and before :: "txn_id \<Rightarrow> txn_id \<Rightarrow> bool"
  assumes before_irrefl: "\<not> before v v"
    and before_trans: "before u v \<Longrightarrow> before v w \<Longrightarrow> before u w"
    and wait_before: "v \<noteq> w \<Longrightarrow> policy v w = ActionWait \<Longrightarrow> before v w"
begin

lemma waits_acyclic:
  assumes "\<forall>(v, w) \<in> R. v \<noteq> w \<and> policy v w = ActionWait"
  shows "acyclic R"
proof -
  have step: "before v w" if "(v, w) \<in> R" for v w
    using assms that wait_before by blast
  have "before v w" if "(v, w) \<in> R\<^sup>+" for v w
    using that
  proof (induction rule: trancl_induct)
    case (base y)
    then show ?case by (rule step)
  next
    case (step y z)
    then show ?case using before_trans \<open>\<And>v w. (v, w) \<in> R \<Longrightarrow> before v w\<close> by metis
  qed
  with before_irrefl show ?thesis
    unfolding acyclic_def by metis
qed

end

interpretation wait_die: prevention_policy WaitDie "(<)"
  by unfold_locales (auto simp: WaitDie_def split: if_splits)

interpretation wound_wait: prevention_policy WoundWait "(>)"
  by unfold_locales (auto simp: WoundWait_def split: if_splits)

section \<open>Properties of the package\<close>

lemma selectVictim_Max: "xs \<noteq> [] \<Longrightarrow> selectVictim xs = Max (set xs)"
  using selectVictim_max [of xs] by (intro Max_eqI [symmetric]) auto

lemma FindCycle_cases:
  obtains "FindCycle g = Some NotFound" and "acyclic (edge_rel g)"
  | start path where "FindCycle g = Some (Found (Max (set (path @ [start]))) (path @ [start, start]))"
      and "is_cycle g start path" and "\<not> acyclic (edge_rel g)"
  using FindCycle_roots [of g] FindCycle_NotFound_acyclic [of g] is_cycle_not_acyclic [of g]
  by (auto simp: selectVictim_Max)

text \<open>
  C12. \<^verbatim>\<open>FindCycle\<close> is a decision procedure for cycles. For every graph and every
  iteration order of its maps it returns; it reports no cycle exactly when the edge relation
  is acyclic; otherwise it reports a real simple cycle of the graph, starting and ending at
  \<open>start\<close>, with the youngest transaction (largest id) on it as the victim. The slice it returns
  holds the transactions after \<open>start\<close> in edge order and then \<open>start\<close> twice.
\<close>

theorem FindCycle_correct:
  "if acyclic (edge_rel g) then FindCycle g = Some NotFound
   else \<exists>start path. FindCycle g = Some (Found (Max (set (path @ [start]))) (path @ [start, start])) \<and>
          is_cycle g start path"
  by (cases rule: FindCycle_cases [of g]) auto

lemma is_cycle_member_key:
  assumes "is_cycle g start path" and "v \<in> set (path @ [start])"
  shows "v \<in> set (go_keys g)"
proof -
  have "successively (\<lambda>v w. w \<in> set (succs g v)) (start # path @ [start])"
    using assms(1) by (simp only: is_cycle_def)
  moreover have "v \<in> set (start # path)" using assms(2) by auto
  ultimately obtain w where "w \<in> set (succs g v)"
    using successively_next [of _ "start # path" start v] by auto
  then show ?thesis
    using edge_rel_keys [of v _ g] by (auto simp: edge_rel_def)
qed

lemma length_go_del: "v \<in> set (go_keys g) \<Longrightarrow> length (go_del v g) < length g"
  by (induction g) (auto simp: AList.delete_eq le_imp_less_Suc length_filter_le)

lemma tick_cases:
  obtains "tick g h = Some (g, h, None)" and "acyclic (edge_rel g)"
  | victim cycle h' where "tick g h = Some (RemoveNode g victim, h', Some (victim, cycle))"
      and "victim \<in> set (go_keys g)" and "length (RemoveNode g victim) < length g"
proof (cases rule: FindCycle_cases [of g])
  case 1
  then show ?thesis using that(1) by (simp add: tick_def)
next
  case (2 start path)
  have "Max (set (path @ [start])) \<in> set (path @ [start])"
    by (rule Max_in) auto
  then have key: "Max (set (path @ [start])) \<in> set (go_keys g)"
    by (rule is_cycle_member_key [OF 2(2)])
  then have "length (RemoveNode g (Max (set (path @ [start])))) < length g"
    by (simp add: RemoveNode_def length_go_del)
  with 2 key show ?thesis
    using that(2) by (simp add: tick_def)
qed

lemma ticks_acyclic:
  "length g \<le> n \<Longrightarrow>
     \<exists>g' h' vs. ticks n g h = Some (g', h', vs) \<and> acyclic (edge_rel g') \<and>
       edge_rel g' = {(v, w) \<in> edge_rel g. v \<notin> set vs \<and> w \<notin> set vs} \<and> set vs \<subseteq> set (go_keys g)"
proof (induction n arbitrary: g h)
  case 0
  then show ?case by (auto simp: edge_rel_def succs_def acyclic_def)
next
  case (Suc n)
  show ?case
  proof (cases rule: tick_cases [of g h])
    case 1
    have "\<exists>h'. ticks n g h = Some (g, h', [])"
      using 1(1) by (induction n) auto
    with 1 show ?thesis by auto
  next
    case (2 victim cycle h1)
    with Suc.prems have "length (RemoveNode g victim) \<le> n" by simp
    from Suc.IH [OF this, of h1] obtain g' h' vs
      where "ticks n (RemoveNode g victim) h1 = Some (g', h', vs)" and "acyclic (edge_rel g')"
        and "edge_rel g' = {(v, w) \<in> edge_rel (RemoveNode g victim). v \<notin> set vs \<and> w \<notin> set vs}"
        and "set vs \<subseteq> set (go_keys (RemoveNode g victim))"
      by blast
    moreover have "set (go_keys (RemoveNode g victim)) \<subseteq> set (go_keys g)"
      by (force simp: RemoveNode_def AList.delete_eq)
    ultimately show ?thesis
      using 2 by (auto simp: edge_rel_ops)
  qed
qed

text \<open>
  C29. The detector resolves every deadlock: as many ticks as the graph has nodes end, and
  leave an acyclic graph, namely the old one without the victims and their edges; each victim
  was a node of the graph.
\<close>

theorem ticks_resolve_deadlocks:
  "\<exists>g' h' vs. ticks (length g) g h = Some (g', h', vs) \<and> acyclic (edge_rel g') \<and>
     edge_rel g' = {(v, w) \<in> edge_rel g. v \<notin> set vs \<and> w \<notin> set vs} \<and> set vs \<subseteq> set (Nodes g)"
  using ticks_acyclic [of g "length g" h] by (simp add: Nodes_def)

lemma History_Add_fold:
  "records (foldl History_Add NewHistory rs) = drop (length rs - 100) rs \<and>
   maxSize (foldl History_Add NewHistory rs) = 100"
proof (induction rs rule: rev_induct)
  case Nil
  then show ?case by (simp add: NewHistory_def)
next
  case (snoc r rs)
  define h where "h = foldl History_Add NewHistory rs"
  from snoc have "records h = drop (length rs - 100) rs" and "maxSize h = 100"
    by (simp_all add: h_def)
  then have "records (History_Add h r) = drop (length (rs @ [r]) - 100) (rs @ [r])
     \<and> maxSize (History_Add h r) = 100"
    by (cases "length rs < 100")
       (simp_all add: History_Add_def Let_def Suc_diff_le flip: Suc_diff_le [of 100 "length rs"])
  then show ?case by (simp add: h_def)
qed

text \<open>
  C34. The deadlock history never holds more than 100 records and always holds the most
  recent ones, in order of detection.
\<close>

theorem History_keeps_latest:
  "History_All (foldl History_Add NewHistory rs) = drop (length rs - 100) rs"
  by (simp add: History_All_def History_Add_fold)

text \<open>
  C33. Both prevention policies exclude deadlock without starving anybody. The waits between
  distinct transactions that Wait-Die permits never form a cycle, nor do the waits that Wound-Wait
  permits. Under either policy the transaction that is aborted, if one is, is the younger of the two,
  so the oldest transaction is never aborted. And the policies do not simply abort: of two distinct
  transactions one may wait for the other.
\<close>

theorem prevention_no_deadlock:
  "acyclic {(v, w). v \<noteq> w \<and> WaitDie v w = ActionWait} \<and>
   acyclic {(v, w). v \<noteq> w \<and> WoundWait v w = ActionWait} \<and>
   aborted_by (WaitDie v w) v w \<in> {None, Some (max v w)} \<and> aborted_by (WoundWait v w) v w \<in> {None, Some (max v w)} \<and>
   ((WaitDie v w = ActionWait \<longleftrightarrow> WaitDie w v = ActionDie) \<or> v = w) \<and>
   ((WoundWait v w = ActionWait \<longleftrightarrow> WoundWait w v = ActionWound) \<or> v = w)"
proof (intro conjI)
  show "acyclic {(v, w). v \<noteq> w \<and> WaitDie v w = ActionWait}" by (rule wait_die.waits_acyclic) auto
  show "acyclic {(v, w). v \<noteq> w \<and> WoundWait v w = ActionWait}" by (rule wound_wait.waits_acyclic) auto
qed (auto simp: WaitDie_def WoundWait_def aborted_by_def)

end
