(* ===== verification/Bytes.thy ===== *)
theory Bytes
  imports Prelude
begin

text \<open>
  Byte slices and the little-endian conversions of Go's \<^verbatim>\<open>encoding/binary\<close> that the value
  codec, the log records and the pages use. A byte slice is a list of 8-bit words; a Go
  string converts to and from the bytes of its characters.
\<close>

unbundle bit_operations_syntax

type_synonym bytes = "u8 list"

primrec le_bytes :: "nat \<Rightarrow> 'a::len word \<Rightarrow> bytes" where
  "le_bytes 0 w = []"
| "le_bytes (Suc n) w = ucast w # le_bytes n (drop_bit 8 w)"

primrec le_word :: "bytes \<Rightarrow> 'a::len word" where
  "le_word [] = 0"
| "le_word (b # bs) = ucast b OR push_bit 8 (le_word bs)"

lemma length_le_bytes [simp]: "length (le_bytes n w) = n"
  by (induction n arbitrary: w) auto

lemma le_word_le_bytes_take: "le_word (le_bytes n w) = take_bit (8 * n) w"
proof (induction n arbitrary: w)
  case (Suc n)
  have "(ucast (ucast w :: u8) :: 'a word) OR push_bit 8 (take_bit (8 * n) (drop_bit 8 w))
      = take_bit (8 * Suc n) w"
    by (rule bit_word_eqI)
       (auto simp: bit_simps)
  with Suc show ?case by simp
qed simp

lemma le_word_le_bytes [simp]: "LENGTH('a) \<le> 8 * n \<Longrightarrow> le_word (le_bytes n w) = (w :: 'a::len word)"
  by (simp add: le_word_le_bytes_take take_bit_word_eq_self)

text \<open>\<^verbatim>\<open>[]byte(s)\<close> and \<^verbatim>\<open>string(b)\<close>.\<close>

definition byte_of_char :: "char \<Rightarrow> u8" where
  "byte_of_char c = of_nat (of_char c)"

definition char_of_byte :: "u8 \<Rightarrow> char" where
  "char_of_byte b = char_of (unat b)"

definition string_bytes :: "gostring \<Rightarrow> bytes" where
  "string_bytes s = map byte_of_char s"

definition bytes_string :: "bytes \<Rightarrow> gostring" where
  "bytes_string b = map char_of_byte b"

lemma char_of_byte_of_char [simp]: "char_of_byte (byte_of_char c) = c"
  by (simp add: char_of_byte_def byte_of_char_def unat_of_nat)

lemma byte_of_char_of_byte [simp]: "byte_of_char (char_of_byte b) = b"
proof -
  have "unat b < 2 ^ LENGTH(8)" by (rule unsigned_less)
  then show ?thesis by (simp add: char_of_byte_def byte_of_char_def)
qed

lemma string_bytes_inverse [simp]: "bytes_string (string_bytes s) = s"
  by (simp add: bytes_string_def string_bytes_def comp_def)

lemma bytes_string_inverse [simp]: "string_bytes (bytes_string b) = b"
  by (simp add: bytes_string_def string_bytes_def comp_def)

lemma length_string_bytes [simp]: "length (string_bytes s) = length s"
  by (simp add: string_bytes_def)

end
