(* ===== verification/Values.thy ===== *)
theory Values
  imports Bytes
begin

text \<open>
  The package \<^verbatim>\<open>internal/types\<close>: error codes and the structured transaction error
  (errors.go), cell values (value.go) and their binary encoding (encode.go). Human-readable
  error messages are left out; a \<^verbatim>\<open>float64\<close> is its IEEE-754 bit pattern, which is all that the
  codec uses.
\<close>

section \<open>Errors\<close>

datatype ErrorCode =
    ErrDeadlock | ErrWriteConflict | ErrSerializationFailure | ErrLockTimeout | ErrTxnAborted
  | ErrTxnCommitted | ErrTxnNotFound | ErrRowNotFound | ErrDuplicateKey | ErrTableNotFound
  | ErrInvalidIsolation | ErrSavepointNotFound | ErrWounded | ErrInvalidRowShape

record TxnError =
  Code :: ErrorCode
  err_TxnID :: u64
  ConflictingTxn :: u64

definition txn_error :: "ErrorCode \<Rightarrow> TxnError" where
  "txn_error c = \<lparr>Code = c, err_TxnID = 0, ConflictingTxn = 0\<rparr>"

definition TxnError_Is :: "TxnError \<Rightarrow> TxnError \<Rightarrow> bool" where
  "TxnError_Is e t = (Code e = Code t)"

definition NewWriteConflictError :: "u64 \<Rightarrow> TxnError" where
  "NewWriteConflictError c = (txn_error ErrWriteConflict)\<lparr>ConflictingTxn := c\<rparr>"

definition NewDeadlockError :: TxnError where
  "NewDeadlockError = txn_error ErrDeadlock"

definition NewLockTimeoutError :: TxnError where
  "NewLockTimeoutError = txn_error ErrLockTimeout"

definition NewDuplicateKeyError :: TxnError where
  "NewDuplicateKeyError = txn_error ErrDuplicateKey"

definition NewSerializationFailure :: TxnError where
  "NewSerializationFailure = txn_error ErrSerializationFailure"

definition NewTxnAbortedError :: TxnError where
  "NewTxnAbortedError = txn_error ErrTxnAborted"

definition NewTxnCommittedError :: "u64 \<Rightarrow> TxnError" where
  "NewTxnCommittedError i = (txn_error ErrTxnCommitted)\<lparr>err_TxnID := i\<rparr>"

definition NewTxnNotFoundError :: "u64 \<Rightarrow> TxnError" where
  "NewTxnNotFoundError i = (txn_error ErrTxnNotFound)\<lparr>err_TxnID := i\<rparr>"

definition NewRowNotFoundError :: TxnError where
  "NewRowNotFoundError = txn_error ErrRowNotFound"

definition NewTableNotFoundError :: TxnError where
  "NewTableNotFoundError = txn_error ErrTableNotFound"

definition NewRowShapeError :: TxnError where
  "NewRowShapeError = txn_error ErrInvalidRowShape"

section \<open>Values\<close>

text \<open>\<^verbatim>\<open>ValueType\<close> is Go's 64-bit \<^verbatim>\<open>int\<close>, with five named constants.\<close>

type_synonym ValueType = "64 word"

abbreviation (input) TypeNull :: ValueType where "TypeNull \<equiv> 0"
abbreviation (input) TypeInt :: ValueType where "TypeInt \<equiv> 1"
abbreviation (input) TypeFloat :: ValueType where "TypeFloat \<equiv> 2"
abbreviation (input) TypeText :: ValueType where "TypeText \<equiv> 3"
abbreviation (input) TypeBool :: ValueType where "TypeBool \<equiv> 4"

record Value =
  v_type :: ValueType
  IsNull :: bool
  v_int :: "64 word"
  v_float :: "64 word"
  v_text :: gostring
  v_bool :: bool

definition zero_value :: "ValueType \<Rightarrow> bool \<Rightarrow> Value" where
  "zero_value t n = \<lparr>v_type = t, IsNull = n, v_int = 0, v_float = 0, v_text = [], v_bool = False\<rparr>"

definition NullVal :: Value where
  "NullVal = zero_value TypeNull True"

definition IntVal :: "64 word \<Rightarrow> Value" where
  "IntVal n = (zero_value TypeInt False)\<lparr>v_int := n\<rparr>"

definition FloatVal :: "64 word \<Rightarrow> Value" where
  "FloatVal f = (zero_value TypeFloat False)\<lparr>v_float := f\<rparr>"

definition TextVal :: "gostring \<Rightarrow> Value" where
  "TextVal s = (zero_value TypeText False)\<lparr>v_text := s\<rparr>"

definition BoolVal :: "bool \<Rightarrow> Value" where
  "BoolVal b = (zero_value TypeBool False)\<lparr>v_bool := b\<rparr>"

section \<open>The codec\<close>

text \<open>
  \<^verbatim>\<open>EncodeValues\<close> fills a buffer of the exact size from left to right, so the model appends.
  \<open>None\<close> is a panic: more than 65535 values, or a text of more than 65535 bytes.
\<close>

definition encode_body :: "Value \<Rightarrow> bytes option" where
  "encode_body v =
     (if v_type v = TypeInt then Some (le_bytes 8 (v_int v))
      else if v_type v = TypeFloat then Some (le_bytes 8 (v_float v))
      else if v_type v = TypeText then
        (if length (v_text v) > 0xFFFF then None
         else Some (le_bytes 2 (of_nat (length (v_text v)) :: u16) @ string_bytes (v_text v)))
      else if v_type v = TypeBool then Some [if v_bool v then 1 else 0]
      else Some [])"

definition encode_value :: "Value \<Rightarrow> bytes option" where
  "encode_value v =
     (if IsNull v then Some [ucast (v_type v), 1]
      else map_option (\<lambda>b. [ucast (v_type v), 0] @ b) (encode_body v))"

fun encode_loop :: "Value list \<Rightarrow> bytes option" where
  "encode_loop [] = Some []"
| "encode_loop (v # vs) =
     (case encode_value v of
        None \<Rightarrow> None
      | Some b \<Rightarrow> map_option (\<lambda>bs. b @ bs) (encode_loop vs))"

definition EncodeValues :: "Value list \<Rightarrow> bytes option" where
  "EncodeValues vals =
     (if length vals > 0xFFFF then None
      else map_option (\<lambda>b. le_bytes 2 (of_nat (length vals) :: u16) @ b) (encode_loop vals))"

datatype decode_error =
    BufferTooShort | TruncatedHeader nat | TruncatedInt nat | TruncatedFloat nat
  | TruncatedTextLen nat | TruncatedTextBody nat | TruncatedBool nat | UnknownType nat

text \<open>The body of value \<open>i\<close>: the value filled in and the bytes after it. \<open>b\<close> is the slice from
  \<^verbatim>\<open>pos\<close> on.\<close>

definition decode_body :: "nat \<Rightarrow> Value \<Rightarrow> bytes \<Rightarrow> decode_error + Value \<times> bytes" where
  "decode_body i v b =
     (if v_type v = TypeNull then Inr (v, b)
      else if v_type v = TypeInt then
        (if length b < 8 then Inl (TruncatedInt i)
         else Inr (v\<lparr>v_int := le_word (take 8 b)\<rparr>, drop 8 b))
      else if v_type v = TypeFloat then
        (if length b < 8 then Inl (TruncatedFloat i)
         else Inr (v\<lparr>v_float := le_word (take 8 b)\<rparr>, drop 8 b))
      else if v_type v = TypeText then
        (if length b < 2 then Inl (TruncatedTextLen i)
         else let tlen = unat (le_word (take 2 b) :: u16); b' = drop 2 b
              in if length b' < tlen then Inl (TruncatedTextBody i)
                 else Inr (v\<lparr>v_text := bytes_string (take tlen b')\<rparr>, drop tlen b'))
      else if v_type v = TypeBool then
        (if length b < 1 then Inl (TruncatedBool i)
         else Inr (v\<lparr>v_bool := (hd b \<noteq> 0)\<rparr>, drop 1 b))
      else Inl (UnknownType i))"

fun decode_loop :: "nat \<Rightarrow> nat \<Rightarrow> bytes \<Rightarrow> decode_error + Value list" where
  "decode_loop 0 i b = Inr []"
| "decode_loop (Suc n) i (t # isnull # b) =
     (let v = zero_value (ucast t) (isnull \<noteq> 0)
      in if isnull \<noteq> 0 then map_sum id ((#) v) (decode_loop n (Suc i) b)
         else case decode_body i v b of
                Inl e \<Rightarrow> Inl e
              | Inr (v', b') \<Rightarrow> map_sum id ((#) v') (decode_loop n (Suc i) b'))"
| "decode_loop (Suc n) i b = Inl (TruncatedHeader i)"

definition DecodeValues :: "bytes \<Rightarrow> decode_error + Value list" where
  "DecodeValues b =
     (if length b < 2 then Inl BufferTooShort
      else decode_loop (unat (le_word (take 2 b) :: u16)) 0 (drop 2 b))"

text \<open>A value as the constructors build it, or a NULL of any type that fits a byte: only the
  fields of its type are set, and a text fits the 16-bit length.\<close>

definition canonical :: "Value \<Rightarrow> bool" where
  "canonical v \<longleftrightarrow>
     (if IsNull v then v_type v < 256 \<and> v = zero_value (v_type v) True
      else v = zero_value TypeNull False \<or> v = IntVal (v_int v) \<or> v = FloatVal (v_float v) \<or>
           v = BoolVal (v_bool v) \<or> v = TextVal (v_text v) \<and> length (v_text v) \<le> 0xFFFF)"

lemma take_drop_le_bytes [simp]:
  "take n (le_bytes n w @ b) = le_bytes n w" "drop n (le_bytes n w @ b) = b"
  by simp_all

lemma zero_value_simps [simp]:
  "v_type (zero_value t n) = t" "IsNull (zero_value t n) = n"
  by (simp_all add: zero_value_def)

lemmas value_defs = IntVal_def FloatVal_def TextVal_def BoolVal_def zero_value_def

lemma type_byte: "t < 256 \<Longrightarrow> ucast (ucast t :: u8) = (t :: ValueType)"
proof -
  assume "t < 256"
  then have "unat t < 2 ^ 8" by (simp add: word_less_nat_alt)
  then have "unat (ucast (ucast t :: u8) :: ValueType) = unat t"
    by (simp add: unsigned_ucast_eq unsigned_take_bit_eq take_bit_nat_eq_self)
  then show ?thesis by (simp only: word_unat_eq_iff)
qed

lemma decode_encode_body:
  assumes "canonical v" and "\<not> IsNull v"
  obtains b where "encode_body v = Some b" and "v_type v < 256"
    and "\<And>i rest. decode_body i (zero_value (v_type v) False) (b @ rest) = Inr (v, rest)"
proof -
  consider "v = zero_value TypeNull False" | "v = IntVal (v_int v)" | "v = FloatVal (v_float v)"
    | "v = BoolVal (v_bool v)" | "v = TextVal (v_text v)" "length (v_text v) \<le> 0xFFFF"
    using assms by (auto simp: canonical_def)
  then show ?thesis
  proof cases
    case 1
    then have "v_type v = TypeNull" by simp
    with 1 show ?thesis
      using that [of "[]"] by (simp add: encode_body_def decode_body_def)
  next
    case 2
    define n where "n = v_int v"
    with 2 have v: "v = IntVal n" by simp
    show ?thesis
      using that [of "le_bytes 8 n"] by (simp add: v encode_body_def decode_body_def value_defs)
  next
    case 3
    define n where "n = v_float v"
    with 3 have v: "v = FloatVal n" by simp
    show ?thesis
      using that [of "le_bytes 8 n"] by (simp add: v encode_body_def decode_body_def value_defs)
  next
    case 4
    define n where "n = v_bool v"
    with 4 have v: "v = BoolVal n" by simp
    show ?thesis
      using that [of "[if n then 1 else 0]"] by (simp add: v encode_body_def decode_body_def value_defs)
  next
    case 5
    define s where "s = v_text v"
    with 5 have v: "v = TextVal s" and len: "length s \<le> 0xFFFF" by simp_all
    then have "unat (of_nat (length s) :: u16) = length s"
      by (simp add: unat_of_nat)
    then show ?thesis
      using that [of "le_bytes 2 (of_nat (length s) :: u16) @ string_bytes s"] len
      by (simp add: v encode_body_def decode_body_def value_defs)
  qed
qed

lemma decode_encode_value:
  assumes "canonical v"
  obtains bs where "encode_value v = Some bs"
    and "\<And>n i rest. decode_loop (Suc n) i (bs @ rest) = map_sum id ((#) v) (decode_loop n (Suc i) rest)"
proof (cases "IsNull v")
  case True
  with assms have "v_type v < 256" and v: "v = zero_value (v_type v) True"
    by (simp_all add: canonical_def)
  then have "decode_loop (Suc n) i ([ucast (v_type v), 1] @ rest) = map_sum id ((#) v) (decode_loop n (Suc i) rest)"
    for n i rest
    using type_byte by simp
  with True show ?thesis
    using that by (simp add: encode_value_def)
next
  case False
  with assms obtain b where "encode_body v = Some b" and "v_type v < 256"
    and "\<And>i rest. decode_body i (zero_value (v_type v) False) (b @ rest) = Inr (v, rest)"
    using decode_encode_body by blast
  with False show ?thesis
    using that [of "[ucast (v_type v), 0] @ b"] by (simp add: encode_value_def type_byte)
qed

lemma decode_encode_loop:
  "list_all canonical vs \<Longrightarrow> \<exists>bs. encode_loop vs = Some bs \<and>
     (\<forall>i rest. decode_loop (length vs) i (bs @ rest) = Inr vs)"
proof (induction vs)
  case (Cons v vs)
  from Cons.prems have "canonical v" by simp
  then obtain b where "encode_value v = Some b"
    and "\<And>n i rest. decode_loop (Suc n) i (b @ rest) = map_sum id ((#) v) (decode_loop n (Suc i) rest)"
    using decode_encode_value by blast
  moreover from Cons obtain bs where "encode_loop vs = Some bs"
    and "\<And>i rest. decode_loop (length vs) i (bs @ rest) = Inr vs"
    by auto
  ultimately show ?case by simp
qed simp

text \<open>
  C31. The value codec round-trips: for a row of at most 65535 canonical values the encoder
  does not panic, and decoding its output, also with further bytes behind it, gives the row
  back.
\<close>

theorem DecodeValues_EncodeValues:
  assumes "length vs \<le> 0xFFFF" and "list_all canonical vs"
  shows "\<exists>bs. EncodeValues vs = Some bs \<and> (\<forall>rest. DecodeValues (bs @ rest) = Inr vs)"
proof -
  from decode_encode_loop [OF assms(2)] obtain bs where "encode_loop vs = Some bs"
    and "\<And>i rest. decode_loop (length vs) i (bs @ rest) = Inr vs" by blast
  moreover have "unat (of_nat (length vs) :: u16) = length vs"
    using assms(1) by (simp add: unat_of_nat)
  ultimately show ?thesis
    using assms(1) by (auto simp: EncodeValues_def DecodeValues_def)
qed

theorem DecodeValues_EncodeValues_witness:
  "\<exists>bs. EncodeValues [IntVal 7, TextVal ''ab'', NullVal, BoolVal True] = Some bs \<and>
     (\<forall>rest. DecodeValues (bs @ rest) = Inr [IntVal 7, TextVal ''ab'', NullVal, BoolVal True])"
  by (rule DecodeValues_EncodeValues) (simp_all add: canonical_def value_defs NullVal_def)

end
