(* ===== verification/Lock_Queue.thy ===== *)
theory Lock_Queue
  imports Prelude
begin

text \<open>
  The lower half of the package \<^verbatim>\<open>internal/lock\<close>: lock modes with the compatibility matrix
  and the strength order (mode.go), lock requests (request.go), resource names (resource.go)
  and the per-resource queue of granted and waiting requests (queue.go).

  A queue operation runs under the queue's mutex, so each is one function. Closing a
  \<^verbatim>\<open>GrantedCh\<close> a second time panics in Go; the model keeps the set of closed channels and
  returns \<open>None\<close> for that panic.
\<close>

section \<open>Lock modes\<close>

datatype Mode = LockNL | LockIS | LockIX | LockS | LockSIX | LockX | LockU

fun mode_index :: "Mode \<Rightarrow> nat" where
  "mode_index LockNL = 0"
| "mode_index LockIS = 1"
| "mode_index LockIX = 2"
| "mode_index LockS = 3"
| "mode_index LockSIX = 4"
| "mode_index LockX = 5"
| "mode_index LockU = 6"

fun Mode_String :: "Mode \<Rightarrow> gostring" where
  "Mode_String LockNL = ''NL''"
| "Mode_String LockIS = ''IS''"
| "Mode_String LockIX = ''IX''"
| "Mode_String LockS = ''S''"
| "Mode_String LockSIX = ''SIX''"
| "Mode_String LockX = ''X''"
| "Mode_String LockU = ''U''"

text \<open>The matrix, indexed by the requested and then by the held mode.\<close>

definition LockCompatible :: "bool list list" where
  "LockCompatible =
    [[True, True,  True,  True,  True,  True,  True],
     [True, True,  True,  True,  True,  False, True],
     [True, True,  True,  False, False, False, False],
     [True, True,  False, True,  False, False, True],
     [True, True,  False, False, False, False, False],
     [True, False, False, False, False, False, False],
     [True, True,  False, True,  False, False, False]]"

definition LockStrength :: "nat list" where
  "LockStrength = [0, 1, 2, 3, 4, 6, 5]"

definition mode_compat :: "Mode \<Rightarrow> Mode \<Rightarrow> bool" where
  "mode_compat requested h = LockCompatible ! mode_index requested ! mode_index h"

definition strength :: "Mode \<Rightarrow> nat" where
  "strength m = LockStrength ! mode_index m"

definition DominantMode :: "Mode \<Rightarrow> Mode \<Rightarrow> Mode" where
  "DominantMode a b = (if strength b \<le> strength a then a else b)"

lemma strength_simps [simp]:
  "strength LockNL = 0" "strength LockIS = 1" "strength LockIX = 2" "strength LockS = 3"
  "strength LockSIX = 4" "strength LockX = 6" "strength LockU = 5"
  by (simp_all add: strength_def LockStrength_def)

lemma mode_compat_rows [simp]:
  "mode_compat LockNL m"
  "mode_compat LockIS m \<longleftrightarrow> m \<noteq> LockX"
  "mode_compat LockIX m \<longleftrightarrow> m = LockNL \<or> m = LockIS \<or> m = LockIX"
  "mode_compat LockS m \<longleftrightarrow> m = LockNL \<or> m = LockIS \<or> m = LockS \<or> m = LockU"
  "mode_compat LockSIX m \<longleftrightarrow> m = LockNL \<or> m = LockIS"
  "mode_compat LockX m \<longleftrightarrow> m = LockNL"
  "mode_compat LockU m \<longleftrightarrow> m = LockNL \<or> m = LockIS \<or> m = LockS"
  by (cases m; simp add: mode_compat_def LockCompatible_def)+

lemma strength_inj: "strength a = strength b \<Longrightarrow> a = b"
  by (cases a; cases b; simp)

lemma compat_sym: "mode_compat a b \<longleftrightarrow> mode_compat b a"
  by (cases a; cases b; simp)

lemma compat_downward: "mode_compat a b \<Longrightarrow> strength a \<le> strength b \<Longrightarrow> mode_compat m b \<Longrightarrow> mode_compat m a"
  by (cases m; cases a; cases b; simp)

text \<open>Modes are ordered by their strength, which makes \<^verbatim>\<open>DominantMode\<close> the maximum.\<close>

instantiation Mode :: linorder
begin

definition less_eq_Mode :: "Mode \<Rightarrow> Mode \<Rightarrow> bool" where
  "less_eq_Mode a b \<longleftrightarrow> strength a \<le> strength b"

definition less_Mode :: "Mode \<Rightarrow> Mode \<Rightarrow> bool" where
  "less_Mode a b \<longleftrightarrow> strength a < strength b"

instance
  by standard (auto simp: less_eq_Mode_def less_Mode_def intro: strength_inj)

end

lemma DominantMode_max: "DominantMode a b = max a b"
  using strength_inj by (auto simp: DominantMode_def max_def less_eq_Mode_def)

text \<open>
  What the queue needs of the modes: a symmetric compatibility whose incompatibilities grow
  with the order among compatible modes. Under these laws one test against the strongest
  granted mode decides compatibility with all granted modes.
\<close>

locale mode_lattice =
  fixes ok :: "'m::linorder \<Rightarrow> 'm \<Rightarrow> bool" and bot_mode :: 'm
  assumes ok_sym: "ok a b \<longleftrightarrow> ok b a"
    and ok_down: "ok a b \<Longrightarrow> a \<le> b \<Longrightarrow> ok m b \<Longrightarrow> ok m a"
    and ok_bot: "ok m bot_mode"
    and bot_least: "bot_mode \<le> a"
begin

lemma foldl_max_in: "foldl max c ms \<in> insert c (set ms)"
  by (induction ms rule: rev_induct) (auto simp: max_def)

lemma strongest_decides:
  "sorted_wrt ok ms \<Longrightarrow> ok m (foldl max bot_mode ms) \<longleftrightarrow> (\<forall>a \<in> set ms. ok m a)"
proof (induction ms rule: rev_induct)
  case Nil
  then show ?case by (simp add: ok_bot)
next
  case (snoc x ms)
  define c where "c = foldl max bot_mode ms"
  have IH: "ok m c \<longleftrightarrow> (\<forall>a \<in> set ms. ok m a)" and ms: "\<forall>a \<in> set ms. ok a x"
    using snoc by (auto simp: c_def sorted_wrt_append)
  have cx: "ok c x"
    using foldl_max_in [of bot_mode ms] ms ok_bot [of x] ok_sym [of x bot_mode] by (auto simp: c_def)
  have "ok m (max c x) \<longleftrightarrow> ok m c \<and> ok m x"
    using ok_down [OF cx, of m] ok_down [of x c m] cx ok_sym [of x c] by (auto simp: max_def)
  with IH show ?case by (auto simp: c_def)
qed

end

interpretation modes: mode_lattice mode_compat LockNL
proof unfold_locales
  show "mode_compat a b \<longleftrightarrow> mode_compat b a" for a b by (rule compat_sym)
  show "mode_compat a b \<Longrightarrow> a \<le> b \<Longrightarrow> mode_compat m b \<Longrightarrow> mode_compat m a" for a b m
    unfolding less_eq_Mode_def by (rule compat_downward)
  show "mode_compat m LockNL" for m by (simp add: compat_sym [of m])
  show "LockNL \<le> a" for a by (simp add: less_eq_Mode_def)
qed

section \<open>Resources\<close>

datatype ResourceType = ResourceTable | ResourceRow | ResourceGap

record ResourceID =
  res_type :: ResourceType
  res_table :: gostring
  res_key :: gostring
  gap_lo :: gostring
  gap_hi :: gostring

definition resource_string :: "ResourceID \<Rightarrow> gostring" where
  "resource_string r =
     (case res_type r of
        ResourceTable \<Rightarrow> ''table:'' @ res_table r
      | ResourceRow \<Rightarrow> ''row:'' @ res_table r @ '':'' @ res_key r
      | ResourceGap \<Rightarrow> ''gap:'' @ res_table r @ '':('' @ gap_lo r @ '','' @ gap_hi r @ '']'')"

definition ResourceForTable :: "gostring \<Rightarrow> ResourceID" where
  "ResourceForTable t =
     \<lparr>res_type = ResourceTable, res_table = t, res_key = [], gap_lo = [], gap_hi = []\<rparr>"

definition ResourceForRow :: "gostring \<Rightarrow> gostring \<Rightarrow> ResourceID" where
  "ResourceForRow t k =
     \<lparr>res_type = ResourceRow, res_table = t, res_key = k, gap_lo = [], gap_hi = []\<rparr>"

definition ResourceForGap :: "gostring \<Rightarrow> gostring \<Rightarrow> gostring \<Rightarrow> ResourceID" where
  "ResourceForGap t lo hi =
     \<lparr>res_type = ResourceGap, res_table = t, res_key = [], gap_lo = lo, gap_hi = hi\<rparr>"

text \<open>The resources the constructors build for table names without a colon and lower gap
  bounds without a comma.\<close>

definition wf_resource :: "ResourceID \<Rightarrow> bool" where
  "wf_resource r =
     (CHR '':'' \<notin> set (res_table r) \<and>
      (case res_type r of
         ResourceTable \<Rightarrow> r = ResourceForTable (res_table r)
       | ResourceRow \<Rightarrow> r = ResourceForRow (res_table r) (res_key r)
       | ResourceGap \<Rightarrow>
           r = ResourceForGap (res_table r) (gap_lo r) (gap_hi r) \<and> CHR '','' \<notin> set (gap_lo r)))"

lemma append_sep_eq: "c \<notin> set a \<Longrightarrow> c \<notin> set b \<Longrightarrow> a @ c # x = b @ c # y \<longleftrightarrow> a = b \<and> x = y"
proof (induction a arbitrary: b)
  case Nil
  then show ?case by (cases b) auto
next
  case (Cons z a)
  then show ?case by (cases b) auto
qed

lemma wf_resource_cases:
  assumes "wf_resource r"
  obtains t where "r = ResourceForTable t"
  | t k where "r = ResourceForRow t k" and "CHR '':'' \<notin> set t"
  | t lo hi where "r = ResourceForGap t lo hi" and "CHR '':'' \<notin> set t" and "CHR '','' \<notin> set lo"
  using assms by (cases "res_type r") (auto simp: wf_resource_def)

lemma resource_string_simps [simp]:
  "resource_string (ResourceForTable t) = ''table:'' @ t"
  "resource_string (ResourceForRow t k) = ''row:'' @ t @ CHR '':'' # k"
  "resource_string (ResourceForGap t lo hi) = ''gap:'' @ t @ CHR '':'' # CHR ''('' # lo @ CHR '','' # hi @ '']''"
  by (simp_all add: resource_string_def ResourceForTable_def ResourceForRow_def ResourceForGap_def)

lemma resource_string_inj:
  assumes "wf_resource r" and "wf_resource s" and "resource_string r = resource_string s"
  shows "r = s"
  using assms(1)
proof (cases rule: wf_resource_cases)
  case (1 t)
  from assms(2,3) 1 show ?thesis by (cases rule: wf_resource_cases) auto
next
  case (2 t k)
  from assms(2,3) 2 show ?thesis by (cases rule: wf_resource_cases) (auto simp: append_sep_eq)
next
  case (3 t lo hi)
  from assms(2,3) 3 show ?thesis by (cases rule: wf_resource_cases) (auto simp: append_sep_eq)
qed

section \<open>Requests and queues\<close>

datatype Status = StatusGranted | StatusWaiting | StatusConverting

text \<open>A request; \<open>rq_ch\<close> is the address of its \<^verbatim>\<open>GrantedCh\<close>. \<open>chans\<close> tells which channels are
  closed.\<close>

record request =
  rq_txn :: txn_id
  rq_mode :: Mode
  rq_status :: Status
  rq_ch :: nat

type_synonym chans = "nat \<Rightarrow> bool"

definition NewRequest :: "txn_id \<Rightarrow> Mode \<Rightarrow> nat \<Rightarrow> request" where
  "NewRequest t m ch = \<lparr>rq_txn = t, rq_mode = m, rq_status = StatusGranted, rq_ch = ch\<rparr>"

record lock_queue =
  q_res :: ResourceID
  granted :: "request list"
  waiting :: "request list"

definition NewQueue :: "ResourceID \<Rightarrow> lock_queue" where
  "NewQueue r = \<lparr>q_res = r, granted = [], waiting = []\<rparr>"

definition CanGrant :: "lock_queue \<Rightarrow> Mode \<Rightarrow> txn_id \<Rightarrow> bool" where
  "CanGrant q m exceptTxnID =
     list_all (\<lambda>g. rq_txn g = exceptTxnID \<or> mode_compat m (rq_mode g)) (granted q)"

definition AddGranted :: "lock_queue \<Rightarrow> request \<Rightarrow> lock_queue" where
  "AddGranted q req = q\<lparr>granted := granted q @ [req\<lparr>rq_status := StatusGranted\<rparr>]\<rparr>"

definition AddWaiting :: "lock_queue \<Rightarrow> request \<Rightarrow> lock_queue" where
  "AddWaiting q req = q\<lparr>waiting := waiting q @ [req\<lparr>rq_status := StatusWaiting\<rparr>]\<rparr>"

definition AddWaitingFront :: "lock_queue \<Rightarrow> request \<Rightarrow> lock_queue" where
  "AddWaitingFront q req = q\<lparr>waiting := req\<lparr>rq_status := StatusConverting\<rparr> # waiting q\<rparr>"

definition RemoveGranted :: "lock_queue \<Rightarrow> txn_id \<Rightarrow> bool \<times> lock_queue" where
  "RemoveGranted q t =
     (list_ex (\<lambda>g. rq_txn g = t) (granted q), q\<lparr>granted := filter (\<lambda>g. rq_txn g \<noteq> t) (granted q)\<rparr>)"

fun remove_first :: "txn_id \<Rightarrow> request list \<Rightarrow> bool \<times> request list" where
  "remove_first t [] = (False, [])"
| "remove_first t (w # ws) =
     (if rq_txn w = t then (True, ws) else map_prod id ((#) w) (remove_first t ws))"

definition RemoveWaiting :: "lock_queue \<Rightarrow> txn_id \<Rightarrow> bool \<times> lock_queue" where
  "RemoveWaiting q t = (let (found, ws) = remove_first t (waiting q) in (found, q\<lparr>waiting := ws\<rparr>))"

text \<open>The loop of \<^verbatim>\<open>GrantWaiters\<close>: the mode so far, the granted list it extends and the
  waiters it has not looked at; the result has the granted list, the waiters that remain and
  the channels.\<close>

fun grant_loop ::
  "Mode \<Rightarrow> request list \<Rightarrow> request list \<Rightarrow> chans \<Rightarrow> (request list \<times> request list \<times> chans) option"
where
  "grant_loop cur gs [] cl = Some (gs, [], cl)"
| "grant_loop cur gs (w # ws) cl =
     (if \<not> mode_compat (rq_mode w) cur then Some (gs, w # ws, cl)
      else if cl (rq_ch w) then None
      else grant_loop (DominantMode cur (rq_mode w)) (gs @ [w\<lparr>rq_status := StatusGranted\<rparr>]) ws
             (cl(rq_ch w := True)))"

definition GrantWaiters :: "lock_queue \<Rightarrow> chans \<Rightarrow> (lock_queue \<times> chans) option" where
  "GrantWaiters q cl =
     (let currentMode = foldl (\<lambda>cur g. DominantMode cur (rq_mode g)) LockNL (granted q)
      in map_option (\<lambda>(gs, ws, cl'). (q\<lparr>granted := gs, waiting := ws\<rparr>, cl'))
           (grant_loop currentMode (granted q) (waiting q) cl))"

fun conflict_loop :: "Mode \<Rightarrow> txn_id \<Rightarrow> txn_id list \<Rightarrow> request list \<Rightarrow> txn_id list" where
  "conflict_loop m t result [] = result"
| "conflict_loop m t result (g # gs) =
     (if rq_txn g = t then conflict_loop m t result gs
      else if \<not> mode_compat m (rq_mode g) \<and> rq_txn g \<notin> set result
      then conflict_loop m t (result @ [rq_txn g]) gs
      else conflict_loop m t result gs)"

definition ConflictingTxns :: "lock_queue \<Rightarrow> Mode \<Rightarrow> txn_id \<Rightarrow> txn_id list" where
  "ConflictingTxns q m requesterID = conflict_loop m requesterID [] (granted q)"

text \<open>The read-only copy behind the lock queue endpoint, without time stamps.\<close>

type_synonym request_snapshot = "txn_id \<times> Mode \<times> Status"

definition request_snap :: "request \<Rightarrow> request_snapshot" where
  "request_snap r = (rq_txn r, rq_mode r, rq_status r)"

definition Queue_Snapshot :: "lock_queue \<Rightarrow> ResourceID \<times> request_snapshot list \<times> request_snapshot list" where
  "Queue_Snapshot q = (q_res q, map request_snap (granted q), map request_snap (waiting q))"

section \<open>The queue invariant\<close>

text \<open>Granted requests belong to distinct transactions and are pairwise compatible; waiting
  requests belong to distinct transactions without a grant, and wait on distinct open
  channels.\<close>

definition queue_ok :: "lock_queue \<Rightarrow> chans \<Rightarrow> bool" where
  "queue_ok q cl \<longleftrightarrow>
     distinct (map rq_txn (granted q @ waiting q)) \<and>
     sorted_wrt (\<lambda>a b. mode_compat (rq_mode a) (rq_mode b)) (granted q) \<and>
     distinct (map rq_ch (waiting q)) \<and>
     (\<forall>w \<in> set (waiting q). \<not> cl (rq_ch w))"

definition grant :: "request \<Rightarrow> request" where
  "grant w = w\<lparr>rq_status := StatusGranted\<rparr>"

lemma grant_simps [simp]: "rq_txn (grant w) = rq_txn w" "rq_mode (grant w) = rq_mode w" "rq_ch (grant w) = rq_ch w"
  by (simp_all add: grant_def)

text \<open>The reference for \<^verbatim>\<open>GrantWaiters\<close>: how many waiters from the front are, one after the
  other, compatible with everything granted before them.\<close>

fun grantable :: "Mode list \<Rightarrow> request list \<Rightarrow> nat" where
  "grantable ms [] = 0"
| "grantable ms (w # ws) =
     (if \<forall>m \<in> set ms. mode_compat (rq_mode w) m then Suc (grantable (ms @ [rq_mode w]) ws) else 0)"

definition close_all :: "nat list \<Rightarrow> chans \<Rightarrow> chans" where
  "close_all chs cl = (\<lambda>c. c \<in> set chs \<or> cl c)"

lemma close_all_simps: "close_all [] cl = cl" "close_all (c # cs) cl = close_all cs (cl(c := True))"
  by (auto simp: close_all_def)

lemma grantable_le: "grantable ms ws \<le> length ws"
  by (induction ms ws rule: grantable.induct) auto

lemma grant_loop_correct:
  assumes "sorted_wrt mode_compat ms" and "cur = foldl max LockNL ms"
    and "distinct (map rq_ch ws)" and "\<forall>w \<in> set ws. \<not> cl (rq_ch w)"
  shows "grant_loop cur gs ws cl =
    Some (gs @ map grant (take (grantable ms ws) ws), drop (grantable ms ws) ws,
          close_all (map rq_ch (take (grantable ms ws) ws)) cl)"
  using assms
proof (induction ws arbitrary: ms cur gs cl)
  case Nil
  then show ?case by (simp add: close_all_def)
next
  case (Cons w ws)
  have dec: "mode_compat (rq_mode w) cur \<longleftrightarrow> (\<forall>m \<in> set ms. mode_compat (rq_mode w) m)"
    using Cons.prems modes.strongest_decides by simp
  show ?case
  proof (cases "mode_compat (rq_mode w) cur")
    case True
    have "sorted_wrt mode_compat (ms @ [rq_mode w])"
      using Cons.prems(1) True dec by (auto simp: sorted_wrt_append compat_sym)
    moreover have "DominantMode cur (rq_mode w) = foldl max LockNL (ms @ [rq_mode w])"
      using Cons.prems(2) by (simp add: DominantMode_max)
    moreover have "\<forall>v \<in> set ws. \<not> (cl(rq_ch w := True)) (rq_ch v)"
      using Cons.prems(3,4) by (force simp: image_iff)
    ultimately show ?thesis
      using Cons.IH [of "ms @ [rq_mode w]" "DominantMode cur (rq_mode w)" "cl(rq_ch w := True)"
          "gs @ [grant w]"] Cons.prems True dec
      by (simp add: grant_def [symmetric] close_all_simps del: fun_upd_apply)
  qed (use Cons.prems dec in \<open>auto simp: close_all_def\<close>)
qed

lemma foldl_DominantMode: "foldl (\<lambda>cur g. DominantMode cur (rq_mode g)) c gs = foldl max c (map rq_mode gs)"
  by (induction gs arbitrary: c) (simp_all add: DominantMode_max)

lemma GrantWaiters_eq:
  assumes "queue_ok q cl"
  defines "k \<equiv> grantable (map rq_mode (granted q)) (waiting q)"
  shows "GrantWaiters q cl =
    Some (q\<lparr>granted := granted q @ map grant (take k (waiting q)), waiting := drop k (waiting q)\<rparr>,
          close_all (map rq_ch (take k (waiting q))) cl)"
proof -
  have "sorted_wrt mode_compat (map rq_mode (granted q))"
    using assms by (simp add: queue_ok_def sorted_wrt_map)
  from grant_loop_correct [OF this refl] assms show ?thesis
    by (simp add: GrantWaiters_def foldl_DominantMode queue_ok_def k_def)
qed

lemma grantable_compat:
  "sorted_wrt mode_compat ms \<Longrightarrow> sorted_wrt mode_compat (ms @ map rq_mode (take (grantable ms ws) ws))"
proof (induction ms ws rule: grantable.induct)
  case (2 ms w ws)
  then show ?case by (auto simp: sorted_wrt_append compat_sym)
qed simp

lemma grantable_maximal:
  "grantable ms ws < length ws \<Longrightarrow>
     \<exists>m \<in> set (ms @ map rq_mode (take (grantable ms ws) ws)). \<not> mode_compat (rq_mode (ws ! grantable ms ws)) m"
  by (induction ms ws rule: grantable.induct) auto

lemma map_grant [simp]: "map rq_txn (map grant ws) = map rq_txn ws" "map rq_mode (map grant ws) = map rq_mode ws"
  by simp_all

lemma queue_ok_GrantWaiters:
  assumes ok: "queue_ok q cl" and run: "GrantWaiters q cl = Some (q', cl')"
  shows "queue_ok q' cl'"
proof -
  define k where "k = grantable (map rq_mode (granted q)) (waiting q)"
  have q': "q' = q\<lparr>granted := granted q @ map grant (take k (waiting q)), waiting := drop k (waiting q)\<rparr>"
    and cl': "cl' = close_all (map rq_ch (take k (waiting q))) cl"
    using run GrantWaiters_eq [OF ok] by (simp_all add: k_def)
  have split: "map f (waiting q) = map f (take k (waiting q)) @ map f (drop k (waiting q))" for f :: "request \<Rightarrow> 'a"
    by (metis append_take_drop_id map_append)
  have "distinct (map rq_txn (granted q' @ waiting q'))"
    using ok split [of rq_txn] by (simp add: queue_ok_def q' comp_def)
  moreover have "sorted_wrt mode_compat (map rq_mode (granted q) @ map rq_mode (take k (waiting q)))"
    using ok unfolding k_def by (intro grantable_compat) (simp add: queue_ok_def sorted_wrt_map)
  then have "sorted_wrt (\<lambda>a b. mode_compat (rq_mode a) (rq_mode b)) (granted q')"
    by (simp add: q' sorted_wrt_append sorted_wrt_map)
  moreover have "distinct (map rq_ch (waiting q'))" and "\<forall>w \<in> set (waiting q'). \<not> cl' (rq_ch w)"
    using ok split [of rq_ch] by (auto simp: queue_ok_def q' cl' close_all_def dest: in_set_dropD)
  ultimately show ?thesis by (simp add: queue_ok_def)
qed

lemma remove_first_filter:
  "distinct (map rq_txn ws) \<Longrightarrow> snd (remove_first t ws) = filter (\<lambda>w. rq_txn w \<noteq> t) ws"
proof (induction ws)
  case (Cons w ws)
  then show ?case by (auto intro!: filter_True [symmetric] simp: image_iff)
qed simp

lemma set_conflict_loop:
  "set (conflict_loop m t result gs) =
     set result \<union> {rq_txn g | g. g \<in> set gs \<and> rq_txn g \<noteq> t \<and> \<not> mode_compat m (rq_mode g)}"
  by (induction m t result gs rule: conflict_loop.induct) auto

lemma set_ConflictingTxns:
  "set (ConflictingTxns q m t) = {rq_txn g | g. g \<in> set (granted q) \<and> rq_txn g \<noteq> t \<and> \<not> mode_compat m (rq_mode g)}"
  by (simp add: ConflictingTxns_def set_conflict_loop)

lemma CanGrant_iff_no_conflict: "CanGrant q m t \<longleftrightarrow> ConflictingTxns q m t = []"
proof -
  have "CanGrant q m t \<longleftrightarrow> set (ConflictingTxns q m t) = {}"
    by (auto simp: CanGrant_def list_all_iff set_ConflictingTxns)
  then show ?thesis by simp
qed

text \<open>The transactions with an entry in the queue.\<close>

definition queue_txns :: "lock_queue \<Rightarrow> txn_id set" where
  "queue_txns q = rq_txn ` set (granted q @ waiting q)"

lemma queue_ok_NewQueue [simp]: "queue_ok (NewQueue r) cl"
  by (simp add: queue_ok_def NewQueue_def)

lemma queue_ok_RemoveGranted: "queue_ok q cl \<Longrightarrow> queue_ok (snd (RemoveGranted q t)) cl"
  by (auto simp: queue_ok_def RemoveGranted_def distinct_map_filter sorted_wrt_filter)

lemma waiting_RemoveWaiting:
  "queue_ok q cl \<Longrightarrow> snd (RemoveWaiting q t) = q\<lparr>waiting := filter (\<lambda>w. rq_txn w \<noteq> t) (waiting q)\<rparr>"
  by (simp add: RemoveWaiting_def queue_ok_def case_prod_unfold remove_first_filter)

lemma queue_ok_RemoveWaiting: "queue_ok q cl \<Longrightarrow> queue_ok (snd (RemoveWaiting q t)) cl"
  by (simp add: waiting_RemoveWaiting) (auto simp: queue_ok_def distinct_map_filter)

lemma queue_ok_AddGranted:
  "queue_ok q cl \<Longrightarrow> CanGrant q m t \<Longrightarrow> t \<notin> queue_txns q \<Longrightarrow> queue_ok (AddGranted q (NewRequest t m ch)) cl"
  by (auto simp: queue_ok_def AddGranted_def NewRequest_def CanGrant_def list_all_iff queue_txns_def
      sorted_wrt_append compat_sym image_iff)

lemma queue_ok_AddWaiting:
  "queue_ok q cl \<Longrightarrow> t \<notin> queue_txns q \<Longrightarrow> \<not> cl ch \<Longrightarrow> ch \<notin> rq_ch ` set (waiting q) \<Longrightarrow>
     queue_ok (AddWaiting q (NewRequest t m ch)) cl"
  by (auto simp: queue_ok_def AddWaiting_def NewRequest_def queue_txns_def)

lemmas queue_ok_intros =
  queue_ok_RemoveGranted queue_ok_RemoveWaiting queue_ok_AddGranted queue_ok_AddWaiting

section \<open>Properties of the queue\<close>

text \<open>
  C15. \<^verbatim>\<open>GrantWaiters\<close> is right and cannot panic: on a queue that satisfies the invariant it
  grants, in FIFO order, exactly the longest prefix of the waiters that are pairwise compatible
  with all granted requests, closes exactly their channels and keeps the invariant; so its test
  against the one strongest granted mode is as good as the test against every granted mode, and
  the first waiter left behind conflicts with a granted request.
\<close>

theorem GrantWaiters_correct:
  assumes "queue_ok q cl"
  shows "\<exists>q' cl' k. GrantWaiters q cl = Some (q', cl') \<and> queue_ok q' cl' \<and>
     k = grantable (map rq_mode (granted q)) (waiting q) \<and>
     granted q' = granted q @ map grant (take k (waiting q)) \<and> waiting q' = drop k (waiting q) \<and>
     cl' = close_all (map rq_ch (take k (waiting q))) cl \<and>
     (waiting q' \<noteq> [] \<longrightarrow> (\<exists>g \<in> set (granted q'). \<not> mode_compat (rq_mode (hd (waiting q'))) (rq_mode g)))"
proof -
  define k where "k = grantable (map rq_mode (granted q)) (waiting q)"
  define q' where "q' = q\<lparr>granted := granted q @ map grant (take k (waiting q)), waiting := drop k (waiting q)\<rparr>"
  define cl' where "cl' = close_all (map rq_ch (take k (waiting q))) cl"
  have run: "GrantWaiters q cl = Some (q', cl')"
    using GrantWaiters_eq [OF assms] by (simp add: k_def q'_def cl'_def)
  have "\<exists>g \<in> set (granted q'). \<not> mode_compat (rq_mode (hd (waiting q'))) (rq_mode g)" if "waiting q' \<noteq> []"
    using grantable_maximal [of "map rq_mode (granted q)" "waiting q"] that
    by (auto simp: q'_def k_def hd_drop_conv_nth bex_Un)
  with run queue_ok_GrantWaiters [OF assms run] show ?thesis
    by (intro exI [of _ q'] exI [of _ cl'] exI [of _ k]) (auto simp: q'_def k_def cl'_def)
qed

definition sample_queue :: lock_queue where
  "sample_queue = \<lparr>q_res = ResourceForTable ''t'', granted = [grant (NewRequest 1 LockIS 0)],
     waiting = [NewRequest 2 LockIX 1, NewRequest 3 LockX 2]\<rparr>"

theorem GrantWaiters_correct_witness:
  "\<exists>q' cl'. GrantWaiters sample_queue (\<lambda>_. False) = Some (q', cl') \<and>
     map rq_txn (granted q') = [1, 2] \<and> map rq_txn (waiting q') = [3]"
proof -
  have "queue_ok sample_queue (\<lambda>_. False)"
    by (simp add: queue_ok_def sample_queue_def NewRequest_def grant_def)
  from GrantWaiters_correct [OF this] show ?thesis
    by (auto simp: sample_queue_def NewRequest_def grant_def)
qed

text \<open>
  C32. The lock table never confuses two resources: on the resources the constructors build
  for table names without a colon (and lower gap bounds without a comma) the string used as
  the key of the lock table determines the resource.
\<close>

theorem resource_key_injective:
  "inj_on resource_string {r. wf_resource r}"
  by (auto simp: inj_on_def intro: resource_string_inj)

text \<open>Without the restriction on table names keys collide: two different rows share a queue.\<close>

lemma resource_key_collision:
  "resource_string (ResourceForRow ''a:b'' ''c'') = resource_string (ResourceForRow ''a'' ''b:c'')
   \<and> ResourceForRow ''a:b'' ''c'' \<noteq> ResourceForRow ''a'' ''b:c''"
  by (simp add: ResourceForRow_def resource_string_def)

text \<open>And so do keys of gaps when a lower bound has a comma.\<close>

lemma gap_key_collision:
  "resource_string (ResourceForGap ''t'' ''a,b'' ''c'') = resource_string (ResourceForGap ''t'' ''a'' ''b,c'')
   \<and> ResourceForGap ''t'' ''a,b'' ''c'' \<noteq> ResourceForGap ''t'' ''a'' ''b,c''"
  by (simp add: ResourceForGap_def resource_string_def)

end
