(* ===== verification/Lock_Table.thy ===== *)
theory Lock_Table
  imports Lock_Queue Deadlock Values
begin

text \<open>
  The upper half of the package \<^verbatim>\<open>internal/lock\<close>: the set of locks a transaction holds
  (held_set.go), the lock table (table.go) and the acquirer (grant.go).

  The state holds the queue objects by address, the \<^verbatim>\<open>sync.Map\<close> from resource names to queue
  addresses, the closed grant channels, the wait-for graph and the held set of every
  transaction. A blocking \<^verbatim>\<open>AcquireLockCtx\<close> call is split at its \<^verbatim>\<open>select\<close>: \<open>AcquireLock_enter\<close>
  runs up to it, and \<open>wait_finish\<close> runs the branch taken. The inductive relation \<open>lock_step\<close>
  interleaves the steps of any number of transactions: the lookup of a queue, the section of a
  request under the mutex of its queue, the branches of the \<^verbatim>\<open>select\<close>, and the releases, one lock
  at a time.

  One kind of interleaving is not covered. The section of a request runs on the queue that the
  table has at that moment, and a release removes an empty queue from the table in the same step
  as its section. In the code another transaction can remove the queue between the lookup and the
  section of a request, or enter it between the two halves of a release. Then the request is
  granted in a queue that the table no longer has, and mutual exclusion is lost:
  \<open>orphaned_queue_two_exclusive_locks\<close> in \<open>Lock_Schedules\<close> is such a run.
\<close>

section \<open>Held locks\<close>

type_synonym held_set = "(ResourceID, Mode) gomap"

definition NewHeldSet :: held_set where
  "NewHeldSet = []"

definition HeldSet_Get :: "held_set \<Rightarrow> ResourceID \<Rightarrow> Mode option" where
  "HeldSet_Get s r = go_get s r"

definition HeldSet_Set :: "held_set \<Rightarrow> ResourceID \<Rightarrow> Mode \<Rightarrow> held_set" where
  "HeldSet_Set s r m = go_put r m s"

definition HeldSet_Delete :: "held_set \<Rightarrow> ResourceID \<Rightarrow> held_set" where
  "HeldSet_Delete s r = go_del r s"

definition HeldSet_Keys :: "held_set \<Rightarrow> ResourceID list" where
  "HeldSet_Keys s = go_keys s"

definition HeldSet_Len :: "held_set \<Rightarrow> nat" where
  "HeldSet_Len s = length s"

section \<open>The lock table and the acquirer's state\<close>

record lock_sys =
  qheap :: "nat \<Rightarrow> lock_queue"
  next_q :: nat
  qtable :: "(gostring, nat) gomap"
  ch_closed :: chans
  next_ch :: nat
  wfg :: graph
  helds :: "txn_id \<Rightarrow> held_set"

definition NewAcquirer :: lock_sys where
  "NewAcquirer = \<lparr>qheap = (\<lambda>_. NewQueue (ResourceForTable [])), next_q = 0, qtable = [],
     ch_closed = (\<lambda>_. False), next_ch = 0, wfg = NewWaitForGraph, helds = (\<lambda>_. NewHeldSet)\<rparr>"

definition Table_Get :: "lock_sys \<Rightarrow> ResourceID \<Rightarrow> nat option" where
  "Table_Get st r = go_get (qtable st) (resource_string r)"

definition GetOrCreate :: "lock_sys \<Rightarrow> ResourceID \<Rightarrow> nat \<times> lock_sys" where
  "GetOrCreate st r =
     (case Table_Get st r of
        Some qa \<Rightarrow> (qa, st)
      | None \<Rightarrow>
          (next_q st,
           st\<lparr>qheap := (qheap st)(next_q st := NewQueue r),
              next_q := Suc (next_q st),
              qtable := go_put (resource_string r) (next_q st) (qtable st)\<rparr>))"

definition Table_Delete :: "lock_sys \<Rightarrow> ResourceID \<Rightarrow> lock_sys" where
  "Table_Delete st r = st\<lparr>qtable := go_del (resource_string r) (qtable st)\<rparr>"

definition Table_Snapshot ::
  "lock_sys \<Rightarrow> (ResourceID \<times> request_snapshot list \<times> request_snapshot list) list" where
  "Table_Snapshot st =
     filter (\<lambda>(r, g, w). g \<noteq> [] \<or> w \<noteq> []) (map (\<lambda>(k, qa). Queue_Snapshot (qheap st qa)) (qtable st))"

section \<open>Acquiring a lock\<close>

datatype acquire_outcome = AcqOk | AcqWait nat

text \<open>The section of \<^verbatim>\<open>AcquireLockCtx\<close> under the queue's mutex, up to the \<^verbatim>\<open>select\<close>.
  \<open>AcqWait ch\<close> means that the caller now waits on the new channel \<open>ch\<close>.\<close>

definition acquire_section ::
  "nat \<Rightarrow> txn_id \<Rightarrow> ResourceID \<Rightarrow> Mode \<Rightarrow> lock_sys \<Rightarrow> acquire_outcome \<times> lock_sys" where
  "acquire_section qa t r m st =
     (let q = qheap st qa; h = helds st t; ch = next_ch st; req = NewRequest t m ch
      in if (case HeldSet_Get h r of Some e \<Rightarrow> strength m \<le> strength e | None \<Rightarrow> False)
         then (AcqOk, st)
         else
           let (q1, h1) = (case HeldSet_Get h r of
                             Some e \<Rightarrow> if strength e < strength m
                                       then (snd (RemoveGranted q t), HeldSet_Delete h r) else (q, h)
                           | None \<Rightarrow> (q, h))
           in if CanGrant q1 m t
              then (AcqOk,
                    st\<lparr>qheap := (qheap st)(qa := AddGranted q1 req),
                       next_ch := Suc ch,
                       helds := (helds st)(t := HeldSet_Set h1 r m)\<rparr>)
              else
                let conflictors = ConflictingTxns q1 m t;
                    q2 = (case HeldSet_Get h1 r of
                            Some e \<Rightarrow> if strength e < strength m
                                      then AddWaitingFront q1 req else AddWaiting q1 req
                          | None \<Rightarrow> AddWaiting q1 req)
                in (AcqWait ch,
                    st\<lparr>qheap := (qheap st)(qa := q2),
                       next_ch := Suc ch,
                       wfg := fold (\<lambda>c g. AddEdge g t c) conflictors (wfg st),
                       helds := (helds st)(t := h1)\<rparr>))"

definition AcquireLock_enter ::
  "txn_id \<Rightarrow> ResourceID \<Rightarrow> Mode \<Rightarrow> lock_sys \<Rightarrow> nat \<times> acquire_outcome \<times> lock_sys" where
  "AcquireLock_enter t r m st =
     (let (qa, st1) = GetOrCreate st r in (qa, acquire_section qa t r m st1))"

text \<open>The four branches of the \<^verbatim>\<open>select\<close>.\<close>

datatype wakeup = WakeGranted | WakeAborted | WakeCtxDone | WakeTimeout

definition wait_granted :: "txn_id \<Rightarrow> ResourceID \<Rightarrow> Mode \<Rightarrow> lock_sys \<Rightarrow> lock_sys" where
  "wait_granted t r m st =
     st\<lparr>wfg := RemoveEdges (wfg st) t, helds := (helds st)(t := HeldSet_Set (helds st t) r m)\<rparr>"

definition wait_cancel :: "nat \<Rightarrow> txn_id \<Rightarrow> lock_sys \<Rightarrow> lock_sys option" where
  "wait_cancel qa t st =
     (let q1 = snd (RemoveWaiting (qheap st qa) t); q2 = snd (RemoveGranted q1 t)
      in map_option
           (\<lambda>(q', cl). st\<lparr>qheap := (qheap st)(qa := q'), ch_closed := cl, wfg := RemoveEdges (wfg st) t\<rparr>)
           (GrantWaiters q2 (ch_closed st)))"

definition wait_finish ::
  "wakeup \<Rightarrow> nat \<Rightarrow> txn_id \<Rightarrow> ResourceID \<Rightarrow> Mode \<Rightarrow> lock_sys \<Rightarrow> (TxnError option \<times> lock_sys) option" where
  "wait_finish wk qa t r m st =
     (case wk of
        WakeGranted \<Rightarrow> Some (None, wait_granted t r m st)
      | WakeAborted \<Rightarrow> map_option (Pair (Some (txn_error ErrTxnAborted))) (wait_cancel qa t st)
      | WakeCtxDone \<Rightarrow> map_option (Pair (Some (txn_error ErrTxnAborted))) (wait_cancel qa t st)
      | WakeTimeout \<Rightarrow> map_option (Pair (Some (txn_error ErrLockTimeout))) (wait_cancel qa t st))"

section \<open>Releasing locks\<close>

definition set_held :: "lock_sys \<Rightarrow> txn_id \<Rightarrow> held_set \<Rightarrow> lock_sys" where
  "set_held st t h = st\<lparr>helds := (helds st)(t := h)\<rparr>"

text \<open>\<^verbatim>\<open>RemoveGranted\<close> and \<^verbatim>\<open>GrantWaiters\<close> under the mutex of the queue at \<open>qa\<close>.\<close>

definition release_section :: "nat \<Rightarrow> txn_id \<Rightarrow> lock_sys \<Rightarrow> lock_sys option" where
  "release_section qa t st =
     map_option (\<lambda>(q', cl). st\<lparr>qheap := (qheap st)(qa := q'), ch_closed := cl\<rparr>)
       (GrantWaiters (snd (RemoveGranted (qheap st qa) t)) (ch_closed st))"

definition ReleaseLock :: "txn_id \<Rightarrow> ResourceID \<Rightarrow> lock_sys \<Rightarrow> lock_sys option" where
  "ReleaseLock t r st =
     (case Table_Get st r of
        None \<Rightarrow> Some st
      | Some qa \<Rightarrow>
          map_option (\<lambda>st'. set_held st' t (HeldSet_Delete (helds st' t) r)) (release_section qa t st))"

text \<open>The end of the loop body of \<^verbatim>\<open>ReleaseAllLocks\<close>, after the queue is unlocked.\<close>

definition release_finish :: "bool \<Rightarrow> txn_id \<Rightarrow> ResourceID \<Rightarrow> lock_sys \<Rightarrow> lock_sys" where
  "release_finish is_empty t r st =
     (let st1 = (if is_empty then Table_Delete st r else st)
      in set_held st1 t (HeldSet_Delete (helds st1 t) r))"

definition queue_empty :: "lock_queue \<Rightarrow> bool" where
  "queue_empty q = (granted q = [] \<and> waiting q = [])"

definition release_one :: "txn_id \<Rightarrow> ResourceID \<Rightarrow> lock_sys \<Rightarrow> lock_sys option" where
  "release_one t r st =
     (case Table_Get st r of
        None \<Rightarrow> Some (set_held st t (HeldSet_Delete (helds st t) r))
      | Some qa \<Rightarrow>
          map_option (\<lambda>st'. release_finish (queue_empty (qheap st' qa)) t r st') (release_section qa t st))"

fun release_loop :: "txn_id \<Rightarrow> ResourceID list \<Rightarrow> lock_sys \<Rightarrow> lock_sys option" where
  "release_loop t [] st = Some st"
| "release_loop t (r # rs) st =
     (case release_one t r st of None \<Rightarrow> None | Some st' \<Rightarrow> release_loop t rs st')"

definition ReleaseAllLocks :: "txn_id \<Rightarrow> lock_sys \<Rightarrow> lock_sys option" where
  "ReleaseAllLocks t st =
     map_option (\<lambda>st'. st'\<lparr>wfg := RemoveEdges (wfg st') t\<rparr>)
       (release_loop t (HeldSet_Keys (helds st t)) st)"

section \<open>Interleavings\<close>

text \<open>What a goroutine blocked in \<^verbatim>\<open>AcquireLockCtx\<close> remembers: its arguments, the queue and
  the channel of its request.\<close>

record wait_info =
  w_res :: ResourceID
  w_mode :: Mode
  w_queue :: nat
  w_ch :: nat

type_synonym pends = "txn_id \<rightharpoonup> wait_info"

inductive lock_step :: "lock_sys \<times> pends \<Rightarrow> lock_sys \<times> pends \<Rightarrow> bool" where
  acquired: "pend t = None \<Longrightarrow> wf_resource r \<Longrightarrow> AcquireLock_enter t r m st = (qa, AcqOk, st') \<Longrightarrow>
    lock_step (st, pend) (st', pend)"
| blocked: "pend t = None \<Longrightarrow> wf_resource r \<Longrightarrow> AcquireLock_enter t r m st = (qa, AcqWait ch, st') \<Longrightarrow>
    lock_step (st, pend) (st', pend(t \<mapsto> \<lparr>w_res = r, w_mode = m, w_queue = qa, w_ch = ch\<rparr>))"
| woken: "pend t = Some w \<Longrightarrow> wk = WakeGranted \<longrightarrow> ch_closed st (w_ch w) \<Longrightarrow>
    wait_finish wk (w_queue w) t (w_res w) (w_mode w) st = Some (err, st') \<Longrightarrow>
    lock_step (st, pend) (st', pend(t := None))"
| released: "pend t = None \<Longrightarrow> wf_resource r \<Longrightarrow> ReleaseLock t r st = Some st' \<Longrightarrow>
    lock_step (st, pend) (st', pend)"
| released_all: "ReleaseAllLocks t st = Some st' \<Longrightarrow> lock_step (st, pend) (st', pend)"
| looked_up: "wf_resource r \<Longrightarrow> GetOrCreate st r = (qa, st') \<Longrightarrow> lock_step (st, pend) (st', pend)"
| released_one: "r \<in> set (HeldSet_Keys (helds st t)) \<Longrightarrow> release_one t r st = Some st' \<Longrightarrow>
    lock_step (st, pend) (st', pend)"
| edges_removed: "lock_step (st, pend) (st\<lparr>wfg := RemoveEdges (wfg st) t\<rparr>, pend)"

inductive_cases lock_stepE [elim]: "lock_step (st, pend) s'"

abbreviation lock_reachable :: "lock_sys \<Rightarrow> pends \<Rightarrow> bool" where
  "lock_reachable st pend \<equiv> lock_step\<^sup>*\<^sup>* (NewAcquirer, Map.empty) (st, pend)"

section \<open>The invariant\<close>

abbreviation held :: "lock_sys \<Rightarrow> txn_id \<Rightarrow> ResourceID \<Rightarrow> Mode option" where
  "held st t r \<equiv> go_get (helds st t) r"

text \<open>The record a blocked goroutine keeps for a request \<open>x\<close> in the queue at \<open>qa\<close>.\<close>

definition waits_for :: "lock_sys \<Rightarrow> nat \<Rightarrow> request \<Rightarrow> wait_info" where
  "waits_for st qa x = \<lparr>w_res = q_res (qheap st qa), w_mode = rq_mode x, w_queue = qa, w_ch = rq_ch x\<rparr>"

definition is_request :: "txn_id \<Rightarrow> wait_info \<Rightarrow> request \<Rightarrow> bool" where
  "is_request t w x \<longleftrightarrow> rq_txn x = t \<and> rq_mode x = w_mode w \<and> rq_ch x = w_ch w"

text \<open>Every queue in the table is filed under the name of its resource and satisfies the
  queue invariant.\<close>

definition table_ok :: "lock_sys \<Rightarrow> bool" where
  "table_ok st \<longleftrightarrow> (\<forall>k qa. go_get (qtable st) k = Some qa \<longrightarrow>
     qa < next_q st \<and> wf_resource (q_res (qheap st qa)) \<and> k = resource_string (q_res (qheap st qa)) \<and>
     queue_ok (qheap st qa) (ch_closed st))"

text \<open>Every request in a queue belongs to a blocked goroutine or, when granted, to a held lock.\<close>

definition requests_ok :: "lock_sys \<Rightarrow> pends \<Rightarrow> bool" where
  "requests_ok st pend \<longleftrightarrow> (\<forall>k qa. go_get (qtable st) k = Some qa \<longrightarrow>
     (\<forall>x \<in> set (waiting (qheap st qa)). pend (rq_txn x) = Some (waits_for st qa x)) \<and>
     (\<forall>x \<in> set (granted (qheap st qa)).
        held st (rq_txn x) (q_res (qheap st qa)) = Some (rq_mode x) \<or>
        pend (rq_txn x) = Some (waits_for st qa x)))"

text \<open>Every held lock is granted in its queue.\<close>

definition helds_ok :: "lock_sys \<Rightarrow> bool" where
  "helds_ok st \<longleftrightarrow> (\<forall>t. distinct (go_keys (helds st t)) \<and> (\<forall>r m. held st t r = Some m \<longrightarrow>
     wf_resource r \<and> (\<exists>qa. Table_Get st r = Some qa \<and>
       (\<exists>g \<in> set (granted (qheap st qa)). rq_txn g = t \<and> rq_mode g = m))))"

text \<open>Every blocked goroutine has its request in the queue: among the granted ones when its
  channel is closed, among the waiting ones otherwise. Channels are not shared.\<close>

definition pend_ok :: "lock_sys \<Rightarrow> txn_id \<Rightarrow> wait_info \<Rightarrow> bool" where
  "pend_ok st t w \<longleftrightarrow>
     wf_resource (w_res w) \<and> Table_Get st (w_res w) = Some (w_queue w) \<and>
     held st t (w_res w) = None \<and> w_ch w < next_ch st \<and>
     (\<exists>x. is_request t w x \<and>
        (if ch_closed st (w_ch w) then x \<in> set (granted (qheap st (w_queue w)))
         else x \<in> set (waiting (qheap st (w_queue w)))))"

definition pends_ok :: "lock_sys \<Rightarrow> pends \<Rightarrow> bool" where
  "pends_ok st pend \<longleftrightarrow>
     (\<forall>t w. pend t = Some w \<longrightarrow> pend_ok st t w) \<and>
     (\<forall>t t' w w'. pend t = Some w \<longrightarrow> pend t' = Some w' \<longrightarrow> w_ch w = w_ch w' \<longrightarrow> t = t') \<and>
     (\<forall>ch \<ge> next_ch st. \<not> ch_closed st ch)"

definition lock_inv :: "lock_sys \<Rightarrow> pends \<Rightarrow> bool" where
  "lock_inv st pend \<longleftrightarrow> table_ok st \<and> requests_ok st pend \<and> helds_ok st \<and> pends_ok st pend"

lemmas lock_inv_defs = lock_inv_def table_ok_def requests_ok_def helds_ok_def pends_ok_def

lemma lock_inv_initial: "lock_inv NewAcquirer Map.empty"
  by (simp add: lock_inv_defs NewAcquirer_def NewHeldSet_def Table_Get_def)

text \<open>The invariant in rule form.\<close>

lemma lock_invI:
  assumes "\<And>k qa. go_get (qtable st) k = Some qa \<Longrightarrow>
      qa < next_q st \<and> wf_resource (q_res (qheap st qa)) \<and> k = resource_string (q_res (qheap st qa))"
    and "\<And>k qa. go_get (qtable st) k = Some qa \<Longrightarrow> queue_ok (qheap st qa) (ch_closed st)"
    and "\<And>k qa x. go_get (qtable st) k = Some qa \<Longrightarrow> x \<in> set (waiting (qheap st qa)) \<Longrightarrow>
      pend (rq_txn x) = Some (waits_for st qa x)"
    and "\<And>k qa x. go_get (qtable st) k = Some qa \<Longrightarrow> x \<in> set (granted (qheap st qa)) \<Longrightarrow>
      held st (rq_txn x) (q_res (qheap st qa)) = Some (rq_mode x) \<or> pend (rq_txn x) = Some (waits_for st qa x)"
    and "\<And>t. distinct (go_keys (helds st t))"
    and "\<And>t r m. held st t r = Some m \<Longrightarrow> wf_resource r \<and> (\<exists>qa. Table_Get st r = Some qa \<and>
      (\<exists>g \<in> set (granted (qheap st qa)). rq_txn g = t \<and> rq_mode g = m))"
    and "\<And>t w. pend t = Some w \<Longrightarrow> pend_ok st t w"
    and "\<And>t t' w w'. pend t = Some w \<Longrightarrow> pend t' = Some w' \<Longrightarrow> w_ch w = w_ch w' \<Longrightarrow> t = t'"
    and "\<And>ch. next_ch st \<le> ch \<Longrightarrow> \<not> ch_closed st ch"
  shows "lock_inv st pend"
  unfolding lock_inv_defs using assms by blast

lemma lock_invD:
  assumes "lock_inv st pend"
  shows inv_table: "go_get (qtable st) k = Some qa \<Longrightarrow>
      qa < next_q st \<and> wf_resource (q_res (qheap st qa)) \<and> k = resource_string (q_res (qheap st qa))"
    and inv_queue: "go_get (qtable st) k = Some qa \<Longrightarrow> queue_ok (qheap st qa) (ch_closed st)"
    and inv_waiting: "go_get (qtable st) k = Some qa \<Longrightarrow> x \<in> set (waiting (qheap st qa)) \<Longrightarrow>
      pend (rq_txn x) = Some (waits_for st qa x)"
    and inv_granted: "go_get (qtable st) k = Some qa \<Longrightarrow> x \<in> set (granted (qheap st qa)) \<Longrightarrow>
      held st (rq_txn x) (q_res (qheap st qa)) = Some (rq_mode x) \<or> pend (rq_txn x) = Some (waits_for st qa x)"
    and inv_keys: "distinct (go_keys (helds st t))"
    and inv_held: "held st t r = Some m \<Longrightarrow> wf_resource r \<and> (\<exists>qa. Table_Get st r = Some qa \<and>
      (\<exists>g \<in> set (granted (qheap st qa)). rq_txn g = t \<and> rq_mode g = m))"
    and inv_pend: "pend t = Some w \<Longrightarrow> pend_ok st t w"
    and inv_ch: "pend t = Some w \<Longrightarrow> pend t' = Some w' \<Longrightarrow> w_ch w = w_ch w' \<Longrightarrow> t = t'"
    and inv_fresh: "next_ch st \<le> ch \<Longrightarrow> \<not> ch_closed st ch"
  using assms unfolding lock_inv_defs by blast+

lemma inv_res:
  assumes "lock_inv st pend" and "Table_Get st r = Some qa" and "wf_resource r"
  shows "q_res (qheap st qa) = r"
proof -
  have "wf_resource (q_res (qheap st qa))" and "resource_string r = resource_string (q_res (qheap st qa))"
    using inv_table [OF assms(1)] assms(2) by (auto simp: Table_Get_def)
  then show ?thesis using assms(3) resource_string_inj by metis
qed

lemma inv_one_key:
  assumes "lock_inv st pend" and "go_get (qtable st) k = Some qa" and "go_get (qtable st) k' = Some qa"
  shows "k = k'"
  using inv_table [OF assms(1) assms(2)] inv_table [OF assms(1) assms(3)] by simp

lemma waits_for_simps [simp]:
  "w_res (waits_for st qa x) = q_res (qheap st qa)" "w_mode (waits_for st qa x) = rq_mode x"
  "w_queue (waits_for st qa x) = qa" "w_ch (waits_for st qa x) = rq_ch x"
  by (simp_all add: waits_for_def)

text \<open>A transaction that is not blocked and does not hold the resource has no request in its
  queue.\<close>

lemma not_in_queue:
  assumes "lock_inv st pend" and "Table_Get st r = Some qa" and "wf_resource r"
    and "pend t = None" and "held st t r = None"
  shows "t \<notin> queue_txns (qheap st qa)"
  using inv_waiting [OF assms(1)] inv_granted [OF assms(1)] inv_res [OF assms(1-3)] assms
  by (force simp: queue_txns_def Table_Get_def)

section \<open>The sections keep the invariant\<close>

definition put_queue :: "nat \<Rightarrow> lock_queue \<Rightarrow> lock_sys \<Rightarrow> lock_sys" where
  "put_queue qa q st = st\<lparr>qheap := (qheap st)(qa := q)\<rparr>"

lemma put_queue_simps [simp]:
  "qheap (put_queue qa q st) = (qheap st)(qa := q)" "next_q (put_queue qa q st) = next_q st"
  "qtable (put_queue qa q st) = qtable st" "ch_closed (put_queue qa q st) = ch_closed st"
  "next_ch (put_queue qa q st) = next_ch st" "wfg (put_queue qa q st) = wfg st"
  "helds (put_queue qa q st) = helds st" "Table_Get (put_queue qa q st) r = Table_Get st r"
  by (simp_all add: put_queue_def Table_Get_def)

lemma set_held_simps [simp]:
  "qheap (set_held st t h) = qheap st" "next_q (set_held st t h) = next_q st"
  "qtable (set_held st t h) = qtable st" "ch_closed (set_held st t h) = ch_closed st"
  "next_ch (set_held st t h) = next_ch st" "wfg (set_held st t h) = wfg st"
  "helds (set_held st t h) = (helds st)(t := h)" "Table_Get (set_held st t h) r = Table_Get st r"
  by (simp_all add: set_held_def Table_Get_def)

lemma is_request_waits_for [simp]: "is_request (rq_txn x) (waits_for st qa x) x"
  by (simp add: is_request_def)

lemma inv_waiting_ch:
  assumes "lock_inv st pend" and "go_get (qtable st) k = Some qa" and "x \<in> set (waiting (qheap st qa))"
    and "pend t = Some w" and "rq_ch x = w_ch w"
  shows "t = rq_txn x \<and> w = waits_for st qa x"
proof -
  have x: "pend (rq_txn x) = Some (waits_for st qa x)"
    using inv_waiting assms(1-3) by blast
  then have "rq_txn x = t"
    using inv_ch [OF assms(1) x assms(4)] assms(5) by simp
  with x assms(4) show ?thesis by auto
qed

lemma pend_ok_grant:
  assumes inv: "lock_inv st pend" and tab: "go_get (qtable st) k = Some qa" and pend: "pend t = Some w"
    and q': "granted q' = granted (qheap st qa) @ map grant (take n (waiting (qheap st qa)))"
      "waiting q' = drop n (waiting (qheap st qa))"
    and cl': "cl' = close_all (map rq_ch (take n (waiting (qheap st qa)))) (ch_closed st)"
  shows "pend_ok (put_queue qa q' st\<lparr>ch_closed := cl'\<rparr>) t w"
proof -
  let ?ws = "waiting (qheap st qa)"
  from inv_pend [OF inv pend] have old: "pend_ok st t w" .
  then obtain x where x: "is_request t w x"
    and where_x: "if ch_closed st (w_ch w) then x \<in> set (granted (qheap st (w_queue w)))
         else x \<in> set (waiting (qheap st (w_queue w)))"
    by (auto simp: pend_ok_def)
  have here: "w_queue w = qa" if "y \<in> set (take n ?ws)" "rq_ch y = w_ch w" for y
    using inv_waiting_ch [OF inv tab _ pend, of y] in_set_takeD [OF that(1)] that(2) by auto
  let ?st = "put_queue qa q' st\<lparr>ch_closed := cl'\<rparr>"
  have "\<exists>x. is_request t w x \<and> (if ch_closed ?st (w_ch w) then x \<in> set (granted (qheap ?st (w_queue w)))
         else x \<in> set (waiting (qheap ?st (w_queue w))))"
  proof (cases "w_queue w = qa \<and> \<not> ch_closed st (w_ch w)")
    case False
    then have "cl' (w_ch w) = ch_closed st (w_ch w)"
      by (cases "w_queue w = qa") (auto simp: cl' close_all_def image_iff dest: here)
    with False x where_x q' show ?thesis by (intro exI [of _ x]) (auto split: if_splits)
  next
    case True
    with where_x have "x \<in> set ?ws" by simp
    then consider "x \<in> set (take n ?ws)" | "x \<in> set (drop n ?ws)"
      by (metis Un_iff append_take_drop_id set_append)
    then show ?thesis
    proof cases
      case 1
      then have "cl' (w_ch w)" using x by (force simp: cl' close_all_def is_request_def)
      moreover have "grant x \<in> set (granted q')" and "is_request t w (grant x)"
        using 1 x by (auto simp: q' is_request_def)
      ultimately show ?thesis using True by auto
    next
      case 2
      have "distinct (map rq_ch (take n ?ws @ drop n ?ws))"
        using inv_queue [OF inv tab] by (simp add: queue_ok_def)
      then have "rq_ch x \<notin> rq_ch ` set (take n ?ws)"
        using 2 by (simp only: map_append distinct_append) auto
      then have "\<not> cl' (w_ch w)"
        using True x by (auto simp: cl' close_all_def is_request_def)
      with True 2 x show ?thesis by (auto simp: q')
    qed
  qed
  moreover have "Table_Get ?st (w_res w) = Table_Get st (w_res w)" "helds ?st = helds st" "next_ch ?st = next_ch st"
    by (simp_all add: Table_Get_def)
  ultimately show ?thesis
    using old unfolding pend_ok_def by metis
qed

lemma inv_put_queue:
  assumes inv: "lock_inv st pend" and tab: "go_get (qtable st) k = Some qa"
    and res: "q_res q' = q_res (qheap st qa)"
    and same: "qheap st' = (qheap st)(qa := q')" "qtable st' = qtable st" "next_q st' = next_q st"
    and "queue_ok q' (ch_closed st')"
    and "\<And>k2 qa2 x. go_get (qtable st) k2 = Some qa2 \<Longrightarrow> qa2 \<noteq> qa \<Longrightarrow> x \<in> set (waiting (qheap st qa2)) \<Longrightarrow>
      \<not> ch_closed st' (rq_ch x)"
    and "\<And>x. x \<in> set (waiting q') \<Longrightarrow> pend' (rq_txn x) = Some (waits_for st qa x)"
    and "\<And>x. x \<in> set (granted q') \<Longrightarrow>
      held st' (rq_txn x) (q_res q') = Some (rq_mode x) \<or> pend' (rq_txn x) = Some (waits_for st qa x)"
    and pend_other: "\<And>t w. pend t = Some w \<Longrightarrow> w_queue w \<noteq> qa \<Longrightarrow> pend' t = Some w"
    and held_other: "\<And>t r. r \<noteq> q_res q' \<Longrightarrow> held st' t r = held st t r"
    and keys: "\<And>t. distinct (go_keys (helds st' t))"
    and held_here: "\<And>t m. held st' t (q_res q') = Some m \<Longrightarrow> \<exists>g \<in> set (granted q'). rq_txn g = t \<and> rq_mode g = m"
    and pends: "\<And>t w. pend' t = Some w \<Longrightarrow> pend_ok st' t w"
    and "\<And>t t' w w'. pend' t = Some w \<Longrightarrow> pend' t' = Some w' \<Longrightarrow> w_ch w = w_ch w' \<Longrightarrow> t = t'"
    and "\<And>ch. next_ch st' \<le> ch \<Longrightarrow> \<not> ch_closed st' ch"
  shows "lock_inv st' pend'"
proof -
  have res': "q_res (qheap st' qa2) = q_res (qheap st qa2)" for qa2
    using res by (simp add: same)
  then have wf: "waits_for st' qa2 x = waits_for st qa2 x" for qa2 x
    by (simp add: waits_for_def)
  have other: "q_res (qheap st qa2) \<noteq> q_res q'" if "go_get (qtable st) k2 = Some qa2" "qa2 \<noteq> qa" for k2 qa2
    using inv_table [OF inv that(1)] inv_table [OF inv tab] that tab res by (metis option.inject)
  show ?thesis
  proof (rule lock_invI, goal_cases)
    case (1 k2 qa2)
    then show ?case using inv_table [OF inv, of k2 qa2] by (simp add: res' same(2,3))
  next
    case (2 k2 qa2)
    then show ?case
      using assms(7) assms(8) [of k2 qa2] inv_queue [OF inv, of k2 qa2]
      by (cases "qa2 = qa") (simp_all add: same queue_ok_def)
  next
    case (3 k2 qa2 x)
    then show ?case
      using assms(9) [of x] pend_other [of "rq_txn x" "waits_for st qa2 x"] inv_waiting [OF inv, of k2 qa2 x]
      by (cases "qa2 = qa") (simp_all add: wf same)
  next
    case (4 k2 qa2 x)
    show ?case
    proof (cases "qa2 = qa")
      case True
      with 4 assms(10) [of x] show ?thesis by (simp add: wf same(1) res)
    next
      case False
      with 4 have tab2: "go_get (qtable st) k2 = Some qa2" and x: "x \<in> set (granted (qheap st qa2))"
        by (simp_all add: same)
      from inv_granted [OF inv tab2 x] show ?thesis
        using pend_other [of "rq_txn x" "waits_for st qa2 x"] held_other [OF other [OF tab2 False], of "rq_txn x"] False
        by (auto simp: wf res')
    qed
  next
    case (6 t r m)
    show ?case
    proof (cases "r = q_res q'")
      case True
      with held_here [of t m] 6 inv_table [OF inv tab] tab show ?thesis
        by (auto simp: res Table_Get_def same)
    next
      case False
      with 6 held_other have "held st t r = Some m" by simp
      from inv_held [OF inv this] obtain qa2 g where "wf_resource r" "Table_Get st r = Some qa2"
        "g \<in> set (granted (qheap st qa2))" "rq_txn g = t" "rq_mode g = m" by blast
      moreover then have "qa2 \<noteq> qa" using inv_res [OF inv] False res by auto
      ultimately show ?thesis by (auto simp: Table_Get_def same)
    qed
  qed (fact keys pends assms(16) assms(17))+
qed

lemma inv_grant:
  assumes inv: "lock_inv st pend" and tab: "go_get (qtable st) k = Some qa"
    and run: "GrantWaiters (qheap st qa) (ch_closed st) = Some (q', cl')"
  shows "lock_inv (put_queue qa q' st\<lparr>ch_closed := cl'\<rparr>) pend"
proof -
  define q where "q = qheap st qa"
  define n where "n = grantable (map rq_mode (granted q)) (waiting q)"
  have ok: "queue_ok q (ch_closed st)" using inv_queue [OF inv tab] by (simp add: q_def)
  have q': "q' = q\<lparr>granted := granted q @ map grant (take n (waiting q)), waiting := drop n (waiting q)\<rparr>"
    and cl': "cl' = close_all (map rq_ch (take n (waiting q))) (ch_closed st)"
    using GrantWaiters_eq [OF ok] run by (simp_all add: q_def n_def)
  have newly: "pend (rq_txn y) = Some (waits_for st qa y)" if "y \<in> set (take n (waiting q))" for y
    using inv_waiting [OF inv tab] in_set_takeD [OF that] by (simp add: q_def)
  show ?thesis
  proof (rule inv_put_queue [OF inv tab, where q' = q'], goal_cases)
    case (6 k2 qa2 x)
    have "\<not> ch_closed st (rq_ch x)"
      using inv_queue [OF inv 6(1)] 6(3) by (simp add: queue_ok_def)
    moreover have "rq_ch y \<noteq> rq_ch x" if "y \<in> set (take n (waiting q))" for y
      using inv_waiting_ch [OF inv tab _ inv_waiting [OF inv 6(1) 6(3)], of y] in_set_takeD [OF that] 6(2)
      by (auto simp: q_def waits_for_def)
    ultimately show ?case by (force simp: cl' close_all_def)
  next
    case (7 x)
    then show ?case using inv_waiting [OF inv tab] by (simp add: q' q_def in_set_dropD)
  next
    case (8 x)
    then show ?case using inv_granted [OF inv tab, of x] newly by (auto simp: q' q_def waits_for_def)
  next
    case (12 t m)
    then have "held st t (q_res (qheap st qa)) = Some m" by (simp add: q' q_def)
    then show ?case using inv_held [OF inv] inv_table [OF inv tab] tab by (fastforce simp: q' q_def Table_Get_def)
  next
    case (13 t w)
    then show ?case using pend_ok_grant [OF inv tab, of t w q' n cl'] by (simp add: q' cl' q_def)
  next
    case (15 ch)
    have "rq_ch y < next_ch st" if "y \<in> set (take n (waiting q))" for y
      using inv_pend [OF inv newly [OF that]] by (simp add: pend_ok_def)
    then show ?case using inv_fresh [OF inv, of ch] 15 by (fastforce simp: cl' close_all_def)
  qed (use queue_ok_GrantWaiters [OF ok run [folded q_def]] inv_keys [OF inv] inv_ch [OF inv] in \<open>auto simp: q' q_def\<close>)
qed

lemma pend_ok_cong:
  assumes "pend_ok st t w"
    and "qheap st' (w_queue w) = qheap st (w_queue w)" "Table_Get st' (w_res w) = Table_Get st (w_res w)"
    and "held st' t (w_res w) = held st t (w_res w)" "next_ch st \<le> next_ch st'"
    and "ch_closed st' (w_ch w) = ch_closed st (w_ch w)"
  shows "pend_ok st' t w"
  using assms by (auto simp: pend_ok_def)

lemma RemoveGranted_simps [simp]:
  "granted (snd (RemoveGranted q t)) = filter (\<lambda>g. rq_txn g \<noteq> t) (granted q)"
  "waiting (snd (RemoveGranted q t)) = waiting q" "q_res (snd (RemoveGranted q t)) = q_res q"
  by (simp_all add: RemoveGranted_def)

lemma HeldSet_simps [simp]:
  "go_get (HeldSet_Delete h r) r' = (if r' = r then None else go_get h r')"
  "go_get (HeldSet_Set h r m) r' = (if r' = r then Some m else go_get h r')"
  "distinct (go_keys h) \<Longrightarrow> distinct (go_keys (HeldSet_Delete h r))"
  "distinct (go_keys h) \<Longrightarrow> distinct (go_keys (HeldSet_Set h r m))"
  by (simp_all add: HeldSet_Delete_def HeldSet_Set_def gomap_simps distinct_go_del distinct_go_put)

lemma inv_drop_grant:
  assumes inv: "lock_inv st pend" and get: "Table_Get st r = Some qa" and wf: "wf_resource r"
    and pend: "\<And>w. pend t = Some w \<Longrightarrow> w_res w \<noteq> r"
  shows "lock_inv (set_held (put_queue qa (snd (RemoveGranted (qheap st qa) t)) st) t
           (HeldSet_Delete (helds st t) r)) pend"
proof -
  have tab: "go_get (qtable st) (resource_string r) = Some qa" using get by (simp add: Table_Get_def)
  have res: "q_res (qheap st qa) = r" by (rule inv_res [OF inv get wf])
  have not_t: "rq_txn x \<noteq> t" if "pend (rq_txn x) = Some (waits_for st qa x)" for x
    using pend that res by (auto simp: waits_for_def)
  show ?thesis
  proof (rule inv_put_queue [OF inv tab, where q' = "snd (RemoveGranted (qheap st qa) t)"], goal_cases)
    case 5
    then show ?case using inv_queue [OF inv tab] by (simp add: queue_ok_RemoveGranted)
  next
    case (6 k2 qa2 x)
    then show ?case using inv_queue [OF inv 6(1)] by (simp add: queue_ok_def)
  next
    case (7 x)
    then show ?case using inv_waiting [OF inv tab] by simp
  next
    case (8 x)
    then show ?case using inv_granted [OF inv tab, of x] not_t by (auto simp: res)
  next
    case (12 t' m)
    then show ?case using inv_held [OF inv, of t' r m] get by (auto simp: res split: if_splits)
  next
    case (13 t' w)
    show ?case
    proof (cases "t' = t")
      case True
      then have "w_queue w \<noteq> qa"
        using inv_pend [OF inv 13] pend [of w] 13 inv_res [OF inv, of "w_res w" qa] res by (auto simp: pend_ok_def)
      with True pend [of w] 13 show ?thesis
        by (intro pend_ok_cong [OF inv_pend [OF inv 13]]) auto
    next
      case False
      with inv_pend [OF inv 13] show ?thesis
        by (auto simp: pend_ok_def is_request_def)
    qed
  qed (use inv_keys [OF inv] inv_ch [OF inv] inv_fresh [OF inv] in \<open>auto simp: res\<close>)
qed

lemma inv_drop_pend:
  assumes inv: "lock_inv st pend" and pend: "pend t = Some w"
  shows "lock_inv (put_queue (w_queue w)
           (snd (RemoveGranted (snd (RemoveWaiting (qheap st (w_queue w)) t)) t)) st) (pend(t := None))"
proof -
  define q where "q = qheap st (w_queue w)"
  let ?q = "snd (RemoveGranted (snd (RemoveWaiting (qheap st (w_queue w)) t)) t)"
  have wf: "wf_resource (w_res w)" and get: "Table_Get st (w_res w) = Some (w_queue w)"
    and no_held: "held st t (w_res w) = None"
    using inv_pend [OF inv pend] by (auto simp: pend_ok_def)
  have tab: "go_get (qtable st) (resource_string (w_res w)) = Some (w_queue w)"
    using get by (simp add: Table_Get_def)
  have res: "q_res (qheap st (w_queue w)) = w_res w" by (rule inv_res [OF inv get wf])
  have ok: "queue_ok q (ch_closed st)" using inv_queue [OF inv tab] by (simp add: q_def)
  have rw: "snd (RemoveWaiting q t) = q\<lparr>waiting := filter (\<lambda>w. rq_txn w \<noteq> t) (waiting q)\<rparr>"
    by (rule waiting_RemoveWaiting [OF ok])
  show ?thesis
  proof (rule inv_put_queue [OF inv tab, where q' = ?q], goal_cases)
    case 5
    then show ?case using ok by (simp add: queue_ok_RemoveGranted queue_ok_RemoveWaiting q_def)
  next
    case (6 k2 qa2 x)
    then show ?case using inv_queue [OF inv 6(1)] by (simp add: queue_ok_def)
  next
    case (7 x)
    then show ?case using inv_waiting [OF inv tab, of x] by (auto simp: q_def [symmetric] rw)
  next
    case (8 x)
    then show ?case using inv_granted [OF inv tab, of x] by (auto simp: q_def [symmetric] rw)
  next
    case (12 t' m)
    then show ?case
      using inv_held [OF inv, of t' "w_res w" m] get no_held res by (auto simp: q_def [symmetric] rw)
  next
    case (13 t' w')
    then show ?case
      using inv_pend [OF inv, of t' w'] by (auto simp: pend_ok_def is_request_def q_def [symmetric] rw split: if_splits)
  qed (use inv_keys [OF inv] inv_ch [OF inv] inv_fresh [OF inv] pend in \<open>auto simp: q_def [symmetric] rw split: if_splits\<close>)
qed

lemma lock_inv_wfg [simp]: "lock_inv (st\<lparr>wfg := g\<rparr>) pend \<longleftrightarrow> lock_inv st pend"
  by (simp add: lock_inv_defs pend_ok_def waits_for_def Table_Get_def)

lemma inv_Table_Delete:
  assumes inv: "lock_inv st pend" and get: "Table_Get st r = Some qa" and emp: "queue_empty (qheap st qa)"
  shows "lock_inv (Table_Delete st r) pend"
proof -
  have sub: "go_get (qtable st) k = Some qa2" if "go_get (qtable (Table_Delete st r)) k = Some qa2" for k qa2
    using that by (simp add: Table_Delete_def gomap_simps split: if_splits)
  have keep: "Table_Get (Table_Delete st r) r' = Some qa2"
    if "Table_Get st r' = Some qa2" "x \<in> set (granted (qheap st qa2) @ waiting (qheap st qa2))" for r' qa2 x
    using that get emp by (auto simp: Table_Delete_def Table_Get_def gomap_simps queue_empty_def)
  have same: "qheap (Table_Delete st r) = qheap st" "helds (Table_Delete st r) = helds st"
    "ch_closed (Table_Delete st r) = ch_closed st" "next_ch (Table_Delete st r) = next_ch st"
    "next_q (Table_Delete st r) = next_q st" "waits_for (Table_Delete st r) = waits_for st"
    by (simp_all add: Table_Delete_def waits_for_def fun_eq_iff)
  show ?thesis
  proof (rule lock_invI, goal_cases)
    case (6 t r' m)
    then show ?case using inv_held [OF inv, of t r' m] keep by (fastforce simp: same)
  next
    case (7 t w)
    note ok = inv_pend [OF inv 7]
    then obtain x where "x \<in> set (granted (qheap st (w_queue w)) @ waiting (qheap st (w_queue w)))"
      by (auto simp: pend_ok_def split: if_splits)
    moreover have "Table_Get st (w_res w) = Some (w_queue w)"
      using ok by (simp add: pend_ok_def)
    ultimately show ?case
      using keep by (intro pend_ok_cong [OF ok]) (simp_all add: same)
  next
    case (1 k qa2)
    then show ?case using inv_table [OF inv sub [OF 1]] by (simp add: same)
  next
    case (2 k qa2)
    then show ?case using inv_queue [OF inv sub [OF 2]] by (simp add: same)
  next
    case (3 k qa2 x)
    then show ?case using inv_waiting [OF inv sub [OF 3(1)], of x] by (simp add: same)
  next
    case (4 k qa2 x)
    then show ?case using inv_granted [OF inv sub [OF 4(1)], of x] by (simp add: same)
  qed (simp_all add: same inv_keys [OF inv] inv_ch [OF inv] inv_fresh [OF inv])
qed

lemma inv_wait_granted:
  assumes inv: "lock_inv st pend" and pend: "pend t = Some w" and closed: "ch_closed st (w_ch w)"
  shows "lock_inv (wait_granted t (w_res w) (w_mode w) st) (pend(t := None))"
proof -
  have wf: "wf_resource (w_res w)" and get: "Table_Get st (w_res w) = Some (w_queue w)"
    using inv_pend [OF inv pend] by (auto simp: pend_ok_def)
  obtain x where x: "is_request t w x" "x \<in> set (granted (qheap st (w_queue w)))"
    using inv_pend [OF inv pend] closed by (auto simp: pend_ok_def)
  have tab: "go_get (qtable st) (resource_string (w_res w)) = Some (w_queue w)"
    using get by (simp add: Table_Get_def)
  have res: "q_res (qheap st (w_queue w)) = w_res w" by (rule inv_res [OF inv get wf])
  have dist: "distinct (map rq_txn (granted (qheap st (w_queue w)) @ waiting (qheap st (w_queue w))))"
    using inv_queue [OF inv tab] by (simp add: queue_ok_def)
  have only: "rq_txn y = t \<Longrightarrow> y = x" if "y \<in> set (granted (qheap st (w_queue w)))" for y
    using dist x that by (auto simp: is_request_def distinct_map dest: inj_onD)
  have none: "rq_txn y \<noteq> t" if "y \<in> set (waiting (qheap st (w_queue w)))" for y
    using dist x that by (auto simp: is_request_def)
  have "lock_inv (set_held st t (HeldSet_Set (helds st t) (w_res w) (w_mode w))) (pend(t := None))"
  proof (rule inv_put_queue [OF inv tab, where q' = "qheap st (w_queue w)"], goal_cases)
    case (7 y)
    then show ?case using none inv_waiting [OF inv tab 7] by auto
  next
    case (8 y)
    then show ?case using only [OF 8] x inv_granted [OF inv tab 8] by (auto simp: res is_request_def)
  next
    case (12 t' m)
    then show ?case
      using inv_held [OF inv, of t' "w_res w" m] get x by (auto simp: res is_request_def split: if_splits)
  next
    case (13 t' w')
    then show ?case using inv_pend [OF inv, of t' w'] by (auto intro: pend_ok_cong split: if_splits)
  qed (use inv_keys [OF inv] inv_ch [OF inv] inv_fresh [OF inv] inv_queue [OF inv] tab pend in
       \<open>auto simp: res queue_ok_def split: if_splits\<close>)
  moreover have "wait_granted t (w_res w) (w_mode w) st =
      set_held st t (HeldSet_Set (helds st t) (w_res w) (w_mode w))\<lparr>wfg := RemoveEdges (wfg st) t\<rparr>"
    by (simp add: wait_granted_def set_held_def)
  ultimately show ?thesis by simp
qed

lemma GetOrCreate_get: "GetOrCreate st r = (qa, st') \<Longrightarrow> Table_Get st' r = Some qa \<and> helds st' = helds st"
  by (auto simp: GetOrCreate_def Table_Get_def gomap_simps split: option.splits)

lemma inv_GetOrCreate:
  assumes inv: "lock_inv st pend" and wf: "wf_resource r" and run: "GetOrCreate st r = (qa, st')"
  shows "lock_inv st' pend"
proof (cases "Table_Get st r")
  case (Some qa')
  with run inv show ?thesis by (simp add: GetOrCreate_def)
next
  case None
  with run have st': "st' = st\<lparr>qheap := (qheap st)(next_q st := NewQueue r), next_q := Suc (next_q st),
      qtable := go_put (resource_string r) (next_q st) (qtable st)\<rparr>"
    by (auto simp: GetOrCreate_def)
  have old: "qa2 < next_q st" if "go_get (qtable st) k = Some qa2" for k qa2
    using inv_table [OF inv that] by simp
  have tab: "(k = resource_string r \<and> qa2 = next_q st) \<or> (go_get (qtable st) k = Some qa2 \<and> qa2 \<noteq> next_q st)"
    if "go_get (qtable st') k = Some qa2" for k qa2
    using that old [of k qa2] by (auto simp: st' gomap_simps split: if_splits)
  have keep: "Table_Get st' r' = Some qa2 \<and> qa2 \<noteq> next_q st" if "Table_Get st r' = Some qa2" for r' qa2
    using that None old by (auto simp: st' gomap_simps Table_Get_def)
  have new: "granted (qheap st' (next_q st)) = []" "waiting (qheap st' (next_q st)) = []"
    "q_res (qheap st' (next_q st)) = r"
    by (simp_all add: st' NewQueue_def)
  have same: "qa2 \<noteq> next_q st \<Longrightarrow> qheap st' qa2 = qheap st qa2" "helds st' = helds st"
    "ch_closed st' = ch_closed st" "next_ch st' = next_ch st" "next_q st' = Suc (next_q st)" for qa2
    by (simp_all add: st')
  have wfor: "qa2 \<noteq> next_q st \<Longrightarrow> waits_for st' qa2 x = waits_for st qa2 x" for qa2 x
    by (simp add: waits_for_def same(1))
  show ?thesis
  proof (rule lock_invI, goal_cases)
    case (1 k qa2)
    from tab [OF 1] inv_table [OF inv, of k qa2] wf show ?case by (auto simp: new same)
  next
    case (2 k qa2)
    from tab [OF 2] inv_queue [OF inv, of k qa2] show ?case
      by (elim disjE) (simp_all add: queue_ok_def new same)
  next
    case (3 k qa2 x)
    from tab [OF 3(1)] inv_waiting [OF inv, of k qa2 x] 3(2) show ?case by (auto simp: new same wfor)
  next
    case (4 k qa2 x)
    from tab [OF 4(1)] inv_granted [OF inv, of k qa2 x] 4(2) show ?case by (auto simp: new same wfor)
  next
    case (6 t r' m)
    then show ?case using inv_held [OF inv, of t r' m] keep same by fastforce
  next
    case (7 t w)
    then have "Table_Get st (w_res w) = Some (w_queue w)"
      using inv_pend [OF inv 7] by (simp add: pend_ok_def)
    then show ?case
      using keep by (intro pend_ok_cong [OF inv_pend [OF inv 7]]) (simp_all add: same)
  qed (simp_all add: same inv_keys [OF inv] inv_ch [OF inv] inv_fresh [OF inv])
qed

lemma AddGranted_simps [simp]:
  "granted (AddGranted q (NewRequest t m ch)) = granted q @ [grant (NewRequest t m ch)]"
  "waiting (AddGranted q x) = waiting q" "q_res (AddGranted q x) = q_res q"
  "waiting (AddWaiting q x) = waiting q @ [x\<lparr>rq_status := StatusWaiting\<rparr>]"
  "granted (AddWaiting q x) = granted q" "q_res (AddWaiting q x) = q_res q"
  "rq_txn (NewRequest t m ch) = t" "rq_mode (NewRequest t m ch) = m" "rq_ch (NewRequest t m ch) = ch"
  by (simp_all add: AddGranted_def AddWaiting_def NewRequest_def grant_def)

lemma inv_add_granted:
  assumes inv: "lock_inv st pend" and get: "Table_Get st r = Some qa" and wf: "wf_resource r"
    and t: "pend t = None" "held st t r = None" and can: "CanGrant (qheap st qa) m t"
  shows "lock_inv (set_held (put_queue qa (AddGranted (qheap st qa) (NewRequest t m (next_ch st))) st) t
           (HeldSet_Set (helds st t) r m)\<lparr>next_ch := Suc (next_ch st)\<rparr>) pend"
proof -
  have tab: "go_get (qtable st) (resource_string r) = Some qa" using get by (simp add: Table_Get_def)
  have res: "q_res (qheap st qa) = r" by (rule inv_res [OF inv get wf])
  note fresh = not_in_queue [OF inv get wf t]
  show ?thesis
  proof (rule inv_put_queue [OF inv tab, where q' = "AddGranted (qheap st qa) (NewRequest t m (next_ch st))"], goal_cases)
    case 5
    then show ?case using queue_ok_AddGranted [OF inv_queue [OF inv tab] can fresh] by simp
  next
    case (6 k2 qa2 x)
    then show ?case using inv_queue [OF inv 6(1)] by (simp add: queue_ok_def)
  next
    case (7 x)
    then show ?case using inv_waiting [OF inv tab, of x] by simp
  next
    case (8 x)
    then show ?case using inv_granted [OF inv tab, of x] t by (auto simp: res)
  next
    case (12 t' m')
    then show ?case using inv_held [OF inv, of t' r m'] get by (auto simp: res split: if_splits)
  next
    case (13 t' w)
    then show ?case using inv_pend [OF inv 13] t by (auto simp: pend_ok_def Table_Get_def)
  qed (use inv_keys [OF inv] inv_ch [OF inv] inv_fresh [OF inv] in \<open>auto simp: res\<close>)
qed

lemma inv_add_waiting:
  assumes inv: "lock_inv st pend" and get: "Table_Get st r = Some qa" and wf: "wf_resource r"
    and t: "pend t = None" "held st t r = None"
  shows "lock_inv (put_queue qa (AddWaiting (qheap st qa) (NewRequest t m (next_ch st))) st\<lparr>next_ch := Suc (next_ch st)\<rparr>)
           (pend(t \<mapsto> \<lparr>w_res = r, w_mode = m, w_queue = qa, w_ch = next_ch st\<rparr>))"
proof -
  have tab: "go_get (qtable st) (resource_string r) = Some qa" using get by (simp add: Table_Get_def)
  have res: "q_res (qheap st qa) = r" by (rule inv_res [OF inv get wf])
  note fresh = not_in_queue [OF inv get wf t]
  have below: "w_ch w < next_ch st" if "pend t' = Some w" for t' w
    using inv_pend [OF inv that] by (simp add: pend_ok_def)
  have "rq_ch x < next_ch st" if "x \<in> set (waiting (qheap st qa))" for x
    using below [OF inv_waiting [OF inv tab that]] by simp
  then have new_ch: "next_ch st \<notin> rq_ch ` set (waiting (qheap st qa))" by fastforce
  have other: "rq_txn x \<noteq> t" if "x \<in> set (granted (qheap st qa) @ waiting (qheap st qa))" for x
    using fresh that by (auto simp: queue_txns_def)
  show ?thesis
  proof (rule inv_put_queue [OF inv tab, where q' = "AddWaiting (qheap st qa) (NewRequest t m (next_ch st))"], goal_cases)
    case 5
    then show ?case
      using queue_ok_AddWaiting [OF inv_queue [OF inv tab] fresh inv_fresh [OF inv] new_ch] by simp
  next
    case (6 k2 qa2 x)
    then show ?case using inv_queue [OF inv 6(1)] by (simp add: queue_ok_def)
  next
    case (7 x)
    then show ?case using inv_waiting [OF inv tab, of x] other by (auto simp: waits_for_def res)
  next
    case (8 x)
    then show ?case using inv_granted [OF inv tab, of x] other [of x] by auto
  next
    case (12 t' m')
    then show ?case using inv_held [OF inv, of t' r m'] get by (auto simp: res)
  next
    case (13 t' w)
    show ?case
    proof (cases "t' = t")
      case True
      with 13 have "w = \<lparr>w_res = r, w_mode = m, w_queue = qa, w_ch = next_ch st\<rparr>" by simp
      moreover have "is_request t \<lparr>w_res = r, w_mode = m, w_queue = qa, w_ch = next_ch st\<rparr>
          (NewRequest t m (next_ch st)\<lparr>rq_status := StatusWaiting\<rparr>)"
        by (simp add: is_request_def)
      ultimately show ?thesis
        using wf get t True inv_fresh [OF inv, of "next_ch st"]
        by (auto simp: pend_ok_def Table_Get_def)
    next
      case False
      with 13 inv_pend [OF inv, of t' w] show ?thesis by (auto simp: pend_ok_def Table_Get_def)
    qed
  next
    case (14 t1 t2 w1 w2)
    then show ?case
      using inv_ch [OF inv, of t1 w1 t2 w2] below [of t1 w1] below [of t2 w2] by (auto split: if_splits)
  qed (use inv_keys [OF inv] inv_fresh [OF inv] t in \<open>auto simp: res\<close>)
qed

section \<open>Every step keeps the invariant\<close>

lemma release_section_frame:
  assumes "release_section qa t st = Some st'"
  shows "Table_Get st' r = Table_Get st r" and "helds st' = helds st"
  using assms by (auto simp: release_section_def Table_Get_def)

lemma inv_release_section:
  assumes inv: "lock_inv (put_queue qa (snd (RemoveGranted (qheap st qa) t)) st) pend"
    and get: "Table_Get st r = Some qa"
  obtains st' where "release_section qa t st = Some st'" and "lock_inv st' pend"
proof -
  let ?q = "snd (RemoveGranted (qheap st qa) t)" and ?st = "put_queue qa (snd (RemoveGranted (qheap st qa) t)) st"
  have tab: "go_get (qtable ?st) (resource_string r) = Some qa" using get by (simp add: Table_Get_def)
  from GrantWaiters_eq [OF inv_queue [OF inv tab]]
  obtain q' cl where run: "GrantWaiters ?q (ch_closed st) = Some (q', cl)" by auto
  then have "lock_inv (put_queue qa q' ?st\<lparr>ch_closed := cl\<rparr>) pend"
    by (intro inv_grant [OF inv tab]) simp
  moreover have "put_queue qa q' ?st\<lparr>ch_closed := cl\<rparr> = st\<lparr>qheap := (qheap st)(qa := q'), ch_closed := cl\<rparr>"
    by (simp add: put_queue_def)
  ultimately show ?thesis
    using run that by (simp add: release_section_def)
qed

lemma release_section_set_held:
  "release_section qa t (set_held st t' h) = map_option (\<lambda>st. set_held st t' h) (release_section qa t st)"
  by (cases "GrantWaiters (snd (RemoveGranted (qheap st qa) t)) (ch_closed st)")
     (auto simp: release_section_def set_held_def)

lemma put_queue_set_held: "put_queue qa q (set_held st t h) = set_held (put_queue qa q st) t h"
  by (simp add: put_queue_def set_held_def)

lemma inv_release_held:
  assumes inv: "lock_inv st pend" and get: "Table_Get st r = Some qa" and wf: "wf_resource r"
    and pend: "\<And>w. pend t = Some w \<Longrightarrow> w_res w \<noteq> r"
  obtains st' where "release_section qa t st = Some st'"
    and "lock_inv (set_held st' t (HeldSet_Delete (helds st' t) r)) pend"
proof -
  let ?h = "HeldSet_Delete (helds st t) r"
  have "lock_inv (put_queue qa (snd (RemoveGranted (qheap (set_held st t ?h) qa) t)) (set_held st t ?h)) pend"
    unfolding put_queue_set_held using inv_drop_grant [OF inv get wf pend] by simp
  moreover have "Table_Get (set_held st t ?h) r = Some qa" using get by simp
  ultimately obtain st'' where "release_section qa t (set_held st t ?h) = Some st''" and "lock_inv st'' pend"
    by (rule inv_release_section)
  then obtain st' where "release_section qa t st = Some st'" and "st'' = set_held st' t ?h"
    by (auto simp: release_section_set_held)
  moreover from this(1) have "helds st' = helds st"
    by (rule release_section_frame)
  ultimately show ?thesis using \<open>lock_inv st'' pend\<close> that [of st'] by simp
qed

lemma inv_ReleaseLock:
  assumes inv: "lock_inv st pend" and wf: "wf_resource r" and t: "pend t = None"
  obtains st' where "ReleaseLock t r st = Some st'" and "lock_inv st' pend"
proof (cases "Table_Get st r")
  case None
  with inv that show ?thesis by (simp add: ReleaseLock_def)
next
  case (Some qa)
  have "w_res w \<noteq> r" if "pend t = Some w" for w using that t by simp
  then obtain st' where "release_section qa t st = Some st'"
    and "lock_inv (set_held st' t (HeldSet_Delete (helds st' t) r)) pend"
    by (rule inv_release_held [OF inv Some wf])
  with Some that show ?thesis by (simp add: ReleaseLock_def)
qed

lemma held_None_pend: "lock_inv st pend \<Longrightarrow> held st t r = Some m \<Longrightarrow> pend t = Some w \<Longrightarrow> w_res w \<noteq> r"
  using inv_pend [of st pend t w] by (auto simp: pend_ok_def)

lemma inv_release_one:
  assumes inv: "lock_inv st pend" and h: "held st t r = Some m"
  obtains st' where "release_one t r st = Some st'" and "lock_inv st' pend"
    and "helds st' = (helds st)(t := HeldSet_Delete (helds st t) r)"
proof -
  from inv_held [OF inv h] obtain qa where wf: "wf_resource r" and get: "Table_Get st r = Some qa" by blast
  obtain st1 where run: "release_section qa t st = Some st1"
    and inv1: "lock_inv (set_held st1 t (HeldSet_Delete (helds st1 t) r)) pend"
    by (rule inv_release_held [OF inv get wf held_None_pend [OF inv h]])
  let ?st2 = "set_held st1 t (HeldSet_Delete (helds st1 t) r)"
  have get2: "Table_Get ?st2 r = Some qa"
    using release_section_frame [OF run] get by simp
  have one: "release_one t r st = Some (release_finish (queue_empty (qheap st1 qa)) t r st1)"
    using get run by (simp add: release_one_def)
  have "lock_inv (release_finish (queue_empty (qheap st1 qa)) t r st1) pend"
  proof (cases "queue_empty (qheap st1 qa)")
    case True
    then have "lock_inv (Table_Delete ?st2 r) pend"
      using inv_Table_Delete [OF inv1 get2] by simp
    moreover have "Table_Delete ?st2 r = release_finish (queue_empty (qheap st1 qa)) t r st1"
      using True by (simp add: release_finish_def Table_Delete_def set_held_def)
    ultimately show ?thesis by simp
  next
    case False
    with inv1 show ?thesis by (simp add: release_finish_def)
  qed
  moreover have "helds (release_finish (queue_empty (qheap st1 qa)) t r st1) = (helds st)(t := HeldSet_Delete (helds st t) r)"
    using release_section_frame [OF run] by (simp add: release_finish_def Table_Delete_def Let_def)
  ultimately show ?thesis using one that by blast
qed

lemma inv_release_loop:
  assumes "lock_inv st pend" and "distinct rs" and "\<forall>r \<in> set rs. held st t r \<noteq> None"
  shows "\<exists>st'. release_loop t rs st = Some st' \<and> lock_inv st' pend \<and>
    (\<forall>t'. t' \<noteq> t \<longrightarrow> helds st' t' = helds st t') \<and>
    (\<forall>r. held st' t r = (if r \<in> set rs then None else held st t r))"
  using assms
proof (induction rs arbitrary: st)
  case (Cons r rs)
  then obtain m where "held st t r = Some m" by auto
  from inv_release_one [OF Cons.prems(1) this] obtain st1 where one: "release_one t r st = Some st1"
    and inv1: "lock_inv st1 pend" and helds: "helds st1 = (helds st)(t := HeldSet_Delete (helds st t) r)" .
  have "\<forall>r' \<in> set rs. held st1 t r' \<noteq> None"
    using Cons.prems by (auto simp: helds)
  from Cons.IH [OF inv1 _ this] Cons.prems(2) one show ?case
    by (auto simp: helds split: if_splits)
qed simp

lemma inv_ReleaseAllLocks:
  assumes inv: "lock_inv st pend"
  obtains st' where "ReleaseAllLocks t st = Some st'" and "lock_inv st' pend"
    and "\<And>r. held st' t r = None" and "\<And>t'. t' \<noteq> t \<Longrightarrow> helds st' t' = helds st t'"
proof -
  have "\<forall>r \<in> set (go_keys (helds st t)). held st t r \<noteq> None"
    by (simp add: go_get_None)
  from inv_release_loop [OF inv inv_keys [OF inv] this] obtain st1 where
    "release_loop t (go_keys (helds st t)) st = Some st1" and "lock_inv st1 pend"
    and "\<forall>t'. t' \<noteq> t \<longrightarrow> helds st1 t' = helds st t'"
    and "\<forall>r. held st1 t r = (if r \<in> set (go_keys (helds st t)) then None else held st t r)" by blast
  then show ?thesis
    using that [of "st1\<lparr>wfg := RemoveEdges (wfg st1) t\<rparr>"]
    by (simp add: ReleaseAllLocks_def HeldSet_Keys_def go_get_None)
qed

text \<open>The state after an upgrading transaction has given up its weaker lock.\<close>

definition drop_weaker :: "nat \<Rightarrow> txn_id \<Rightarrow> ResourceID \<Rightarrow> lock_sys \<Rightarrow> lock_sys" where
  "drop_weaker qa t r st =
     (if held st t r = None then st
      else set_held (put_queue qa (snd (RemoveGranted (qheap st qa) t)) st) t (HeldSet_Delete (helds st t) r))"

lemma acquire_section_sufficient:
  "held st t r = Some e \<Longrightarrow> strength m \<le> strength e \<Longrightarrow> acquire_section qa t r m st = (AcqOk, st)"
  by (simp add: acquire_section_def HeldSet_Get_def)

lemma acquire_section_insufficient:
  fixes qa :: nat
  assumes "\<And>e. held st t r = Some e \<Longrightarrow> strength e < strength m"
  defines "st1 \<equiv> drop_weaker qa t r st"
  shows "acquire_section qa t r m st =
    (if CanGrant (qheap st1 qa) m t
     then (AcqOk,
       set_held (put_queue qa (AddGranted (qheap st1 qa) (NewRequest t m (next_ch st1))) st1) t
         (HeldSet_Set (helds st1 t) r m)\<lparr>next_ch := Suc (next_ch st1)\<rparr>)
     else (AcqWait (next_ch st1),
       (put_queue qa (AddWaiting (qheap st1 qa) (NewRequest t m (next_ch st1))) st1
         \<lparr>next_ch := Suc (next_ch st1)\<rparr>)
         \<lparr>wfg := fold (\<lambda>c g. AddEdge g t c) (ConflictingTxns (qheap st1 qa) m t) (wfg st)\<rparr>))"
proof (cases "held st t r")
  case None
  then show ?thesis
    by (simp add: acquire_section_def HeldSet_Get_def st1_def drop_weaker_def put_queue_def set_held_def Let_def)
next
  case (Some e)
  with assms(1) have "strength e < strength m" by simp
  with Some show ?thesis
    by (simp add: acquire_section_def HeldSet_Get_def st1_def drop_weaker_def put_queue_def set_held_def Let_def)
qed

lemma inv_drop_weaker:
  assumes "lock_inv st pend" and "Table_Get st r = Some qa" and "wf_resource r" and "pend t = None"
  shows "lock_inv (drop_weaker qa t r st) pend" and "held (drop_weaker qa t r st) t r = None"
    and "Table_Get (drop_weaker qa t r st) r = Some qa"
  using assms inv_drop_grant [OF assms(1-3), of t] by (auto simp: drop_weaker_def)

lemma inv_acquire:
  assumes inv: "lock_inv st pend" and wf: "wf_resource r" and t: "pend t = None"
    and run: "AcquireLock_enter t r m st = (qa, out, st')"
  shows "case out of AcqOk \<Rightarrow> lock_inv st' pend
     | AcqWait ch \<Rightarrow> lock_inv st' (pend(t \<mapsto> \<lparr>w_res = r, w_mode = m, w_queue = qa, w_ch = ch\<rparr>))"
proof -
  obtain st0 where create: "GetOrCreate st r = (qa, st0)" and sec: "acquire_section qa t r m st0 = (out, st')"
    using run by (auto simp: AcquireLock_enter_def split: prod.splits)
  have inv0: "lock_inv st0 pend" by (rule inv_GetOrCreate [OF inv wf create])
  have get: "Table_Get st0 r = Some qa" using GetOrCreate_get [OF create] by simp
  show ?thesis
  proof (cases "\<exists>e. held st0 t r = Some e \<and> strength m \<le> strength e")
    case True
    then show ?thesis using sec inv0 acquire_section_sufficient by fastforce
  next
    case False
    then have weak: "strength e < strength m" if "held st0 t r = Some e" for e using that by force
    note st1 = inv_drop_weaker [OF inv0 get wf t]
    show ?thesis
    proof (cases "CanGrant (qheap (drop_weaker qa t r st0) qa) m t")
      case True
      with sec inv_add_granted [OF st1(1,3) wf t st1(2) True] show ?thesis
        by (auto simp: acquire_section_insufficient weak)
    next
      case False
      with sec inv_add_waiting [OF st1(1,3) wf t st1(2), of m] show ?thesis
        by (auto simp: acquire_section_insufficient weak)
    qed
  qed
qed

lemma inv_wait_cancel:
  assumes inv: "lock_inv st pend" and pend: "pend t = Some w"
  obtains st' where "wait_cancel (w_queue w) t st = Some st'" and "lock_inv st' (pend(t := None))"
proof -
  let ?q = "snd (RemoveGranted (snd (RemoveWaiting (qheap st (w_queue w)) t)) t)"
  let ?st = "put_queue (w_queue w) ?q st"
  have inv1: "lock_inv ?st (pend(t := None))" by (rule inv_drop_pend [OF inv pend])
  have tab: "go_get (qtable ?st) (resource_string (w_res w)) = Some (w_queue w)"
    using inv_pend [OF inv pend] by (simp add: pend_ok_def Table_Get_def)
  from GrantWaiters_eq [OF inv_queue [OF inv1 tab]]
  obtain q' cl where run: "GrantWaiters ?q (ch_closed st) = Some (q', cl)" by auto
  then have "lock_inv (put_queue (w_queue w) q' ?st\<lparr>ch_closed := cl\<rparr>) (pend(t := None))"
    by (intro inv_grant [OF inv1 tab]) simp
  moreover have "put_queue (w_queue w) q' ?st\<lparr>ch_closed := cl\<rparr>
      = st\<lparr>qheap := (qheap st)(w_queue w := q'), ch_closed := cl\<rparr>"
    by (simp add: put_queue_def)
  ultimately have "lock_inv (st\<lparr>qheap := (qheap st)(w_queue w := q'), ch_closed := cl, wfg := RemoveEdges (wfg st) t\<rparr>)
      (pend(t := None))"
    by simp
  with run that show ?thesis by (simp add: wait_cancel_def)
qed

lemma inv_step: "lock_step (st, pend) (st', pend') \<Longrightarrow> lock_inv st pend \<Longrightarrow> lock_inv st' pend'"
proof (erule lock_stepE, goal_cases)
  case (1 t r m qa st1)
  then show ?case using inv_acquire [of st pend r t m qa AcqOk st1] by simp
next
  case (2 t r m qa ch st1)
  then show ?case using inv_acquire [of st pend r t m qa "AcqWait ch" st1] by simp
next
  case (3 t w wk err st1)
  from inv_wait_cancel [OF 3(1) 3(3)] obtain st2 where
    "wait_cancel (w_queue w) t st = Some st2" and "lock_inv st2 (pend(t := None))" .
  with 3 inv_wait_granted [OF 3(1) 3(3)] show ?case
    by (auto simp: wait_finish_def split: wakeup.splits)
next
  case (4 t r st1)
  from inv_ReleaseLock [OF 4(1) 4(4) 4(3)] 4 show ?case by auto
next
  case (5 t st1)
  from inv_ReleaseAllLocks [OF 5(1), of t] 5 show ?case by auto
next
  case (6 r qa st1)
  then show ?case using inv_GetOrCreate by blast
next
  case (7 r t st1)
  then have "held st t r \<noteq> None" by (simp add: HeldSet_Keys_def go_get_None)
  then obtain m where "held st t r = Some m" by blast
  from inv_release_one [OF 7(1) this] 7 show ?case by auto
next
  case (8 t)
  then show ?case by simp
qed

lemma reachable_inv: "lock_reachable st pend \<Longrightarrow> lock_inv st pend"
proof (induction "(st, pend)" arbitrary: st pend rule: rtranclp_induct)
  case base
  then show ?case by (simp add: lock_inv_initial)
next
  case (step s)
  then show ?case by (cases s) (auto intro: inv_step)
qed

section \<open>Properties of the lock manager\<close>

lemma held_compat:
  assumes "lock_inv st pend" and "held st t1 r = Some m1" and "held st t2 r = Some m2" and "t1 \<noteq> t2"
  shows "mode_compat m1 m2"
proof -
  obtain qa g1 where get: "Table_Get st r = Some qa"
    and g1: "g1 \<in> set (granted (qheap st qa))" "rq_txn g1 = t1" "rq_mode g1 = m1"
    using inv_held [OF assms(1,2)] by blast
  obtain g2 where g2: "g2 \<in> set (granted (qheap st qa))" "rq_txn g2 = t2" "rq_mode g2 = m2"
    using inv_held [OF assms(1,3)] get by auto
  have "queue_ok (qheap st qa) (ch_closed st)"
    using inv_queue [OF assms(1)] get by (simp add: Table_Get_def)
  then have sorted: "sorted_wrt (\<lambda>a b. mode_compat (rq_mode a) (rq_mode b)) (granted (qheap st qa))"
    by (simp add: queue_ok_def)
  obtain i j where "i < length (granted (qheap st qa))" "granted (qheap st qa) ! i = g1"
    "j < length (granted (qheap st qa))" "granted (qheap st qa) ! j = g2"
    using g1(1) g2(1) by (auto simp: in_set_conv_nth)
  moreover then have "i \<noteq> j" using g1 g2 assms(4) by auto
  ultimately show ?thesis
    using sorted_wrt_nth_less [OF sorted, of i j] sorted_wrt_nth_less [OF sorted, of j i] g1 g2 compat_sym
    by (cases "i < j") auto
qed


definition acq :: "txn_id \<Rightarrow> ResourceID \<Rightarrow> Mode \<Rightarrow> lock_sys \<Rightarrow> lock_sys" where
  "acq t r m st = snd (snd (AcquireLock_enter t r m st))"

abbreviation row_a :: ResourceID where "row_a \<equiv> ResourceForRow ''t'' ''a''"
abbreviation row_b :: ResourceID where "row_b \<equiv> ResourceForRow ''t'' ''b''"

lemma acq_step:
  "pend t = None \<Longrightarrow> wf_resource r \<Longrightarrow> fst (snd (AcquireLock_enter t r m st)) = AcqOk \<Longrightarrow>
     lock_reachable st pend \<Longrightarrow> lock_reachable (acq t r m st) pend"
  by (erule rtranclp.rtrancl_into_rtrancl)
     (auto simp: acq_def prod_eq_iff intro: lock_step.acquired [where qa = "fst (AcquireLock_enter t r m st)"])

definition two_readers :: lock_sys where
  "two_readers = acq 2 row_a LockS (acq 1 row_a LockS NewAcquirer)"

lemma two_readers_reachable: "lock_reachable two_readers Map.empty"
  unfolding two_readers_def
  by (intro acq_step rtranclp.rtrancl_refl refl) code_simp+


text \<open>
  C25. The lock manager never panics: in every reachable state, releasing one lock, releasing
  all locks of a transaction, and the end of a blocked request for any reason (granted,
  aborted, client gone, timed out) run through without closing a grant channel twice.
\<close>

theorem lock_manager_no_panic:
  assumes "lock_reachable st pend"
  shows "ReleaseAllLocks t st \<noteq> None \<and>
    (pend t = None \<and> wf_resource r \<longrightarrow> ReleaseLock t r st \<noteq> None) \<and>
    (\<forall>w. pend t = Some w \<longrightarrow> wait_finish wk (w_queue w) t (w_res w) (w_mode w) st \<noteq> None)"
proof (intro conjI allI impI)
  note inv = reachable_inv [OF assms]
  obtain st' where "ReleaseAllLocks t st = Some st'" by (rule inv_ReleaseAllLocks [OF inv])
  then show "ReleaseAllLocks t st \<noteq> None" by simp
  show "ReleaseLock t r st \<noteq> None" if "pend t = None \<and> wf_resource r"
    using inv_ReleaseLock [OF inv, of r t] that by auto
  show "wait_finish wk (w_queue w) t (w_res w) (w_mode w) st \<noteq> None" if "pend t = Some w" for w
    using inv_wait_cancel [OF inv that] by (auto simp: wait_finish_def split: wakeup.splits)
qed

theorem lock_manager_no_panic_witness:
  "ReleaseAllLocks 1 two_readers \<noteq> None \<and> ReleaseLock 2 row_a two_readers \<noteq> None"
proof -
  have "wf_resource row_a" by code_simp
  then show ?thesis
    using lock_manager_no_panic [OF two_readers_reachable, of 1 row_a]
      lock_manager_no_panic [OF two_readers_reachable, of 2 row_a] by simp
qed

lemma ReleaseAllLocks_wfg:
  assumes "ReleaseAllLocks t st = Some st'"
  shows "(t, v) \<notin> edge_rel (wfg st')"
proof -
  obtain st1 where "st' = st1\<lparr>wfg := RemoveEdges (wfg st1) t\<rparr>"
    using assms by (auto simp: ReleaseAllLocks_def)
  then show ?thesis by (simp add: edge_rel_ops)
qed

text \<open>
  C24. \<^verbatim>\<open>ReleaseAllLocks\<close>, run without interference in a reachable state, is complete and precise. It
  returns; afterwards the transaction holds nothing and waits for nobody in the wait-for graph, and
  the locks held by all other transactions are untouched. If the transaction is not blocked in a
  request at that moment, no lock queue of the table has an entry of it any more. A transaction that
  is aborted while it waits keeps the entry of that request until its goroutine wakes up, and can be
  left with the lock (\<open>lock_leaked_to_aborted\<close> in \<open>Lock_Schedules\<close>).
\<close>

theorem ReleaseAllLocks_complete:
  assumes "lock_reachable st pend"
  shows "\<exists>st'. ReleaseAllLocks t st = Some st' \<and>
    (\<forall>r. HeldSet_Get (helds st' t) r = None) \<and> (\<forall>v. (t, v) \<notin> edge_rel (wfg st')) \<and>
    (pend t = None \<longrightarrow> (\<forall>r qa. Table_Get st' r = Some qa \<longrightarrow> t \<notin> queue_txns (qheap st' qa))) \<and>
    (\<forall>t'. t' \<noteq> t \<longrightarrow> helds st' t' = helds st t')"
proof -
  obtain st' where st': "ReleaseAllLocks t st = Some st'" "lock_inv st' pend"
    "\<And>r. held st' t r = None" "\<And>t'. t' \<noteq> t \<Longrightarrow> helds st' t' = helds st t'"
    using inv_ReleaseAllLocks [OF reachable_inv [OF assms]] by metis
  have "t \<notin> queue_txns (qheap st' qa)" if "pend t = None" "Table_Get st' r = Some qa" for r qa
  proof
    assume "t \<in> queue_txns (qheap st' qa)"
    then obtain x where "x \<in> set (granted (qheap st' qa)) \<or> x \<in> set (waiting (qheap st' qa))" and "rq_txn x = t"
      by (auto simp: queue_txns_def)
    then show False
      using inv_waiting [OF st'(2), of "resource_string r" qa x] inv_granted [OF st'(2), of "resource_string r" qa x]
        that st'(3) by (auto simp: Table_Get_def)
  qed
  with st' ReleaseAllLocks_wfg show ?thesis by (auto simp: HeldSet_Get_def)
qed

theorem ReleaseAllLocks_complete_witness:
  "\<exists>st'. ReleaseAllLocks 1 two_readers = Some st' \<and> HeldSet_Get (helds st' 1) row_a = None \<and>
     HeldSet_Get (helds st' 2) row_a = Some LockS"
proof -
  have "HeldSet_Get (helds two_readers 2) row_a = Some LockS" by code_simp
  moreover obtain st' where "ReleaseAllLocks 1 two_readers = Some st'" "HeldSet_Get (helds st' 1) row_a = None"
    "\<forall>t'. t' \<noteq> 1 \<longrightarrow> helds st' t' = helds two_readers t'"
    using ReleaseAllLocks_complete [OF two_readers_reachable, of 1] by blast
  ultimately show ?thesis by auto
qed

lemma wfg_acquire_wait:
  assumes "acquire_section qa t r m st = (AcqWait ch, st')"
  shows "edge_rel (wfg st') = edge_rel (wfg st) \<union>
      {t} \<times> {rq_txn g | g. g \<in> set (granted (qheap st' qa)) \<and> rq_txn g \<noteq> t \<and> \<not> mode_compat m (rq_mode g)}"
    and "\<exists>g \<in> set (granted (qheap st' qa)). rq_txn g \<noteq> t \<and> \<not> mode_compat m (rq_mode g)"
proof -
  have weak: "strength e < strength m" if "held st t r = Some e" for e
    using assms that acquire_section_sufficient [OF that, of m qa] by (cases "strength m \<le> strength e") auto
  let ?q = "qheap (drop_weaker qa t r st) qa"
  have no: "\<not> CanGrant ?q m t" and gr: "granted (qheap st' qa) = granted ?q"
    and wfg: "wfg st' = fold (\<lambda>c g. AddEdge g t c) (ConflictingTxns ?q m t) (wfg st)"
    using assms by (auto simp: acquire_section_insufficient weak split: if_splits)
  show "edge_rel (wfg st') = edge_rel (wfg st) \<union>
      {t} \<times> {rq_txn g | g. g \<in> set (granted (qheap st' qa)) \<and> rq_txn g \<noteq> t \<and> \<not> mode_compat m (rq_mode g)}"
    by (simp add: wfg wfg.waits_add_all set_ConflictingTxns gr)
  show "\<exists>g \<in> set (granted (qheap st' qa)). rq_txn g \<noteq> t \<and> \<not> mode_compat m (rq_mode g)"
    using no by (auto simp: gr CanGrant_def list_all_iff)
qed

text \<open>
  C26. A request blocks only for a reason the deadlock detector can see: when a transaction
  starts to wait, some other transaction holds a conflicting grant in the queue, and the
  wait-for graph gains exactly the edges from the waiting transaction to all such holders.
\<close>

theorem blocked_request_in_wait_graph:
  assumes "AcquireLock_enter t r m st = (qa, AcqWait ch, st')"
  shows "(\<exists>g \<in> set (granted (qheap st' qa)). rq_txn g \<noteq> t \<and> \<not> mode_compat m (rq_mode g)) \<and>
    edge_rel (wfg st') = edge_rel (wfg st) \<union>
      {t} \<times> {rq_txn g | g. g \<in> set (granted (qheap st' qa)) \<and> rq_txn g \<noteq> t \<and> \<not> mode_compat m (rq_mode g)}"
proof -
  obtain st0 where create: "GetOrCreate st r = (qa, st0)" and sec: "acquire_section qa t r m st0 = (AcqWait ch, st')"
    using assms by (auto simp: AcquireLock_enter_def split: prod.splits)
  have "wfg st0 = wfg st" using create by (auto simp: GetOrCreate_def split: option.splits)
  with wfg_acquire_wait [OF sec] show ?thesis by simp
qed

theorem blocked_request_in_wait_graph_witness:
  "\<exists>qa ch st'. AcquireLock_enter 3 row_a LockX two_readers = (qa, AcqWait ch, st') \<and>
     (3, 1) \<in> edge_rel (wfg st')"
proof -
  obtain qa out st' where run: "AcquireLock_enter 3 row_a LockX two_readers = (qa, out, st')"
    by (cases "AcquireLock_enter 3 row_a LockX two_readers") auto
  have "fst (snd (AcquireLock_enter 3 row_a LockX two_readers)) = AcqWait 2" by code_simp
  with run have wait: "AcquireLock_enter 3 row_a LockX two_readers = (qa, AcqWait 2, st')" by simp
  have "list_ex (\<lambda>g. rq_txn g = 1 \<and> rq_mode g = LockS)
     (granted (qheap (acq 3 row_a LockX two_readers) (fst (AcquireLock_enter 3 row_a LockX two_readers))))"
    by code_simp
  then have "\<exists>g \<in> set (granted (qheap st' qa)). rq_txn g = 1 \<and> rq_mode g = LockS"
    using run by (simp add: acq_def list_ex_iff)
  then have "(3, 1) \<in> edge_rel (wfg st')"
    using blocked_request_in_wait_graph [OF wait] by force
  with wait show ?thesis by blast
qed

end
