(* ===== verification/Lock_Schedules.thy ===== *)
theory Lock_Schedules
  imports Lock_Table
begin

text \<open>
  Concrete schedules of the lock manager, evaluated on the model of grant.go. They show
  where the code departs from what its comments or the locking protocol promise; each lemma
  is one run, and the text above it says what the run means.
\<close>

definition outcome :: "txn_id \<Rightarrow> ResourceID \<Rightarrow> Mode \<Rightarrow> lock_sys \<Rightarrow> acquire_outcome" where
  "outcome t r m st = fst (snd (AcquireLock_enter t r m st))"

definition rel_all :: "txn_id \<Rightarrow> lock_sys \<Rightarrow> lock_sys" where
  "rel_all t st = the (ReleaseAllLocks t st)"

definition holds :: "lock_sys \<Rightarrow> txn_id \<Rightarrow> ResourceID \<Rightarrow> Mode option" where
  "holds st t r = HeldSet_Get (helds st t) r"

text \<open>
  An upgrade gives its lock up while it waits. Two readers hold a shared lock on a row. When
  the first asks for the exclusive lock it has to wait, but its shared lock is removed first;
  the second reader then gets the exclusive lock at once and can change the row that the
  first transaction has read and still relies on, so the protocol is not two-phase.
\<close>

lemma upgrade_loses_shared_lock:
  "holds two_readers 1 row_a = Some LockS \<and>
   outcome 1 row_a LockX two_readers = AcqWait 2 \<and>
   holds (acq 1 row_a LockX two_readers) 1 row_a = None \<and>
   outcome 2 row_a LockX (acq 1 row_a LockX two_readers) = AcqOk"
  by (intro conjI; code_simp)

text \<open>
  A deadlock without a cycle in the wait-for graph. Transaction 1 holds row a, 2 and 3 wait for
  it, and 3 holds row b. When 1 ends, 2 is granted row a, but the edge of 3 still points to 1.
  Now 2 waits for row b. Transactions 2 and 3 block each other for ever, and the cycle search
  finds nothing.
\<close>

definition deadlocked :: lock_sys where
  "deadlocked =
     (let s1 = acq 1 row_a LockX NewAcquirer; s2 = acq 3 row_b LockX s1;
          s3 = acq 2 row_a LockX s2; s4 = acq 3 row_a LockX s3;
          s5 = rel_all 1 s4; s6 = wait_granted 2 row_a LockX s5
      in acq 2 row_b LockX s6)"

lemma undetected_deadlock:
  "holds deadlocked 2 row_a = Some LockX \<and> holds deadlocked 3 row_b = Some LockX \<and>
   Table_Snapshot deadlocked =
     [(row_a, [(2, LockX, StatusGranted)], [(3, LockX, StatusWaiting)]),
      (row_b, [(3, LockX, StatusGranted)], [(2, LockX, StatusWaiting)])] \<and>
   FindCycle (wfg deadlocked) = Some NotFound"
  by (intro conjI; code_simp)

text \<open>
  A shared table lock counts as an intention-exclusive one. The strength table is a total
  order, so a transaction that holds S is told that it has IX without getting it; another
  transaction can then share-lock the table although the first is going to write rows.
\<close>

lemma shared_lock_covers_intention_exclusive:
  "let tbl = ResourceForTable ''t''; st = acq 1 tbl LockS NewAcquirer
   in outcome 1 tbl LockIX st = AcqOk \<and> holds (acq 1 tbl LockIX st) 1 tbl = Some LockS \<and>
      outcome 2 tbl LockS (acq 1 tbl LockIX st) = AcqOk"
  unfolding Let_def by (intro conjI; code_simp)

text \<open>
  A queue removed under a requester. Transaction 2 fetches the queue of row a, then
  transaction 1 releases its lock, finds the queue empty and deletes it from the table; 2 is
  granted the exclusive lock in the queue object that is no longer in the table, and 3 gets
  the exclusive lock on the same row in a new queue.
\<close>

definition orphaned :: lock_sys where
  "orphaned =
     (let s1 = acq 1 row_a LockX NewAcquirer;
          (qa, s2) = GetOrCreate s1 row_a;
          s3 = the (release_section qa 1 s2);
          s4 = release_finish (queue_empty (qheap s3 qa)) 1 row_a s3;
          s5 = snd (acquire_section qa 2 row_a LockX s4)
      in acq 3 row_a LockX s5)"

lemma orphaned_queue_two_exclusive_locks:
  "holds orphaned 2 row_a = Some LockX \<and> holds orphaned 3 row_a = Some LockX"
  by (intro conjI; code_simp)

text \<open>
  A lock granted to an aborted transaction. Transaction 2 waits for row a when it is aborted
  and its locks are released from another goroutine; then transaction 1 ends and the request of
  2 is granted. Both channels of the \<^verbatim>\<open>select\<close> are ready, and when it takes the grant the
  aborted transaction holds a lock that nobody will release: transaction 3 has to wait.
\<close>

definition leaked :: lock_sys where
  "leaked =
     (let s1 = acq 1 row_a LockX NewAcquirer; s2 = acq 2 row_a LockX s1;
          s3 = rel_all 2 s2; s4 = rel_all 1 s3
      in wait_granted 2 row_a LockX s4)"

lemma lock_leaked_to_aborted:
  "holds leaked 2 row_a = Some LockX \<and> outcome 3 row_a LockS leaked = AcqWait 2"
  by (intro conjI; code_simp)

text \<open>
  A waiter that is not woken. Transaction 2 waits for a shared table lock that only the IX lock
  of transaction 1 excludes; 1 then upgrades to S, which replaces its IX lock without looking at
  the waiters. The request of 2 is compatible with everything granted and still waits.
\<close>

lemma upgrade_does_not_wake_waiters:
  "let tbl = ResourceForTable ''t'';
       st = acq 1 tbl LockS (acq 2 tbl LockS (acq 1 tbl LockIX NewAcquirer))
   in Table_Snapshot st = [(tbl, [(1, LockS, StatusGranted)], [(2, LockS, StatusWaiting)])] \<and>
      mode_compat LockS LockS"
  unfolding Let_def by (intro conjI; code_simp)

end
