(* ===== verification/Catalog.thy ===== *)
theory Catalog
  imports Values
begin

text \<open>
  The in-memory row store of \<^verbatim>\<open>internal/storage\<close>: rows (row.go), tables (table.go), the
  \<^verbatim>\<open>TableIface\<close> contract and the catalog (catalog.go).

  A Go slice of values may be nil, which the undo code distinguishes from an empty slice, so
  \<open>values\<close> is an option type with \<open>None\<close> for nil. A table keeps its rows in a Go map that
  \<^verbatim>\<open>Scan\<close> ranges over.
\<close>

section \<open>Rows and tables\<close>

type_synonym RowKey = gostring
type_synonym "values" = "Value list option"

record Row =
  row_key :: RowKey
  row_values :: "values"

record Column =
  col_name :: gostring
  col_type :: ValueType
  col_not_null :: bool
  col_pk :: bool

record Table =
  t_name :: gostring
  t_columns :: "Column list"
  t_rows :: "(RowKey, values) gomap"

definition NewTable :: "gostring \<Rightarrow> Column list \<Rightarrow> Table" where
  "NewTable n cs = \<lparr>t_name = n, t_columns = cs, t_rows = []\<rparr>"

text \<open>The pair of results of a Go map access: the zero value and false when the key is absent.\<close>

definition GetRow :: "Table \<Rightarrow> RowKey \<Rightarrow> values \<times> bool" where
  "GetRow t k = (case go_get (t_rows t) k of None \<Rightarrow> (None, False) | Some v \<Rightarrow> (v, True))"

definition PutRow :: "Table \<Rightarrow> RowKey \<Rightarrow> values \<Rightarrow> Table" where
  "PutRow t k v = t\<lparr>t_rows := go_put k v (t_rows t)\<rparr>"

definition DeleteRow :: "Table \<Rightarrow> RowKey \<Rightarrow> bool \<times> Table" where
  "DeleteRow t k =
     (if go_get (t_rows t) k \<noteq> None then (True, t\<lparr>t_rows := go_del k (t_rows t)\<rparr>) else (False, t))"

definition Scan :: "Table \<Rightarrow> (Row \<Rightarrow> bool) option \<Rightarrow> Row list" where
  "Scan t flt =
     filter (\<lambda>row. case flt of None \<Rightarrow> True | Some p \<Rightarrow> p row)
       (map (\<lambda>(k, v). \<lparr>row_key = k, row_values = v\<rparr>) (t_rows t))"

definition Keys :: "Table \<Rightarrow> RowKey list" where
  "Keys t = sort (go_keys (t_rows t))"

definition Count :: "Table \<Rightarrow> nat" where
  "Count t = length (t_rows t)"

definition TableName :: "Table \<Rightarrow> gostring" where
  "TableName t = t_name t"

definition TableColumns :: "Table \<Rightarrow> Column list" where
  "TableColumns t = t_columns t"

definition rows_ok :: "Table \<Rightarrow> bool" where
  "rows_ok t \<longleftrightarrow> distinct (go_keys (t_rows t))"

text \<open>What the table stores for a key.\<close>

definition row_at :: "Table \<Rightarrow> RowKey \<Rightarrow> values option" where
  "row_at t k = go_get (t_rows t) k"

section \<open>The table contract\<close>

text \<open>
  \<^verbatim>\<open>storage.TableIface\<close>: an implementation is a map from keys to values, and the read
  operations are functions of that map. The transaction manager relies on nothing else; what
  it needs for rollback follows here once for every implementation.
\<close>

locale TableIface =
  fixes ok :: "'t \<Rightarrow> bool"
    and rows :: "'t \<Rightarrow> RowKey \<rightharpoonup> values"
    and get :: "'t \<Rightarrow> RowKey \<Rightarrow> values \<times> bool"
    and put :: "'t \<Rightarrow> RowKey \<Rightarrow> values \<Rightarrow> 't"
    and del :: "'t \<Rightarrow> RowKey \<Rightarrow> bool \<times> 't"
    and scan :: "'t \<Rightarrow> (Row \<Rightarrow> bool) option \<Rightarrow> Row list"
    and keys :: "'t \<Rightarrow> RowKey list"
    and count :: "'t \<Rightarrow> nat"
  assumes get_rows: "ok t \<Longrightarrow> get t k = (case rows t k of None \<Rightarrow> (None, False) | Some v \<Rightarrow> (v, True))"
    and put_ok: "ok t \<Longrightarrow> ok (put t k v)"
    and put_rows: "ok t \<Longrightarrow> rows (put t k v) = (rows t)(k \<mapsto> v)"
    and del_ok: "ok t \<Longrightarrow> ok (snd (del t k))"
    and del_rows: "ok t \<Longrightarrow> rows (snd (del t k)) = (rows t)(k := None)"
    and del_found: "ok t \<Longrightarrow> fst (del t k) \<longleftrightarrow> rows t k \<noteq> None"
    and scan_rows: "ok t \<Longrightarrow> row \<in> set (scan t flt) \<longleftrightarrow>
      rows t (row_key row) = Some (row_values row) \<and> row = \<lparr>row_key = row_key row, row_values = row_values row\<rparr> \<and>
      (case flt of None \<Rightarrow> True | Some p \<Rightarrow> p row)"
    and keys_rows: "ok t \<Longrightarrow> sorted (keys t) \<and> distinct (keys t) \<and> set (keys t) = dom (rows t)"
    and count_rows: "ok t \<Longrightarrow> count t = card (dom (rows t))"
begin

lemma get_put: "ok t \<Longrightarrow> get (put t k v) k' = (if k' = k then (v, True) else get t k')"
  by (simp add: get_rows put_ok put_rows)

lemma get_del: "ok t \<Longrightarrow> get (snd (del t k)) k' = (if k' = k then (None, False) else get t k')"
  by (simp add: get_rows del_ok del_rows)

text \<open>Restoring the value a write replaced, or deleting what an insert added, undoes the write.\<close>

lemma undo_put: "ok t \<Longrightarrow> rows t k = Some old \<Longrightarrow> rows (put (put t k v) k old) = rows t"
  by (simp add: put_ok put_rows fun_upd_idem)

lemma undo_insert: "ok t \<Longrightarrow> rows t k = None \<Longrightarrow> rows (snd (del (put t k v) k)) = rows t"
  by (simp add: put_ok put_rows del_rows fun_upd_idem)

lemma undo_del: "ok t \<Longrightarrow> rows t k = Some old \<Longrightarrow> rows (put (snd (del t k)) k old) = rows t"
  by (simp add: del_ok del_rows put_rows fun_upd_idem)

lemma keys_count: "ok t \<Longrightarrow> length (keys t) = count t"
  using keys_rows [of t] count_rows [of t] distinct_card [of "keys t"] by simp

end

lemma dom_map_of_keys: "distinct (go_keys m) \<Longrightarrow> card (dom (map_of m)) = length m"
  using distinct_card [of "go_keys m"] by (simp add: dom_map_of_conv_image_fst)

interpretation mem_table: TableIface rows_ok row_at GetRow PutRow DeleteRow Scan Keys Count
proof unfold_locales
  fix t :: Table and k v
  assume ok: "rows_ok t"
  show "GetRow t k = (case row_at t k of None \<Rightarrow> (None, False) | Some v \<Rightarrow> (v, True))"
    by (simp add: GetRow_def row_at_def)
  show "rows_ok (PutRow t k v)" "row_at (PutRow t k v) = (row_at t)(k \<mapsto> v)"
    using ok by (auto simp: rows_ok_def PutRow_def row_at_def gomap_simps distinct_go_put)
  show "rows_ok (snd (DeleteRow t k))" "row_at (snd (DeleteRow t k)) = (row_at t)(k := None)"
    using ok by (cases "go_get (t_rows t) k"; auto simp: rows_ok_def DeleteRow_def row_at_def fun_eq_iff gomap_simps
        distinct_go_del)+
  show "fst (DeleteRow t k) \<longleftrightarrow> row_at t k \<noteq> None"
    by (simp add: DeleteRow_def row_at_def)
  show "row \<in> set (Scan t flt) \<longleftrightarrow>
      row_at t (row_key row) = Some (row_values row) \<and> row = \<lparr>row_key = row_key row, row_values = row_values row\<rparr> \<and>
      (case flt of None \<Rightarrow> True | Some p \<Rightarrow> p row)" for row :: Row and flt
    using ok by (cases row) (auto simp: Scan_def row_at_def rows_ok_def dest: map_of_SomeD)
  show "sorted (Keys t) \<and> distinct (Keys t) \<and> set (Keys t) = dom (row_at t)"
    using ok by (auto simp: Keys_def row_at_def [abs_def] rows_ok_def dom_map_of_conv_image_fst)
  show "Count t = card (dom (row_at t))"
    using ok by (simp add: Count_def row_at_def [abs_def] rows_ok_def dom_map_of_keys)
qed

section \<open>The catalog\<close>

type_synonym Catalog = "(gostring, Table) gomap"

definition NewCatalog :: Catalog where
  "NewCatalog = []"

definition Register :: "Catalog \<Rightarrow> Table \<Rightarrow> Catalog" where
  "Register c t = go_put (TableName t) t c"

definition Lookup :: "Catalog \<Rightarrow> gostring \<Rightarrow> Table option" where
  "Lookup c n = go_get c n"

definition List_tables :: "Catalog \<Rightarrow> gostring list" where
  "List_tables c = sort (go_keys c)"

text \<open>A table is an object shared by the catalog and its users; writing it through a pointer
  obtained from \<^verbatim>\<open>Lookup\<close> changes the catalog's table.\<close>

definition store_table :: "gostring \<Rightarrow> Table \<Rightarrow> Catalog \<Rightarrow> Catalog" where
  "store_table n t c = go_put n t c"

text \<open>The contents of the database: what is stored for a table and a key.\<close>

definition db :: "Catalog \<Rightarrow> gostring \<Rightarrow> RowKey \<rightharpoonup> values" where
  "db c n = (case Lookup c n of None \<Rightarrow> Map.empty | Some t \<Rightarrow> row_at t)"

definition catalog_ok :: "Catalog \<Rightarrow> bool" where
  "catalog_ok c \<longleftrightarrow> (\<forall>n t. Lookup c n = Some t \<longrightarrow> rows_ok t)"

lemma Lookup_store [simp]: "Lookup (store_table n t c) m = (if m = n then Some t else Lookup c m)"
  by (simp add: Lookup_def store_table_def gomap_simps)

lemma db_store: "db (store_table n t c) = (db c)(n := row_at t)"
  by (auto simp: db_def fun_eq_iff)

lemma catalog_ok_store: "catalog_ok c \<Longrightarrow> rows_ok t \<Longrightarrow> catalog_ok (store_table n t c)"
  by (simp add: catalog_ok_def)

lemma Scan_distinct: "rows_ok t \<Longrightarrow> distinct (map row_key (Scan t flt))"
  unfolding Scan_def rows_ok_def by (rule distinct_map_filter) (simp add: comp_def case_prod_beta)

text \<open>
  C30. The in-memory table meets the whole contract of \<^verbatim>\<open>TableIface\<close> on a table whose keys are distinct,
  and \<^verbatim>\<open>PutRow\<close> and \<^verbatim>\<open>DeleteRow\<close> keep them distinct. \<^verbatim>\<open>GetRow\<close> returns what the last \<^verbatim>\<open>PutRow\<close> of the key
  stored, and nothing after \<^verbatim>\<open>DeleteRow\<close>; other keys are untouched. \<^verbatim>\<open>DeleteRow\<close> reports whether the row
  was there. \<^verbatim>\<open>Scan\<close> returns exactly the stored rows that pass the filter, each once. \<^verbatim>\<open>Keys\<close> lists
  exactly the keys of the table in ascending order, and \<^verbatim>\<open>Count\<close> is their number.
\<close>

theorem table_contract:
  assumes "rows_ok t"
  shows "GetRow (PutRow t k v) k' = (if k' = k then (v, True) else GetRow t k') \<and>
    GetRow (snd (DeleteRow t k)) k' = (if k' = k then (None, False) else GetRow t k') \<and>
    fst (DeleteRow t k) = snd (GetRow t k) \<and>
    rows_ok (PutRow t k v) \<and> rows_ok (snd (DeleteRow t k)) \<and>
    set (Scan t flt) = {row. GetRow t (row_key row) = (row_values row, True) \<and> (case flt of None \<Rightarrow> True | Some p \<Rightarrow> p row)} \<and>
    distinct (map row_key (Scan t flt)) \<and>
    set (Keys t) = {k. snd (GetRow t k)} \<and> sorted (Keys t) \<and> distinct (Keys t) \<and> Count t = length (Keys t)"
proof (intro conjI)
  have get: "GetRow t k = (case row_at t k of None \<Rightarrow> (None, False) | Some v \<Rightarrow> (v, True))" for k
    by (rule mem_table.get_rows [OF assms])
  then have found: "row_at t k = Some v \<longleftrightarrow> GetRow t k = (v, True)" and present: "row_at t k \<noteq> None \<longleftrightarrow> snd (GetRow t k)" for k v
    by (auto split: option.splits)
  show "fst (DeleteRow t k) = snd (GetRow t k)" using mem_table.del_found [OF assms, of k] present [of k] by simp
  show "set (Scan t flt) = {row. GetRow t (row_key row) = (row_values row, True) \<and> (case flt of None \<Rightarrow> True | Some p \<Rightarrow> p row)}"
    using mem_table.scan_rows [OF assms, of _ flt] by (auto simp: found)
  show "set (Keys t) = {k. snd (GetRow t k)}" using mem_table.keys_rows [OF assms] present by auto
qed (use mem_table.get_put [OF assms] mem_table.get_del [OF assms] mem_table.put_ok [OF assms] mem_table.del_ok [OF assms]
    mem_table.keys_rows [OF assms] mem_table.keys_count [OF assms] Scan_distinct [OF assms] in simp_all)

definition two_rows :: Table where
  "two_rows = PutRow (PutRow (NewTable ''t'' []) ''b'' (Some [IntVal 2])) ''a'' (Some [IntVal 1])"

theorem table_contract_witness:
  "GetRow (PutRow two_rows ''a'' (Some [])) ''a'' = (Some [], True) \<and> set (Keys two_rows) = {k. snd (GetRow two_rows k)} \<and>
   Scan two_rows (Some (\<lambda>row. row_key row = ''b'')) = [\<lparr>row_key = ''b'', row_values = Some [IntVal 2]\<rparr>]"
proof -
  have "rows_ok two_rows" by code_simp
  moreover have "Scan two_rows (Some (\<lambda>row. row_key row = ''b'')) = [\<lparr>row_key = ''b'', row_values = Some [IntVal 2]\<rparr>]" by code_simp
  ultimately show ?thesis using table_contract [of two_rows "''a''" "Some []" "''a''" None] by simp
qed

end
