(* ===== verification/Mvcc.thy ===== *)
theory Mvcc
  imports Catalog
begin

text \<open>
  The package \<^verbatim>\<open>internal/mvcc\<close> with the snapshot type of \<^verbatim>\<open>internal/txn\<close>: row versions
  (version.go), version chains (chain.go), visibility (visibility.go), write-write conflicts
  (write_conflict.go), the store of chains (store.go) and the vacuum's prune pass (vacuum.go).

  The linked list of a chain, newest version first, is a list. Creation times and the unused
  command counter of a version are left out. The Go interfaces \<^verbatim>\<open>SnapshotView\<close> and
  \<^verbatim>\<open>TxnStatusChecker\<close> are records: the first has one implementation, \<^verbatim>\<open>txn.Snapshot\<close>, the
  second is a record of the status functions.
\<close>

section \<open>Versions, snapshots and visibility\<close>

record version =
  XMin :: txn_id
  XMax :: txn_id
  v_data :: "values"
  v_lsn :: lsn

record Snapshot =
  Xmin :: txn_id
  Xmax :: txn_id
  snap_active :: "txn_id list"

definition Snapshot_Contains :: "Snapshot \<Rightarrow> txn_id \<Rightarrow> bool" where
  "Snapshot_Contains s i = list_ex (\<lambda>a. a = i) (snap_active s)"

definition Snapshot_IsCommitted :: "Snapshot \<Rightarrow> txn_id \<Rightarrow> bool" where
  "Snapshot_IsCommitted s i =
     (if Xmax s \<le> i then False else if i < Xmin s then True else \<not> Snapshot_Contains s i)"

record TxnStatusChecker =
  IsCommitted :: "txn_id \<Rightarrow> bool"
  IsAborted :: "txn_id \<Rightarrow> bool"
  TxnStatus :: "txn_id \<Rightarrow> bool \<times> bool"

definition IsVisible :: "version \<Rightarrow> txn_id \<Rightarrow> Snapshot \<Rightarrow> TxnStatusChecker \<Rightarrow> bool" where
  "IsVisible v txnID snap mgr =
     (let xmin = XMin v; xmax = XMax v;
          selfCreated = (xmin = txnID);
          committedBeforeSnapshot = (xmin < Xmin snap \<and> \<not> IsAborted mgr xmin);
          committedDuringWindow =
            (xmin \<ge> Xmin snap \<and> xmin < Xmax snap \<and> IsCommitted mgr xmin \<and> \<not> Snapshot_Contains snap xmin);
          xminVisible = (selfCreated \<or> committedBeforeSnapshot \<or> committedDuringWindow)
      in if \<not> xminVisible then False
         else if xmax = 0 then True
         else if xmax = txnID then False
         else if Snapshot_Contains snap xmax then True
         else if xmax \<ge> Xmax snap then True
         else if IsAborted mgr xmax then True
         else False)"

section \<open>Version chains\<close>

record VersionChain =
  c_versions :: "version list"
  c_key :: RowKey
  tombstoned :: bool

definition NewVersionChain :: "RowKey \<Rightarrow> VersionChain" where
  "NewVersionChain k = \<lparr>c_versions = [], c_key = k, tombstoned = False\<rparr>"

definition Prepend :: "VersionChain \<Rightarrow> version \<Rightarrow> VersionChain" where
  "Prepend c v = c\<lparr>c_versions := v # c_versions c\<rparr>"

definition Head :: "VersionChain \<Rightarrow> version option" where
  "Head c = (case c_versions c of [] \<Rightarrow> None | v # _ \<Rightarrow> Some v)"

definition All :: "VersionChain \<Rightarrow> version list" where
  "All c = c_versions c"

fun set_xmax_loop :: "txn_id \<Rightarrow> txn_id \<Rightarrow> version list \<Rightarrow> bool \<times> version list" where
  "set_xmax_loop xmin xmax [] = (False, [])"
| "set_xmax_loop xmin xmax (v # vs) =
     (if XMin v = xmin \<and> XMax v = 0 then (True, v\<lparr>XMax := xmax\<rparr> # vs)
      else map_prod id ((#) v) (set_xmax_loop xmin xmax vs))"

definition SetXMax :: "VersionChain \<Rightarrow> txn_id \<Rightarrow> txn_id \<Rightarrow> bool \<times> VersionChain" where
  "SetXMax c xmin xmax =
     (let (found, vs) = set_xmax_loop xmin xmax (c_versions c) in (found, c\<lparr>c_versions := vs\<rparr>))"

definition ClearXMax :: "VersionChain \<Rightarrow> txn_id \<Rightarrow> VersionChain" where
  "ClearXMax c t =
     c\<lparr>c_versions := map (\<lambda>v. if XMax v = t then v\<lparr>XMax := 0\<rparr> else v) (c_versions c)\<rparr>"

definition Prune :: "VersionChain \<Rightarrow> (version \<Rightarrow> bool) \<Rightarrow> VersionChain" where
  "Prune c pred = c\<lparr>c_versions := filter (\<lambda>v. \<not> pred v) (c_versions c)\<rparr>"

definition RemoveByXMin :: "VersionChain \<Rightarrow> txn_id \<Rightarrow> VersionChain" where
  "RemoveByXMin c t = c\<lparr>c_versions := filter (\<lambda>v. XMin v \<noteq> t) (c_versions c)\<rparr>"

definition FindVisible :: "VersionChain \<Rightarrow> (version \<Rightarrow> bool) \<Rightarrow> version option" where
  "FindVisible c isVisible = find isVisible (c_versions c)"

section \<open>Write-write conflicts\<close>

text \<open>\<open>Some w\<close> is the \<^verbatim>\<open>WriteConflictError\<close> with the conflicting writer.\<close>

fun conflict_walk :: "txn_id \<Rightarrow> Snapshot \<Rightarrow> TxnStatusChecker \<Rightarrow> version list \<Rightarrow> txn_id option" where
  "conflict_walk t snap mgr [] = None"
| "conflict_walk t snap mgr (v # vs) =
     (if XMin v = t then conflict_walk t snap mgr vs
      else let (active, committed) = TxnStatus mgr (XMin v)
           in if active then Some (XMin v)
              else if Snapshot_Contains snap (XMin v) \<and> committed then Some (XMin v)
              else conflict_walk t snap mgr vs)"

definition CheckWriteConflict ::
  "txn_id \<Rightarrow> VersionChain \<Rightarrow> Snapshot \<Rightarrow> TxnStatusChecker \<Rightarrow> txn_id option" where
  "CheckWriteConflict t c snap mgr = conflict_walk t snap mgr (c_versions c)"

section \<open>The store\<close>

text \<open>Tables of chains; both levels are \<^verbatim>\<open>sync.Map\<close>s that are ranged over.\<close>

type_synonym tableStore = "(gostring, VersionChain) gomap"
type_synonym Store = "(gostring, tableStore) gomap"

definition NewStore :: Store where
  "NewStore = []"

definition getTable :: "Store \<Rightarrow> gostring \<Rightarrow> tableStore \<times> Store" where
  "getTable s t = (case go_get s t of Some ts \<Rightarrow> (ts, s) | None \<Rightarrow> ([], go_put t [] s))"

definition GetChain :: "Store \<Rightarrow> gostring \<Rightarrow> gostring \<Rightarrow> VersionChain option" where
  "GetChain s t k = (case go_get s t of None \<Rightarrow> None | Some ts \<Rightarrow> go_get ts k)"

text \<open>A chain is an object; this puts its new contents where the store has it.\<close>

definition put_chain :: "gostring \<Rightarrow> gostring \<Rightarrow> VersionChain \<Rightarrow> Store \<Rightarrow> Store" where
  "put_chain t k c s = (let (ts, s1) = getTable s t in go_put t (go_put k c ts) s1)"

definition GetOrCreateChain :: "Store \<Rightarrow> gostring \<Rightarrow> gostring \<Rightarrow> VersionChain \<times> Store" where
  "GetOrCreateChain s t k =
     (let (ts, s1) = getTable s t
      in case go_get ts k of
           Some c \<Rightarrow> if \<not> tombstoned c then (c, s1)
                     else (NewVersionChain k, go_put t (go_put k (NewVersionChain k) (go_del k ts)) s1)
         | None \<Rightarrow> (NewVersionChain k, go_put t (go_put k (NewVersionChain k) ts) s1))"

definition EvictChain :: "Store \<Rightarrow> gostring \<Rightarrow> gostring \<Rightarrow> Store" where
  "EvictChain s t k = (case go_get s t of None \<Rightarrow> s | Some ts \<Rightarrow> go_put t (go_del k ts) s)"

text \<open>The evicted chain is no longer reachable from the store; its tombstone matters only to a
  writer that still holds it.\<close>

definition MarkChainTombstoned :: "Store \<Rightarrow> gostring \<Rightarrow> gostring \<Rightarrow> VersionChain option \<times> bool \<times> Store" where
  "MarkChainTombstoned s t k =
     (case go_get s t of
        None \<Rightarrow> (None, False, s)
      | Some ts \<Rightarrow> (case go_get ts k of
            None \<Rightarrow> (None, False, s)
          | Some c \<Rightarrow> (Some (c\<lparr>tombstoned := True\<rparr>), True, go_put t (go_del k ts) s)))"

definition ForEachChain :: "(VersionChain \<Rightarrow> VersionChain) \<Rightarrow> Store \<Rightarrow> Store" where
  "ForEachChain f s = map (\<lambda>(t, ts). (t, map (\<lambda>(k, c). (k, f c)) ts)) s"

definition ForEachChainInTable :: "Store \<Rightarrow> gostring \<Rightarrow> (gostring \<times> VersionChain) list" where
  "ForEachChainInTable s t = (case go_get s t of None \<Rightarrow> [] | Some ts \<Rightarrow> ts)"

definition AllVersions :: "Store \<Rightarrow> (gostring, version list) gomap" where
  "AllVersions s =
     foldl (\<lambda>m (k, vs). go_put k vs m) []
       (concat (map (\<lambda>(t, ts). map (\<lambda>(k, c). (t @ '':'' @ k, All c)) ts) s))"

fun SeedMVCCStore :: "Store \<Rightarrow> gostring \<Rightarrow> Row list \<Rightarrow> txn_id \<Rightarrow> Store" where
  "SeedMVCCStore s t [] seed = s"
| "SeedMVCCStore s t (row # rows) seed =
     (let (c, s1) = GetOrCreateChain s t (row_key row);
          v = \<lparr>XMin = seed, XMax = 0, v_data = row_values row, v_lsn = 0\<rparr>
      in SeedMVCCStore (put_chain t (row_key row) (Prepend c v) s1) t rows seed)"

definition Clear :: "Store \<Rightarrow> Store" where
  "Clear s = []"

definition ReapEmpty :: "Store \<Rightarrow> Store" where
  "ReapEmpty s = map (\<lambda>(t, ts). (t, filter (\<lambda>(k, c). c_versions c \<noteq> []) ts)) s"

section \<open>The vacuum\<close>

record Vacuum =
  pruned :: int
  runs :: int

definition prunable :: "txn_id \<Rightarrow> TxnStatusChecker \<Rightarrow> version \<Rightarrow> bool" where
  "prunable horizon mgr v = (XMax v \<noteq> 0 \<and> XMax v \<le> horizon \<and> IsCommitted mgr (XMax v))"

definition version_count :: "Store \<Rightarrow> nat" where
  "version_count s = sum_list (map (\<lambda>(t, ts). sum_list (map (\<lambda>(k, c). length (All c)) ts)) s)"

text \<open>The pass over the store; the final \<^verbatim>\<open>PruneHistory\<close> belongs to the transaction manager.\<close>

definition pruneVersions :: "txn_id \<Rightarrow> TxnStatusChecker \<Rightarrow> Vacuum \<times> Store \<Rightarrow> Vacuum \<times> Store" where
  "pruneVersions horizon mgr vs =
     (let (vac, s) = vs;
          s1 = ForEachChain (\<lambda>c. Prune c (prunable horizon mgr)) s
      in (vac\<lparr>runs := runs vac + 1, pruned := pruned vac + (int (version_count s) - int (version_count s1))\<rparr>,
          ReapEmpty s1))"

definition Vacuum_Stats :: "Vacuum \<times> Store \<Rightarrow> nat \<times> nat \<times> int \<times> int" where
  "Vacuum_Stats vs =
     (let (vac, s) = vs
      in (sum_list (map (\<lambda>(t, ts). length ts) s), version_count s, pruned vac, runs vac))"

section \<open>What a snapshot sees\<close>

text \<open>A transaction is concurrent with a snapshot if it was active when the snapshot was taken
  or began later; the snapshot sees exactly the transactions that are committed and not
  concurrent.\<close>

definition concurrent :: "Snapshot \<Rightarrow> txn_id \<Rightarrow> bool" where
  "concurrent snap x \<longleftrightarrow> Snapshot_Contains snap x \<or> Xmax snap \<le> x"

definition sees :: "Snapshot \<Rightarrow> TxnStatusChecker \<Rightarrow> txn_id \<Rightarrow> txn_id \<Rightarrow> bool" where
  "sees snap mgr t x \<longleftrightarrow> x = t \<or> IsCommitted mgr x \<and> \<not> concurrent snap x"

text \<open>The bounds of a snapshot enclose its active set.\<close>

definition snapshot_ok :: "Snapshot \<Rightarrow> bool" where
  "snapshot_ok snap \<longleftrightarrow> Xmin snap \<le> Xmax snap \<and> (\<forall>x \<in> set (snap_active snap). Xmin snap \<le> x \<and> x < Xmax snap)"

text \<open>Every transaction of \<open>xs\<close> that is not concurrent has ended one way.\<close>

definition settled :: "Snapshot \<Rightarrow> TxnStatusChecker \<Rightarrow> txn_id \<Rightarrow> txn_id set \<Rightarrow> bool" where
  "settled snap mgr t xs \<longleftrightarrow>
     (\<forall>x \<in> xs. x \<noteq> t \<longrightarrow> \<not> concurrent snap x \<longrightarrow> (IsCommitted mgr x \<longleftrightarrow> \<not> IsAborted mgr x))"

lemma Snapshot_Contains_iff [simp]: "Snapshot_Contains s x \<longleftrightarrow> x \<in> set (snap_active s)"
  by (auto simp: Snapshot_Contains_def list_ex_iff)

lemma below_Xmin_not_concurrent: "snapshot_ok snap \<Longrightarrow> x < Xmin snap \<Longrightarrow> \<not> concurrent snap x"
  by (auto simp: snapshot_ok_def concurrent_def not_le)

lemma IsVisible_iff:
  "IsVisible v t snap mgr \<longleftrightarrow>
     (XMin v = t \<or> (XMin v < Xmin snap \<and> \<not> IsAborted mgr (XMin v)) \<or>
      (Xmin snap \<le> XMin v \<and> IsCommitted mgr (XMin v) \<and> \<not> concurrent snap (XMin v))) \<and>
     (XMax v = 0 \<or> XMax v \<noteq> t \<and> (concurrent snap (XMax v) \<or> IsAborted mgr (XMax v)))"
  by (auto simp: IsVisible_def Let_def concurrent_def not_le)

lemma IsVisible_sees:
  assumes ok: "snapshot_ok snap" and set: "settled snap mgr t {XMin v, XMax v}"
  shows "IsVisible v t snap mgr \<longleftrightarrow> sees snap mgr t (XMin v) \<and> (XMax v = 0 \<or> \<not> sees snap mgr t (XMax v))"
proof -
  have creator: "XMin v = t \<or> (XMin v < Xmin snap \<and> \<not> IsAborted mgr (XMin v)) \<or>
      (Xmin snap \<le> XMin v \<and> IsCommitted mgr (XMin v) \<and> \<not> concurrent snap (XMin v)) \<longleftrightarrow> sees snap mgr t (XMin v)"
    using set below_Xmin_not_concurrent [OF ok] by (auto simp: sees_def settled_def not_less)
  have deleter: "XMax v \<noteq> t \<and> (concurrent snap (XMax v) \<or> IsAborted mgr (XMax v)) \<longleftrightarrow> \<not> sees snap mgr t (XMax v)"
    using set by (auto simp: sees_def settled_def)
  show ?thesis unfolding IsVisible_iff creator deleter ..
qed

text \<open>
  C2. \<^verbatim>\<open>IsVisible\<close> is snapshot visibility: with consistent bounds, and every transaction that
  is not concurrent with the snapshot either committed or aborted, a version is visible
  exactly when the snapshot sees the transaction that created it and does not see a
  transaction that deleted it. The five tests of the code decide nothing else.
\<close>

theorem IsVisible_correct:
  assumes "snapshot_ok snap" and "settled snap mgr t {XMin v, XMax v}"
  shows "IsVisible v t snap mgr \<longleftrightarrow> sees snap mgr t (XMin v) \<and> (XMax v = 0 \<or> \<not> sees snap mgr t (XMax v))"
  using assms by (rule IsVisible_sees)

definition sample_snap :: Snapshot where
  "sample_snap = \<lparr>Xmin = 4, Xmax = 8, snap_active = [4, 6]\<rparr>"

definition sample_status :: TxnStatusChecker where
  "sample_status = \<lparr>IsCommitted = (\<lambda>x. x \<in> {1, 3, 4, 5}), IsAborted = (\<lambda>x. x = 2), TxnStatus = (\<lambda>x. (x \<in> {6, 7}, x \<in> {1, 3, 4, 5}))\<rparr>"

theorem IsVisible_correct_witness:
  "IsVisible \<lparr>XMin = 3, XMax = 4, v_data = None, v_lsn = 0\<rparr> 7 sample_snap sample_status"
  using IsVisible_correct [of sample_snap sample_status 7 "\<lparr>XMin = 3, XMax = 4, v_data = None, v_lsn = 0\<rparr>"]
  by (simp add: snapshot_ok_def sample_snap_def sample_status_def settled_def sees_def concurrent_def)

section \<open>The newest version a snapshot sees\<close>

text \<open>A chain without deletions: a version is superseded only by a version further ahead in
  the chain; \<open>S\<close> are the creators of the versions passed already.\<close>

fun stacked :: "txn_id set \<Rightarrow> version list \<Rightarrow> bool" where
  "stacked S [] = True"
| "stacked S (v # vs) = ((XMax v = 0 \<or> XMax v \<in> S) \<and> stacked (insert (XMin v) S) vs)"

definition chain_ids :: "version list \<Rightarrow> txn_id set" where
  "chain_ids vs = (\<Union>v \<in> set vs. {XMin v, XMax v})"

lemma settled_mono: "settled snap mgr t ys \<Longrightarrow> xs \<subseteq> ys \<Longrightarrow> settled snap mgr t xs"
  by (auto simp: settled_def)

lemma find_visible_stacked:
  assumes "snapshot_ok snap" and "stacked S vs" and "settled snap mgr t (chain_ids vs)"
    and "\<forall>x \<in> S. \<not> sees snap mgr t x"
  shows "find (\<lambda>v. IsVisible v t snap mgr) vs = find (\<lambda>v. sees snap mgr t (XMin v)) vs"
  using assms
proof (induction vs arbitrary: S)
  case (Cons v vs)
  have set: "settled snap mgr t {XMin v, XMax v}" and set': "settled snap mgr t (chain_ids vs)"
    using Cons.prems(3) by (auto simp: chain_ids_def elim: settled_mono)
  note vis = IsVisible_sees [OF Cons.prems(1) set]
  show ?case
  proof (cases "sees snap mgr t (XMin v)")
    case True
    with vis Cons.prems show ?thesis by auto
  next
    case False
    with vis Cons.IH [OF Cons.prems(1) _ set'] Cons.prems show ?thesis by auto
  qed
qed simp

section \<open>The store as a map of chains\<close>

definition store_ok :: "Store \<Rightarrow> bool" where
  "store_ok s \<longleftrightarrow> distinct (go_keys s) \<and> (\<forall>(t, ts) \<in> set s. distinct (go_keys ts))"

lemma store_ok_table: "store_ok s \<Longrightarrow> go_get s t = Some ts \<Longrightarrow> distinct (go_keys ts)"
  by (auto simp: store_ok_def dest!: map_of_SomeD)

lemma set_go_put: "set (go_put k v m) \<subseteq> insert (k, v) (set m)"
  by (induction m) auto

lemma store_ok_put: "store_ok s \<Longrightarrow> distinct (go_keys ts) \<Longrightarrow> store_ok (go_put t ts s)"
  using set_go_put [of t ts s] by (auto simp: store_ok_def distinct_go_put)

text \<open>The versions the store has for a row.\<close>

definition versions :: "Store \<Rightarrow> gostring \<Rightarrow> gostring \<Rightarrow> version list" where
  "versions s t k = (case GetChain s t k of None \<Rightarrow> [] | Some c \<Rightarrow> c_versions c)"

lemma go_get_map_values: "go_get (map (\<lambda>(k, c). (k, f c)) m) k = map_option f (go_get m k)"
  by (induction m) auto

lemma go_get_filter_values:
  "distinct (go_keys m) \<Longrightarrow>
     go_get (filter (\<lambda>(k, c). P c) m) k = (case go_get m k of None \<Rightarrow> None | Some c \<Rightarrow> if P c then Some c else None)"
proof (induction m)
  case (Cons p m)
  obtain k' c where p: "p = (k', c)" by fastforce
  have none: "go_get (filter (\<lambda>(k, c). P c) m) k' = None"
    using Cons.prems p by (auto simp: go_get_None)
  show ?case
  proof (cases "k = k'")
    case True
    with none p show ?thesis by simp
  next
    case False
    with Cons p show ?thesis by simp
  qed
qed simp

lemma getTable_get: "getTable s t = (ts, s') \<Longrightarrow> go_get s' t = Some ts"
  by (auto simp: getTable_def gomap_simps split: option.splits)

lemma GetChain_put_chain: "GetChain (put_chain t k c s) t' k' = (if t' = t \<and> k' = k then Some c else GetChain s t' k')"
  by (auto simp: put_chain_def GetChain_def getTable_def gomap_simps split: option.splits)

lemma store_ok_put_chain: "store_ok s \<Longrightarrow> store_ok (put_chain t k c s)"
  by (cases "go_get s t") (auto simp: put_chain_def getTable_def store_ok_put distinct_go_put store_ok_table)

lemma versions_put_chain: "versions (put_chain t k c s) t' k' = (if t' = t \<and> k' = k then c_versions c else versions s t' k')"
  by (simp add: versions_def GetChain_put_chain)

lemma GetOrCreateChain_spec:
  assumes "GetOrCreateChain s t k = (c, s')" and "\<forall>c. GetChain s t k = Some c \<longrightarrow> \<not> tombstoned c"
  shows "c_versions c = versions s t k" and "\<not> tombstoned c" and "versions s' t' k' = versions s t' k'"
    and "GetChain s' t' k' = (if t' = t \<and> k' = k then Some c else GetChain s t' k')"
    and "store_ok s \<Longrightarrow> store_ok s'"
proof -
  have *: "c = (case GetChain s t k of None \<Rightarrow> NewVersionChain k | Some c \<Rightarrow> c) \<and>
    s' = (case GetChain s t k of None \<Rightarrow> put_chain t k (NewVersionChain k) s | Some _ \<Rightarrow> s)"
    using assms by (cases "go_get s t") (auto simp: GetOrCreateChain_def getTable_def GetChain_def put_chain_def
        split: option.splits)
  show "c_versions c = versions s t k" "\<not> tombstoned c" "versions s' t' k' = versions s t' k'"
    "GetChain s' t' k' = (if t' = t \<and> k' = k then Some c else GetChain s t' k')"
    "store_ok s \<Longrightarrow> store_ok s'"
    using * assms(2) by (auto simp: versions_def GetChain_put_chain NewVersionChain_def store_ok_put_chain split: option.splits)
qed

lemma GetChain_ForEachChain: "GetChain (ForEachChain f s) t k = map_option f (GetChain s t k)"
proof -
  have eq: "ForEachChain f s = map (\<lambda>(t, ts). (t, map (\<lambda>(k, c). (k, f c)) ts)) s"
    by (simp add: ForEachChain_def)
  show ?thesis
    unfolding GetChain_def eq go_get_map_values
    by (cases "go_get s t") (simp_all add: go_get_map_values)
qed

lemma go_keys_map_values: "go_keys (map (\<lambda>(k, c). (k, f c)) m) = go_keys m"
  by (induction m) auto

lemma store_ok_ForEachChain: "store_ok s \<Longrightarrow> store_ok (ForEachChain f s)"
  unfolding store_ok_def ForEachChain_def go_keys_map_values
  by (auto simp: go_keys_map_values simp del: map_map)

lemma versions_ReapEmpty: "store_ok s \<Longrightarrow> versions (ReapEmpty s) t k = versions s t k"
proof -
  assume ok: "store_ok s"
  have "GetChain (ReapEmpty s) t k =
      (case GetChain s t k of None \<Rightarrow> None | Some c \<Rightarrow> if c_versions c \<noteq> [] then Some c else None)"
    unfolding GetChain_def ReapEmpty_def go_get_map_values
    using go_get_filter_values [OF store_ok_table [OF ok], of t _ "\<lambda>c. c_versions c \<noteq> []" k]
    by (cases "go_get s t") simp_all
  then show ?thesis by (auto simp: versions_def split: option.splits)
qed

section \<open>The vacuum\<close>

lemma find_filter_irrelevant: "(\<And>x. P x \<Longrightarrow> Q x) \<Longrightarrow> find P (filter Q xs) = find P xs"
  by (induction xs) auto

lemma prunable_invisible:
  assumes "\<forall>x \<le> horizon. \<not> concurrent snap x" and "\<not> IsCommitted mgr t"
    and "\<forall>x. \<not> (IsCommitted mgr x \<and> IsAborted mgr x)" and "IsVisible v t snap mgr"
  shows "\<not> prunable horizon mgr v"
  using assms by (auto simp: prunable_def IsVisible_iff)


definition sample_store :: Store where
  "sample_store = SeedMVCCStore NewStore ''t'' [\<lparr>row_key = ''a'', row_values = Some []\<rparr>] 1"


section \<open>Chains without deletions\<close>

lemma stacked_mono: "stacked S vs \<Longrightarrow> S \<subseteq> S' \<Longrightarrow> stacked S' vs"
proof (induction vs arbitrary: S S')
  case (Cons v vs)
  then have "stacked (insert (XMin v) S') vs" by (auto intro: Cons.IH)
  with Cons.prems show ?case by auto
qed simp

lemma stacked_undo:
  "stacked S vs \<Longrightarrow>
     stacked (S - {t}) (map (\<lambda>v. if XMax v = t then v\<lparr>XMax := 0\<rparr> else v) (filter (\<lambda>v. XMin v \<noteq> t) vs))"
proof (induction vs arbitrary: S)
  case (Cons v vs)
  then have IH: "stacked (insert (XMin v) S - {t})
      (map (\<lambda>v. if XMax v = t then v\<lparr>XMax := 0\<rparr> else v) (filter (\<lambda>v. XMin v \<noteq> t) vs))"
    by simp
  show ?case
  proof (cases "XMin v = t")
    case True
    with IH show ?thesis by (simp add: insert_Diff_if)
  next
    case False
    with IH Cons.prems show ?thesis by (auto simp: insert_Diff_if)
  qed
qed simp

text \<open>The first version that satisfies \<open>P\<close> gets the deleter \<open>t\<close>.\<close>

fun mark_first :: "(version \<Rightarrow> bool) \<Rightarrow> txn_id \<Rightarrow> version list \<Rightarrow> version list" where
  "mark_first P t [] = []"
| "mark_first P t (v # vs) = (if P v then v\<lparr>XMax := t\<rparr> # vs else v # mark_first P t vs)"

lemma mark_first_simps [simp]:
  "map XMin (mark_first P t vs) = map XMin vs" "map v_data (mark_first P t vs) = map v_data vs"
  by (induction vs) auto

lemma stacked_mark_first: "stacked S vs \<Longrightarrow> t \<in> S \<Longrightarrow> stacked S (mark_first P t vs)"
  by (induction vs arbitrary: S) auto

text \<open>What a transaction sees of a row: the creators and contents of the versions whose
  creator it sees, newest first.\<close>

definition view :: "Snapshot \<Rightarrow> TxnStatusChecker \<Rightarrow> txn_id \<Rightarrow> version list \<Rightarrow> (txn_id \<times> values) list" where
  "view snap mgr t vs = filter (\<lambda>(x, d). sees snap mgr t x) (map (\<lambda>v. (XMin v, v_data v)) vs)"

lemma map_version_mark_first: "map (\<lambda>v. (XMin v, v_data v)) (mark_first P t vs) = map (\<lambda>v. (XMin v, v_data v)) vs"
  by (induction vs) auto

lemma view_mark_first [simp]: "view snap mgr t (mark_first P u vs) = view snap mgr t vs"
  by (simp add: view_def map_version_mark_first)

lemma view_Cons_unseen: "\<not> sees snap mgr t (XMin v) \<Longrightarrow> view snap mgr t (v # vs) = view snap mgr t vs"
  by (simp add: view_def)

lemma view_clear [simp]:
  "view snap mgr t (map (\<lambda>v. if XMax v = u then v\<lparr>XMax := 0\<rparr> else v) vs) = view snap mgr t vs"
  by (simp add: view_def comp_def if_distrib cong: if_cong)

lemma view_remove_unseen: "\<not> sees snap mgr t u \<Longrightarrow> view snap mgr t (filter (\<lambda>v. XMin v \<noteq> u) vs) = view snap mgr t vs"
  by (induction vs) (auto simp: view_def)

lemma find_sees_view:
  "map_option v_data (find (\<lambda>v. sees snap mgr t (XMin v)) vs) =
     (case view snap mgr t vs of [] \<Rightarrow> None | (x, d) # _ \<Rightarrow> Some d)"
  by (induction vs) (auto simp: view_def)

lemma view_cong:
  "(\<And>x. x \<in> XMin ` set vs \<Longrightarrow> sees snap mgr t x \<longleftrightarrow> sees snap mgr' t x) \<Longrightarrow> view snap mgr t vs = view snap mgr' t vs"
  by (auto simp: view_def intro!: filter_cong)

end
