(* ===== verification/Ssi.thy ===== *)
theory Ssi
  imports Prelude
begin

text \<open>
  The package \<^verbatim>\<open>internal/isolation\<close> (ssi.go): SIREAD marks, rw-antidependency edges and the
  pivot test of serializable snapshot isolation.

  The tracker stores pointers to transactions and calls back into them; of a transaction it
  uses the identifier, whether it is active, and the two conflict flags it sets. The model
  keeps the identifiers and receives \<open>active\<close> from the caller; setting the flags is part of the
  result of \<open>RecordWrite\<close>.
\<close>

record SSITracker =
  siread :: "(gostring, txn_id goset) gomap"
  ssi_edges :: "(txn_id, txn_id goset) gomap"

definition NewSSITracker :: SSITracker where
  "NewSSITracker = \<lparr>siread = [], ssi_edges = []\<rparr>"

definition readers :: "SSITracker \<Rightarrow> gostring \<Rightarrow> txn_id list" where
  "readers s k = (case go_get (siread s) k of None \<Rightarrow> [] | Some rs \<Rightarrow> rs)"

definition out_edges :: "SSITracker \<Rightarrow> txn_id \<Rightarrow> txn_id list" where
  "out_edges s t = (case go_get (ssi_edges s) t of None \<Rightarrow> [] | Some ws \<Rightarrow> ws)"

definition RecordRead :: "SSITracker \<Rightarrow> txn_id \<Rightarrow> gostring \<Rightarrow> SSITracker" where
  "RecordRead s reader k = s\<lparr>siread := go_put k (List.insert reader (readers s k)) (siread s)\<rparr>"

text \<open>The loop over the readers of the key: the tracker and the transactions whose
  \<^verbatim>\<open>SetInConflict\<close> was called.\<close>

fun record_write_loop ::
  "(txn_id \<Rightarrow> bool) \<Rightarrow> txn_id \<Rightarrow> txn_id list \<Rightarrow> SSITracker \<times> txn_id list \<Rightarrow> SSITracker \<times> txn_id list"
where
  "record_write_loop active w [] acc = acc"
| "record_write_loop active w (r # rs) (s, ins) =
     (if r = w then record_write_loop active w rs (s, ins)
      else if \<not> active r then record_write_loop active w rs (s, ins)
      else record_write_loop active w rs
             (s\<lparr>ssi_edges := go_put r (List.insert w (out_edges s r)) (ssi_edges s)\<rparr>, ins @ [r]))"

text \<open>The tracker, the readers that got the in-flag, and whether the writer got the out-flag.\<close>

definition RecordWrite :: "(txn_id \<Rightarrow> bool) \<Rightarrow> SSITracker \<Rightarrow> txn_id \<Rightarrow> gostring \<Rightarrow> SSITracker \<times> txn_id list \<times> bool" where
  "RecordWrite active s w k =
     (let (s', ins) = record_write_loop active w (readers s k) (s, []) in (s', ins, ins \<noteq> []))"

definition isPivotLocked :: "SSITracker \<Rightarrow> txn_id \<Rightarrow> bool" where
  "isPivotLocked s t =
     (if out_edges s t = [] then False else list_ex (\<lambda>(from, ws). t \<in> set ws) (ssi_edges s))"

text \<open>\<open>True\<close> is the \<^verbatim>\<open>SSIError\<close>.\<close>

definition CheckCommit :: "SSITracker \<Rightarrow> txn_id \<Rightarrow> bool" where
  "CheckCommit s t = isPivotLocked s t"

definition Cleanup :: "SSITracker \<Rightarrow> txn_id \<Rightarrow> SSITracker" where
  "Cleanup s t =
     \<lparr>siread = map (\<lambda>(k, rs). (k, removeAll t rs)) (siread s),
      ssi_edges = map (\<lambda>(from, ws). (from, removeAll t ws)) (go_del t (ssi_edges s))\<rparr>"

definition Ssi_Reset :: "SSITracker \<Rightarrow> SSITracker" where
  "Ssi_Reset s = NewSSITracker"

section \<open>The abstract conflict graph\<close>

text \<open>The tracker implements two relations: who has read a key, and the antidependencies.\<close>

definition reads :: "SSITracker \<Rightarrow> (gostring \<times> txn_id) set" where
  "reads s = {(k, r). r \<in> set (readers s k)}"

definition rw :: "SSITracker \<Rightarrow> (txn_id \<times> txn_id) set" where
  "rw s = {(r, w). w \<in> set (out_edges s r)}"

definition tracker_ok :: "SSITracker \<Rightarrow> bool" where
  "tracker_ok s \<longleftrightarrow> distinct (go_keys (ssi_edges s))"

lemma reads_RecordRead: "reads (RecordRead s r k) = insert (k, r) (reads s)"
  by (auto simp: reads_def readers_def RecordRead_def gomap_simps split: if_splits)

lemma rw_RecordRead [simp]: "rw (RecordRead s r k) = rw s"
  by (simp add: rw_def out_edges_def RecordRead_def)

lemma record_write_loop_spec:
  assumes "record_write_loop active w rs (s, ins) = (s', ins')"
  shows "rw s' = rw s \<union> {r \<in> set rs. r \<noteq> w \<and> active r} \<times> {w}"
    and "set ins' = set ins \<union> {r \<in> set rs. r \<noteq> w \<and> active r}"
    and "siread s' = siread s" and "tracker_ok s \<Longrightarrow> tracker_ok s'"
  using assms
proof (induction rs arbitrary: s ins)
  case (Cons r rs)
  {
    case 1
    with Cons.IH(1) show ?case
      by (auto simp: rw_def out_edges_def gomap_simps split: if_splits)
  next
    case 2
    with Cons.IH(2) show ?case by (auto split: if_splits)
  next
    case 3
    with Cons.IH(3) show ?case by (auto split: if_splits)
  next
    case 4
    have "tracker_ok (s\<lparr>ssi_edges := go_put r ws (ssi_edges s)\<rparr>)" for ws
      using 4(1) by (simp add: tracker_ok_def distinct_go_put)
    with 4 show ?case by (auto split: if_splits intro: Cons.IH(4))
  }
qed simp_all

lemma RecordWrite_spec:
  assumes "RecordWrite active s w k = (s', ins, out)"
  shows "rw s' = rw s \<union> {r. (k, r) \<in> reads s \<and> r \<noteq> w \<and> active r} \<times> {w}"
    and "set ins = {r. (k, r) \<in> reads s \<and> r \<noteq> w \<and> active r}"
    and "out \<longleftrightarrow> (\<exists>r. (k, r) \<in> reads s \<and> r \<noteq> w \<and> active r)"
    and "reads s' = reads s" and "tracker_ok s \<Longrightarrow> tracker_ok s'"
proof -
  obtain s1 ins1 where run: "record_write_loop active w (readers s k) (s, []) = (s1, ins1)" by fastforce
  with assms have eq: "s' = s1" "ins = ins1" "out \<longleftrightarrow> set ins1 \<noteq> {}" by (auto simp: RecordWrite_def)
  note spec = record_write_loop_spec [OF run]
  show "rw s' = rw s \<union> {r. (k, r) \<in> reads s \<and> r \<noteq> w \<and> active r} \<times> {w}"
    and "set ins = {r. (k, r) \<in> reads s \<and> r \<noteq> w \<and> active r}"
    and "out \<longleftrightarrow> (\<exists>r. (k, r) \<in> reads s \<and> r \<noteq> w \<and> active r)"
    unfolding eq spec(1,2) by (auto simp: reads_def)
  show "reads s' = reads s" using spec(3) by (simp add: eq reads_def readers_def)
  show "tracker_ok s \<Longrightarrow> tracker_ok s'" using spec(4) by (simp add: eq)
qed

lemma isPivotLocked_iff:
  assumes "tracker_ok s"
  shows "isPivotLocked s t \<longleftrightarrow> (\<exists>w. (t, w) \<in> rw s) \<and> (\<exists>r. (r, t) \<in> rw s)"
proof -
  have "list_ex (\<lambda>(from, ws). t \<in> set ws) (ssi_edges s) \<longleftrightarrow> (\<exists>r. (r, t) \<in> rw s)"
    using assms by (force simp: list_ex_iff rw_def out_edges_def tracker_ok_def dest: map_of_SomeD split: option.splits)
  moreover have "out_edges s t \<noteq> [] \<longleftrightarrow> (\<exists>w. (t, w) \<in> rw s)"
    by (cases "out_edges s t") (auto simp: rw_def)
  ultimately show ?thesis by (auto simp: isPivotLocked_def)
qed

lemma Cleanup_spec:
  "rw (Cleanup s t) = {(r, w) \<in> rw s. r \<noteq> t \<and> w \<noteq> t}"
  "reads (Cleanup s t) = {(k, r) \<in> reads s. r \<noteq> t}"
  "tracker_ok s \<Longrightarrow> tracker_ok (Cleanup s t)"
proof -
  have get: "go_get (map (\<lambda>(k, rs). (k, removeAll t rs)) m) k = map_option (removeAll t) (go_get m k)"
    for m :: "('a \<times> txn_id list) list" and k
    by (induction m) auto
  show "rw (Cleanup s t) = {(r, w) \<in> rw s. r \<noteq> t \<and> w \<noteq> t}"
    by (auto simp: rw_def out_edges_def Cleanup_def get gomap_simps split: option.splits if_splits)
  show "reads (Cleanup s t) = {(k, r) \<in> reads s. r \<noteq> t}"
    by (auto simp: reads_def readers_def Cleanup_def get split: option.splits)
  show "tracker_ok s \<Longrightarrow> tracker_ok (Cleanup s t)"
    by (simp add: tracker_ok_def Cleanup_def comp_def case_prod_unfold distinct_go_del)
qed

section \<open>Histories\<close>

text \<open>A history of calls on the tracker. A write carries the activity test of its moment.\<close>

datatype ssi_event =
  EvRead txn_id gostring
| EvWrite txn_id gostring "txn_id \<Rightarrow> bool"
| EvCleanup txn_id

fun ssi_apply :: "ssi_event \<Rightarrow> SSITracker \<Rightarrow> SSITracker" where
  "ssi_apply (EvRead t k) s = RecordRead s t k"
| "ssi_apply (EvWrite t k active) s = fst (RecordWrite active s t k)"
| "ssi_apply (EvCleanup t) s = Cleanup s t"

abbreviation ssi_run :: "ssi_event list \<Rightarrow> SSITracker" where
  "ssi_run h \<equiv> fold ssi_apply h NewSSITracker"

text \<open>What the calls mean, read off the history: \<open>r\<close> has a mark on \<open>k\<close> when it read \<open>k\<close> and was
  not cleaned up since; \<open>r\<close> precedes \<open>w\<close> when \<open>w\<close> wrote a key on which the active \<open>r\<close> had a mark,
  and neither was cleaned up since.\<close>

definition read_mark :: "ssi_event list \<Rightarrow> gostring \<Rightarrow> txn_id \<Rightarrow> bool" where
  "read_mark h k r \<longleftrightarrow> (\<exists>h1 h2. h = h1 @ EvRead r k # h2 \<and> EvCleanup r \<notin> set h2)"

definition antidep :: "ssi_event list \<Rightarrow> txn_id \<Rightarrow> txn_id \<Rightarrow> bool" where
  "antidep h r w \<longleftrightarrow> (\<exists>h1 k active h2. h = h1 @ EvWrite w k active # h2 \<and>
      read_mark h1 k r \<and> r \<noteq> w \<and> active r \<and> EvCleanup r \<notin> set h2 \<and> EvCleanup w \<notin> set h2)"

lemma snoc_split: "h @ [e] = h1 @ x # h2 \<longleftrightarrow> (h2 = [] \<and> h = h1 \<and> e = x) \<or> (\<exists>h3. h2 = h3 @ [e] \<and> h = h1 @ x # h3)"
  by (cases h2 rule: rev_cases) auto

lemma read_mark_simps [simp]:
  "\<not> read_mark [] k r"
  "read_mark (h @ [e]) k r \<longleftrightarrow> e = EvRead r k \<or> read_mark h k r \<and> e \<noteq> EvCleanup r"
proof -
  show "\<not> read_mark [] k r" by (simp add: read_mark_def)
  show "read_mark (h @ [e]) k r \<longleftrightarrow> e = EvRead r k \<or> read_mark h k r \<and> e \<noteq> EvCleanup r"
    unfolding read_mark_def snoc_split by (auto 0 3)
qed

definition conflict_at :: "txn_id \<Rightarrow> txn_id \<Rightarrow> ssi_event list \<Rightarrow> ssi_event \<Rightarrow> bool" where
  "conflict_at r w h e \<longleftrightarrow> (\<exists>k active. e = EvWrite w k active \<and> read_mark h k r \<and> r \<noteq> w \<and> active r)"

lemma antidep_alt:
  "antidep h r w \<longleftrightarrow> (\<exists>h1 e h2. h = h1 @ e # h2 \<and> conflict_at r w h1 e \<and> EvCleanup r \<notin> set h2 \<and> EvCleanup w \<notin> set h2)"
  unfolding antidep_def conflict_at_def by blast

lemma antidep_simps [simp]:
  "\<not> antidep [] r w"
  "antidep (h @ [e]) r w \<longleftrightarrow> conflict_at r w h e \<or> antidep h r w \<and> e \<noteq> EvCleanup r \<and> e \<noteq> EvCleanup w"
proof -
  show "\<not> antidep [] r w" by (simp add: antidep_def)
  show "antidep (h @ [e]) r w \<longleftrightarrow> conflict_at r w h e \<or> antidep h r w \<and> e \<noteq> EvCleanup r \<and> e \<noteq> EvCleanup w"
    unfolding antidep_alt snoc_split by (auto 0 4)
qed

lemma ssi_run_refines:
  "tracker_ok (ssi_run h) \<and> reads (ssi_run h) = {(k, r). read_mark h k r} \<and>
   rw (ssi_run h) = {(r, w). antidep h r w}"
proof (induction h rule: rev_induct)
  case Nil
  then show ?case
    by (auto simp: NewSSITracker_def tracker_ok_def reads_def rw_def readers_def out_edges_def)
next
  case (snoc e h)
  let ?s = "ssi_run h"
  from snoc have ok: "tracker_ok ?s" and rd: "reads ?s = {(k, r). read_mark h k r}"
    and ed: "rw ?s = {(r, w). antidep h r w}" by auto
  show ?case
  proof (cases e)
    case (EvRead t k)
    then have "tracker_ok (ssi_run (h @ [e]))" using ok by (simp add: tracker_ok_def RecordRead_def)
    with EvRead rd ed show ?thesis by (auto simp: reads_RecordRead conflict_at_def)
  next
    case (EvWrite t k active)
    obtain s' ins out where "RecordWrite active ?s t k = (s', ins, out)" by (rule prod_cases3)
    with RecordWrite_spec [OF this] EvWrite ok rd ed show ?thesis by (auto simp: conflict_at_def)
  next
    case (EvCleanup t)
    with Cleanup_spec(1,2) [of ?s t] Cleanup_spec(3) [OF ok] rd ed show ?thesis by (auto simp: conflict_at_def)
  qed
qed

text \<open>C4. After any sequence of reads, writes and cleanups, \<open>CheckCommit\<close> refuses a transaction
  exactly when it is a pivot of the conflict graph that the history defines: it read a key that
  a transaction still tracked wrote afterwards, and it wrote a key that an active transaction
  still tracked had read before. The tracker neither invents nor loses an antidependency.\<close>

theorem CheckCommit_iff_pivot:
  "CheckCommit (ssi_run h) t \<longleftrightarrow> (\<exists>w. antidep h t w) \<and> (\<exists>r. antidep h r t)"
  using ssi_run_refines [of h] by (auto simp: CheckCommit_def isPivotLocked_iff)

text \<open>The conflict is lost when the first transaction ends before the second one writes:
  \<open>Cleanup\<close> at its commit drops its SIREAD marks, so neither is ever refused although the
  history is the same write skew.\<close>

lemma skew_missed_after_commit:
  "let s = ssi_run [EvRead 1 ''x'', EvRead 2 ''y'', EvWrite 1 ''y'' (\<lambda>_. True)];
       s' = ssi_apply (EvWrite 2 ''x'' (\<lambda>t. t \<noteq> 1)) (ssi_apply (EvCleanup 1) s)
   in \<not> CheckCommit s 1 \<and> \<not> CheckCommit s' 2"
  by (simp add: Let_def NewSSITracker_def RecordRead_def RecordWrite_def Cleanup_def CheckCommit_def
      isPivotLocked_def readers_def out_edges_def)

text \<open>A read of a key that another active transaction has already written makes no edge.\<close>

lemma read_after_write_no_edge: "\<not> antidep [EvWrite w k active, EvRead r k] r' w'"
  by (auto simp: antidep_def read_mark_def Cons_eq_append_conv)

end
