(* ===== verification/Wal_Record.thy ===== *)
theory Wal_Record
  imports Values
begin

text \<open>
  Log records of the package \<^verbatim>\<open>internal/wal\<close> (lsn.go, record.go): the record, its binary
  encoding with a length and a CRC-32, and its decoder.

  The checksum of Go's \<^verbatim>\<open>hash/crc32\<close> is modelled bit by bit. The \<^verbatim>\<open>encoding/gob\<close> codec of the
  active transaction table is a parameter \<open>g\<close>, because its output depends on the type
  identifiers of the running process; what the code relies on is \<open>gob_ok\<close>. A nil and an empty
  byte byte_slice are not told apart by this code, so both are the empty list.
\<close>

unbundle bit_operations_syntax

abbreviation (input) LSNInvalid :: lsn where "LSNInvalid \<equiv> 0"

section \<open>The checksum\<close>

definition crc_step :: "u32 \<Rightarrow> u32" where
  "crc_step c = (if bit c 0 then drop_bit 1 c XOR 0xEDB88320 else drop_bit 1 c)"

definition crc_update :: "u32 \<Rightarrow> u8 \<Rightarrow> u32" where
  "crc_update c b = (crc_step ^^ 8) (c XOR ucast b)"

definition ChecksumIEEE :: "bytes \<Rightarrow> u32" where
  "ChecksumIEEE b = NOT (foldl crc_update (NOT 0) b)"

text \<open>The check value of the algorithm's published description.\<close>

lemmas crc_step_numeral = crc_step_def [of "numeral n" for n]

lemma funpow_8: "(f ^^ 8) x = f (f (f (f (f (f (f (f x)))))))"
  by (simp add: numeral_eq_Suc)

lemma ChecksumIEEE_check: "ChecksumIEEE (string_bytes ''123456789'') = 0xCBF43926"
proof -
  have run: "foldl crc_update 0xFFFFFFFF [0x31, 0x32, 0x33, 0x34, 0x35, 0x36, 0x37, 0x38, 0x39] = 0x340BC6D9"
    by (simp add: crc_update_def funpow_8 crc_step_numeral del: funpow.simps)
  have bytes: "string_bytes ''123456789'' = [0x31, 0x32, 0x33, 0x34, 0x35, 0x36, 0x37, 0x38, 0x39]"
    by (simp add: string_bytes_def byte_of_char_def)
  have start: "(NOT 0 :: u32) = 0xFFFFFFFF" by simp
  show ?thesis unfolding ChecksumIEEE_def bytes start run by simp
qed

section \<open>Records\<close>

text \<open>\<^verbatim>\<open>RecordType\<close> is a byte with seven named values.\<close>

type_synonym RecordType = u8

abbreviation (input) RecordBegin :: RecordType where "RecordBegin \<equiv> 1"
abbreviation (input) RecordWrite :: RecordType where "RecordWrite \<equiv> 2"
abbreviation (input) RecordCommit :: RecordType where "RecordCommit \<equiv> 3"
abbreviation (input) RecordAbort :: RecordType where "RecordAbort \<equiv> 4"
abbreviation (input) RecordCLR :: RecordType where "RecordCLR \<equiv> 5"
abbreviation (input) RecordCheckpointBegin :: RecordType where "RecordCheckpointBegin \<equiv> 6"
abbreviation (input) RecordCheckpointEnd :: RecordType where "RecordCheckpointEnd \<equiv> 7"

record ATTEntry =
  LastLSN :: lsn
  FirstLSN :: lsn
  att_Status :: u8

type_synonym ATT = "(txn_id, ATTEntry) gomap"

record LogRecord =
  LSN :: lsn
  r_Type :: RecordType
  TxnID :: txn_id
  PrevLSN :: lsn
  UndoNextLSN :: lsn
  r_Op :: u8
  r_Table :: gostring
  r_Key :: gostring
  Before :: bytes
  After :: bytes
  r_ATT :: ATT
  BeginLSN :: lsn
  Timestamp :: u64

definition zero_record :: LogRecord where
  "zero_record = \<lparr>LSN = 0, r_Type = 0, TxnID = 0, PrevLSN = 0, UndoNextLSN = 0, r_Op = 0, r_Table = [],
     r_Key = [], Before = [], After = [], r_ATT = [], BeginLSN = 0, Timestamp = 0\<rparr>"

text \<open>The gob codec, and what the code relies on.\<close>

record gob =
  gob_encode :: "ATT \<Rightarrow> bytes"
  gob_decode :: "bytes \<Rightarrow> ATT option"

definition gob_ok :: "gob \<Rightarrow> bool" where
  "gob_ok g \<longleftrightarrow> (\<forall>att. gob_decode g (gob_encode g att) = Some att)"

abbreviation (input) hdrFixed :: nat where "hdrFixed \<equiv> 33"

definition encode_record_body :: "gob \<Rightarrow> LogRecord \<Rightarrow> bytes" where
  "encode_record_body g rec =
     (if r_Type rec = RecordBegin then le_bytes 8 (Timestamp rec)
      else if r_Type rec = RecordWrite then
        le_bytes 8 (UndoNextLSN rec) @ [r_Op rec] @
        le_bytes 2 (of_nat (length (r_Table rec)) :: u16) @ le_bytes 2 (of_nat (length (r_Key rec)) :: u16) @
        le_bytes 4 (of_nat (length (Before rec)) :: u32) @ le_bytes 4 (of_nat (length (After rec)) :: u32) @
        string_bytes (r_Table rec) @ string_bytes (r_Key rec) @ Before rec @ After rec
      else if r_Type rec = RecordCommit \<or> r_Type rec = RecordAbort then le_bytes 8 (PrevLSN rec)
      else if r_Type rec = RecordCLR then le_bytes 8 (UndoNextLSN rec)
      else if r_Type rec = RecordCheckpointBegin then
        (let gobBytes = gob_encode g (r_ATT rec)
         in le_bytes 4 (of_nat (length gobBytes) :: u32) @ gobBytes)
      else if r_Type rec = RecordCheckpointEnd then le_bytes 8 (BeginLSN rec)
      else [])"

definition record_payload :: "gob \<Rightarrow> LogRecord \<Rightarrow> bytes" where
  "record_payload g rec =
     [r_Type rec] @ le_bytes 8 (LSN rec) @ le_bytes 8 (TxnID rec) @ le_bytes 8 (PrevLSN rec) @ encode_record_body g rec"

definition encodeRecord :: "gob \<Rightarrow> LogRecord \<Rightarrow> bytes" where
  "encodeRecord g rec =
     (let payload = record_payload g rec
      in le_bytes 4 (of_nat (8 + length payload) :: u32) @ le_bytes 4 (ChecksumIEEE payload) @ payload)"

text \<open>The errors of the decoder; \<open>RecPanic\<close> is a byte_slice expression out of range.\<close>

datatype wal_error =
  RecTooShort | RecClaims | CRCMismatch | BodyTooShort | PayloadTruncated | GobDecode | UnknownRecordType | RecPanic

definition byte_slice :: "bytes \<Rightarrow> nat \<Rightarrow> nat \<Rightarrow> bytes" where
  "byte_slice b i j = take (j - i) (drop i b)"

abbreviation (input) u64_at :: "bytes \<Rightarrow> nat \<Rightarrow> u64" where "u64_at b i \<equiv> le_word (byte_slice b i (i + 8))"
abbreviation (input) u32_at :: "bytes \<Rightarrow> nat \<Rightarrow> u32" where "u32_at b i \<equiv> le_word (byte_slice b i (i + 4))"
abbreviation (input) u16_at :: "bytes \<Rightarrow> nat \<Rightarrow> u16" where "u16_at b i \<equiv> le_word (byte_slice b i (i + 2))"

definition decode_write_body :: "LogRecord \<Rightarrow> bytes \<Rightarrow> wal_error + LogRecord" where
  "decode_write_body rec body =
     (if length body < 21 then Inl BodyTooShort
      else let tableLen = unat (u16_at body 9);
               keyLen = unat (u16_at body 11);
               beforeLen = unat (u32_at body 13);
               afterLen = unat (u32_at body 17);
               p0 = 21; p1 = p0 + tableLen; p2 = p1 + keyLen; p3 = p2 + beforeLen
           in if p3 + afterLen > length body then Inl PayloadTruncated
              else Inr (rec\<lparr>UndoNextLSN := u64_at body 0, r_Op := body ! 8,
                            r_Table := bytes_string (byte_slice body p0 p1), r_Key := bytes_string (byte_slice body p1 p2),
                            Before := byte_slice body p2 p3, After := byte_slice body p3 (p3 + afterLen)\<rparr>))"

definition decode_record_body :: "gob \<Rightarrow> LogRecord \<Rightarrow> bytes \<Rightarrow> wal_error + LogRecord" where
  "decode_record_body g rec body =
     (if r_Type rec = RecordBegin then
        if length body < 8 then Inl BodyTooShort else Inr (rec\<lparr>Timestamp := u64_at body 0\<rparr>)
      else if r_Type rec = RecordWrite then decode_write_body rec body
      else if r_Type rec = RecordCommit \<or> r_Type rec = RecordAbort then
        if length body < 8 then Inl BodyTooShort else Inr rec
      else if r_Type rec = RecordCLR then
        if length body < 8 then Inl BodyTooShort else Inr (rec\<lparr>UndoNextLSN := u64_at body 0\<rparr>)
      else if r_Type rec = RecordCheckpointBegin then
        if length body < 4 then Inl BodyTooShort
        else let gobLen = unat (u32_at body 0)
             in if 4 + gobLen > length body then Inl PayloadTruncated
                else (case gob_decode g (byte_slice body 4 (4 + gobLen)) of
                        None \<Rightarrow> Inl GobDecode
                      | Some att \<Rightarrow> Inr (rec\<lparr>r_ATT := att\<rparr>))
      else if r_Type rec = RecordCheckpointEnd then
        if length body < 8 then Inl BodyTooShort else Inr (rec\<lparr>BeginLSN := u64_at body 0\<rparr>)
      else Inl UnknownRecordType)"

definition decodeRecord :: "gob \<Rightarrow> bytes \<Rightarrow> wal_error + LogRecord" where
  "decodeRecord g b =
     (if length b < hdrFixed then Inl RecTooShort
      else let totalLen = unat (u32_at b 0)
           in if totalLen > length b then Inl RecClaims
              else if totalLen < 8 then Inl RecPanic
              else if u32_at b 4 \<noteq> ChecksumIEEE (byte_slice b 8 totalLen) then Inl CRCMismatch
              else if totalLen < 33 then Inl RecPanic
              else decode_record_body g
                     (zero_record\<lparr>r_Type := b ! 8, LSN := u64_at b 9, TxnID := u64_at b 17, PrevLSN := u64_at b 25\<rparr>)
                     (byte_slice b 33 totalLen))"

section \<open>The round trip\<close>

text \<open>Only the fields that belong to the type of a record are stored.\<close>

definition stored_fields :: "LogRecord \<Rightarrow> LogRecord" where
  "stored_fields rec =
     (let r = zero_record\<lparr>r_Type := r_Type rec, LSN := LSN rec, TxnID := TxnID rec, PrevLSN := PrevLSN rec\<rparr>
      in if r_Type rec = RecordBegin then r\<lparr>Timestamp := Timestamp rec\<rparr>
         else if r_Type rec = RecordWrite then
           r\<lparr>UndoNextLSN := UndoNextLSN rec, r_Op := r_Op rec, r_Table := r_Table rec, r_Key := r_Key rec,
             Before := Before rec, After := After rec\<rparr>
         else if r_Type rec = RecordCLR then r\<lparr>UndoNextLSN := UndoNextLSN rec\<rparr>
         else if r_Type rec = RecordCheckpointBegin then r\<lparr>r_ATT := r_ATT rec\<rparr>
         else if r_Type rec = RecordCheckpointEnd then r\<lparr>BeginLSN := BeginLSN rec\<rparr>
         else r)"

text \<open>A record that fits its length fields.\<close>

definition fits :: "gob \<Rightarrow> LogRecord \<Rightarrow> bool" where
  "fits g rec \<longleftrightarrow> r_Type rec \<in> {1, 2, 3, 4, 5, 6, 7} \<and> 8 + length (record_payload g rec) < 2 ^ 32 \<and>
     length (r_Table rec) < 2 ^ 16 \<and> length (r_Key rec) < 2 ^ 16"

lemma unat_of_nat_bound [simp]: "n < 2 ^ LENGTH('a) \<Longrightarrow> unat (of_nat n :: 'a::len word) = n"
  by (simp add: unat_of_nat)

lemma length_encodeRecord: "length (encodeRecord g rec) = 8 + length (record_payload g rec)"
  by (simp add: encodeRecord_def Let_def)

lemma length_record_payload: "length (record_payload g rec) = 25 + length (encode_record_body g rec)"
  by (simp add: record_payload_def)

lemma decode_encode_record_body:
  assumes "gob_ok g" and "fits g rec" and "r = zero_record\<lparr>r_Type := r_Type rec, LSN := LSN rec, TxnID := TxnID rec, PrevLSN := PrevLSN rec\<rparr>"
  shows "decode_record_body g r (encode_record_body g rec) = Inr (stored_fields rec)"
proof -
  have len: "33 + length (encode_record_body g rec) < 2 ^ 32" 
    and tab: "length (r_Table rec) < 2 ^ 16" "length (r_Key rec) < 2 ^ 16"
    using assms(2) by (auto simp: fits_def length_record_payload)
  consider "r_Type rec = 1" | "r_Type rec = 2" | "r_Type rec = 3" | "r_Type rec = 4" | "r_Type rec = 5" | "r_Type rec = 6" | "r_Type rec = 7"
    using assms(2) by (auto simp: fits_def)
  then show ?thesis
  proof cases
    case 2
    then have "length (Before rec) < 2 ^ 32" "length (After rec) < 2 ^ 32"
      using len by (auto simp: encode_record_body_def)
    with 2 tab show ?thesis
      by (simp add: decode_record_body_def encode_record_body_def stored_fields_def decode_write_body_def assms(3)
          Let_def byte_slice_def nth_append drop_Cons')
  next
    case 6
    then have "length (gob_encode g (r_ATT rec)) < 2 ^ 32"
      using len by (auto simp: encode_record_body_def Let_def)
    with 6 assms(1) show ?thesis
      by (simp add: decode_record_body_def encode_record_body_def stored_fields_def assms(3) Let_def byte_slice_def gob_ok_def)
  qed (simp_all add: decode_record_body_def encode_record_body_def stored_fields_def assms(3) byte_slice_def)
qed

lemma decode_encode_record:
  assumes "gob_ok g" and "fits g rec"
  shows "decodeRecord g (encodeRecord g rec) = Inr (stored_fields rec)"
proof -
  have len: "8 + length (record_payload g rec) < 2 ^ LENGTH(32)" using assms(2) by (simp add: fits_def)
  have total: "unat (u32_at (encodeRecord g rec) 0) = 8 + length (record_payload g rec)"
    using unat_of_nat_bound [OF len] by (simp add: encodeRecord_def Let_def byte_slice_def)
  have crc: "u32_at (encodeRecord g rec) 4 = ChecksumIEEE (byte_slice (encodeRecord g rec) 8 (8 + length (record_payload g rec)))"
    by (simp add: encodeRecord_def Let_def byte_slice_def)
  have fields: "encodeRecord g rec ! 8 = r_Type rec" "u64_at (encodeRecord g rec) 9 = LSN rec"
    "u64_at (encodeRecord g rec) 17 = TxnID rec" "u64_at (encodeRecord g rec) 25 = PrevLSN rec"
    "byte_slice (encodeRecord g rec) 33 (8 + length (record_payload g rec)) = encode_record_body g rec"
    by (simp_all add: encodeRecord_def record_payload_def Let_def byte_slice_def nth_append drop_Cons')
  show ?thesis
    using decode_encode_record_body [OF assms refl] total crc fields
    by (simp add: decodeRecord_def Let_def length_encodeRecord length_record_payload)
qed

section \<open>Corruption\<close>

lemma xor_cancel: "(a::'a::len word) XOR c = b XOR c \<longleftrightarrow> a = b" "c XOR a = c XOR b \<longleftrightarrow> a = b"
  by (auto simp: bit_eq_iff bit_xor_iff)

lemma crc_step_top: "bit (crc_step c) 31 = bit c 0"
  using bit_imp_le_length [of c 32] by (auto simp: crc_step_def bit_simps)

lemma crc_step_inj: "crc_step c = crc_step d \<Longrightarrow> c = d"
proof (rule bit_word_eqI)
  fix n assume eq: "crc_step c = crc_step d" and n: "n < LENGTH(32)"
  have "bit c 0 = bit d 0" using crc_step_top [of c] crc_step_top [of d] eq by simp
  then have "drop_bit 1 c = drop_bit 1 d"
    using eq by (auto simp: crc_step_def xor_cancel split: if_splits)
  then have "bit c (Suc m) = bit d (Suc m)" for m
    by (metis bit_drop_bit_eq comp_apply plus_1_eq_Suc)
  with \<open>bit c 0 = bit d 0\<close> show "bit c n = bit d n" by (cases n) auto
qed

lemma crc_update_inj: "crc_update c b = crc_update d b' \<longleftrightarrow> c XOR ucast b = d XOR ucast b'"
proof -
  have "inj (crc_step ^^ n)" for n by (rule inj_fn) (auto intro: injI crc_step_inj)
  then show ?thesis by (auto simp: crc_update_def dest: injD)
qed

lemma ucast_byte_inj: "(ucast b :: u32) = ucast b' \<longleftrightarrow> b = (b' :: u8)"
proof
  assume "(ucast b :: u32) = ucast b'"
  then have "(ucast (ucast b :: u32) :: u8) = ucast (ucast b' :: u32)" by simp
  then show "b = b'" by (simp add: ucast_up_ucast_id is_up)
qed simp

lemma foldl_crc_inj: "foldl crc_update c bs = foldl crc_update d bs \<longleftrightarrow> c = d"
  by (induction bs arbitrary: c d) (auto simp: crc_update_inj xor_cancel)

lemma checksum_byte_change: "ChecksumIEEE (xs @ b # ys) = ChecksumIEEE (xs @ b' # ys) \<longleftrightarrow> b = b'"
proof -
  have "ChecksumIEEE (xs @ b # ys) = ChecksumIEEE (xs @ b' # ys) \<longleftrightarrow>
      crc_update (foldl crc_update (NOT 0) xs) b = crc_update (foldl crc_update (NOT 0) xs) b'"
    by (simp add: ChecksumIEEE_def foldl_crc_inj)
  also have "\<dots> \<longleftrightarrow> (ucast b :: u32) = ucast b'"
    by (simp add: crc_update_inj xor_cancel)
  also have "\<dots> \<longleftrightarrow> b = b'"
    by (rule ucast_byte_inj)
  finally show ?thesis .
qed

lemma bit_le_word:
  "bit (le_word bs :: 'a::len word) n \<longleftrightarrow> n < LENGTH('a) \<and> n div 8 < length bs \<and> bit (bs ! (n div 8)) (n mod 8)"
proof (induction bs arbitrary: n)
  case (Cons b bs)
  have byte: "\<not> bit b m" if "8 \<le> m" for m using that bit_imp_le_length [of b m] by auto
  show ?case
  proof (cases "n < 8")
    case True
    then show ?thesis by (simp add: bit_simps Cons.IH)
  next
    case False
    then obtain m where n: "n = m + 8" by (metis add.commute le_Suc_ex linorder_not_less)
    then have "n div 8 = Suc (m div 8)" "n mod 8 = m mod 8" by auto
    then show ?thesis using byte [of n] n by (auto simp: bit_simps Cons.IH)
  qed
qed simp

lemma le_word_inj:
  assumes "length bs = length cs" and "8 * length bs \<le> LENGTH('a)" and "(le_word bs :: 'a::len word) = le_word cs"
  shows "bs = cs"
proof (rule nth_equalityI)
  fix i assume i: "i < length bs"
  have "bit (bs ! i) k = bit (cs ! i) k" if "k < 8" for k
  proof -
    have "bit (le_word bs :: 'a word) (8 * i + k) = bit (le_word cs :: 'a word) (8 * i + k)" using assms(3) by simp
    moreover have "8 * i + k < LENGTH('a)" using i that assms(2) by linarith
    ultimately show ?thesis using i that assms(1) by (simp add: bit_le_word)
  qed
  then show "bs ! i = cs ! i" by (intro bit_word_eqI) simp
qed (use assms in simp)

lemma byte_slice_update [simp]: "i < a \<or> b \<le> i \<Longrightarrow> byte_slice (xs[i := x]) a b = byte_slice xs a b"
  by (cases "i < a") (auto simp: byte_slice_def drop_update_swap)

lemma byte_slice_update_in: "a \<le> i \<Longrightarrow> i < b \<Longrightarrow> byte_slice (xs[i := x]) a b = (byte_slice xs a b)[i - a := x]"
  by (simp add: byte_slice_def drop_update_swap take_update_swap)

lemma checksum_update:
  assumes "i < length xs" and "xs ! i \<noteq> b"
  shows "ChecksumIEEE (xs[i := b]) \<noteq> ChecksumIEEE xs"
  using checksum_byte_change [of "take i xs" b "drop (Suc i) xs" "xs ! i"] assms
  by (simp add: upd_conv_take_nth_drop id_take_nth_drop [symmetric])

lemma decode_corrupted:
  assumes fit: "fits g rec" and i: "4 \<le> i" "i < length (encodeRecord g rec)" and b: "encodeRecord g rec ! i \<noteq> b"
  shows "decodeRecord g ((encodeRecord g rec)[i := b]) = Inl CRCMismatch"
proof -
  let ?e = "encodeRecord g rec" and ?p = "record_payload g rec"
  have len: "8 + length ?p < 2 ^ LENGTH(32)" using fit by (simp add: fits_def)
  have total: "unat (u32_at ?e 0) = 8 + length ?p"
    using unat_of_nat_bound [OF len] by (simp add: encodeRecord_def Let_def byte_slice_def)
  have crc: "byte_slice ?e 4 8 = le_bytes 4 (ChecksumIEEE ?p)" and payload: "byte_slice ?e 8 (8 + length ?p) = ?p"
    by (simp_all add: encodeRecord_def Let_def byte_slice_def)
  have mismatch: "(le_word (byte_slice (?e[i := b]) 4 8) :: u32) \<noteq> ChecksumIEEE (byte_slice (?e[i := b]) 8 (8 + length ?p))"
  proof (cases "i < 8")
    case True
    then have "le_bytes 4 (ChecksumIEEE ?p) ! (i - 4) = ?e ! i"
      using i True by (auto simp: encodeRecord_def Let_def nth_append)
    then have "(le_bytes 4 (ChecksumIEEE ?p))[i - 4 := b] \<noteq> le_bytes 4 (ChecksumIEEE ?p)"
    proof -
      have "i - 4 < 4" using i True by linarith
      then show ?thesis
        using b \<open>le_bytes 4 (ChecksumIEEE ?p) ! (i - 4) = ?e ! i\<close>
        by (metis nth_list_update_eq length_le_bytes)
    qed
    then have "(le_word ((le_bytes 4 (ChecksumIEEE ?p))[i - 4 := b]) :: u32) \<noteq> le_word (le_bytes 4 (ChecksumIEEE ?p))"
      using le_word_inj [where 'a = 32] by fastforce
    with True i show ?thesis by (simp add: byte_slice_update_in crc payload)
  next
    case False
    then have "?p ! (i - 8) = ?e ! i" by (auto simp: encodeRecord_def Let_def nth_append)
    then have "ChecksumIEEE (?p[i - 8 := b]) \<noteq> ChecksumIEEE ?p"
      using i b False by (intro checksum_update) (auto simp: length_encodeRecord)
    with False i show ?thesis by (simp add: byte_slice_update_in crc payload length_encodeRecord)
  qed
  show ?thesis
    using total mismatch i by (simp add: decodeRecord_def Let_def length_encodeRecord length_record_payload)
qed

lemma decodeRecord_no_panic:
  assumes "hdrFixed \<le> unat (u32_at b 0)"
  shows "decodeRecord g b \<noteq> Inl RecPanic"
  using assms
  by (auto simp: decodeRecord_def decode_record_body_def decode_write_body_def Let_def split: option.splits)

section \<open>A concrete table codec\<close>

text \<open>A codec for the active transaction table that meets \<open>gob_ok\<close>: the entries one after the
  other, each as its identifier, last and first sequence number and status.\<close>

fun plain_encode :: "ATT \<Rightarrow> bytes" where
  "plain_encode [] = []"
| "plain_encode ((t, e) # att) =
     le_bytes 8 t @ le_bytes 8 (LastLSN e) @ le_bytes 8 (FirstLSN e) @ [att_Status e] @ plain_encode att"

fun plain_decode :: "nat \<Rightarrow> bytes \<Rightarrow> ATT option" where
  "plain_decode 0 b = (if b = [] then Some [] else None)"
| "plain_decode (Suc n) b =
     (if b = [] then Some []
      else if length b < 25 then None
      else map_option (Cons (u64_at b 0, \<lparr>LastLSN = u64_at b 8, FirstLSN = u64_at b 16, att_Status = b ! 24\<rparr>))
             (plain_decode n (drop 25 b)))"

definition plain_gob :: gob where
  "plain_gob = \<lparr>gob_encode = plain_encode, gob_decode = (\<lambda>b. plain_decode (length b) b)\<rparr>"

lemma plain_decode_encode: "length att \<le> n \<Longrightarrow> plain_decode n (plain_encode att) = Some att"
proof (induction att arbitrary: n)
  case Nil
  then show ?case by (cases n) auto
next
  case (Cons te att)
  obtain t e where te: "te = (t, e)" by fastforce
  obtain m where n: "n = Suc m" "length att \<le> m" using Cons.prems by (cases n) auto
  show ?case using Cons.IH [OF n(2)] by (simp add: te n byte_slice_def nth_append drop_Cons')
qed

lemma plain_gob_ok: "gob_ok plain_gob"
proof -
  have "length att \<le> length (plain_encode att)" for att by (induction att rule: plain_encode.induct) auto
  then show ?thesis by (simp add: gob_ok_def plain_gob_def plain_decode_encode)
qed

definition sample_write :: LogRecord where
  "sample_write = zero_record\<lparr>LSN := 7, r_Type := RecordWrite, TxnID := 3, PrevLSN := 5, UndoNextLSN := 5, r_Op := 1,
     r_Table := ''t'', r_Key := ''k'', Before := [1, 2], After := [3]\<rparr>"

lemma sample_write_fits: "fits plain_gob sample_write"
  by (simp add: fits_def sample_write_def record_payload_def encode_record_body_def zero_record_def)

section \<open>Properties\<close>

text \<open>C27. Every record of a known type whose names and images fit their length fields decodes to
  itself: the log reader gets back the type, the identifiers, the chain pointers and every field
  that belongs to the type.\<close>

theorem decodeRecord_encodeRecord:
  assumes "gob_ok g" and "fits g rec"
  shows "decodeRecord g (encodeRecord g rec) = Inr (stored_fields rec)"
  using assms by (rule decode_encode_record)

theorem decodeRecord_encodeRecord_witness:
  "gob_ok plain_gob \<and> fits plain_gob sample_write \<and>
   decodeRecord plain_gob (encodeRecord plain_gob sample_write) = Inr sample_write"
  using decodeRecord_encodeRecord [OF plain_gob_ok sample_write_fits] plain_gob_ok sample_write_fits
  by (simp add: stored_fields_def sample_write_def zero_record_def)

text \<open>C28. A record with one corrupted byte anywhere after its length field, in the checksum or in
  the payload, is refused with the checksum error: the CRC-32 detects every such change.\<close>

theorem decodeRecord_detects_corruption:
  assumes "fits g rec" and "4 \<le> i" and "i < length (encodeRecord g rec)" and "encodeRecord g rec ! i \<noteq> b"
  shows "decodeRecord g ((encodeRecord g rec)[i := b]) = Inl CRCMismatch"
  using assms by (rule decode_corrupted)

theorem decodeRecord_detects_corruption_witness:
  "decodeRecord plain_gob ((encodeRecord plain_gob sample_write)[8 := 3]) = Inl CRCMismatch"
proof -
  have "8 < length (encodeRecord plain_gob sample_write)" "encodeRecord plain_gob sample_write ! 8 \<noteq> 3"
    by (simp_all add: encodeRecord_def record_payload_def encode_record_body_def sample_write_def zero_record_def
        Let_def nth_append)
  then show ?thesis using decodeRecord_detects_corruption [OF sample_write_fits, of 8 3] by simp
qed

text \<open>A row key of \<open>2 ^ 16\<close> bytes overflows its length field: the record decodes, with a correct
  checksum, to a write of the empty key.\<close>

lemma long_key_read_back_empty:
  assumes "r_Type rec = RecordWrite" "r_Table rec = []" "length (r_Key rec) = 2 ^ 16" "Before rec = []" "After rec = []"
  shows "\<exists>rec'. decodeRecord g (encodeRecord g rec) = Inr rec' \<and> r_Type rec' = RecordWrite \<and> LSN rec' = LSN rec \<and> r_Key rec' = []"
  using assms
  by (simp add: decodeRecord_def encodeRecord_def record_payload_def encode_record_body_def decode_record_body_def
      decode_write_body_def Let_def byte_slice_def nth_append drop_Cons' bytes_string_def zero_record_def)

end
