(* ===== verification/Wal_Log.thy ===== *)
theory Wal_Log
  imports Wal_Record Catalog "HOL-Library.Sublist"
begin

text \<open>
  The write-ahead log of the package \<^verbatim>\<open>internal/wal\<close>: the manager with its buffer, group flush
  and scan (manager.go), the writer interface (writer.go), checkpoints (checkpoint.go) and
  recovery (recovery.go), with the applier of \<^verbatim>\<open>cmd/server\<close> that redoes operations on the
  catalog.

  The log file is the list of its bytes. Appending is modelled in the code's two steps, the
  assignment of the sequence number and the append to the buffer, which other goroutines can
  separate; \<open>appendRecord\<close> is their composition. A flush gets the outcome of the disk as an
  argument. \<^verbatim>\<open>Flush\<close> waits for the flush goroutine; it gets the outcomes of that goroutine's
  next rounds and is \<open>None\<close> while none of them has covered the awaited number.
\<close>

section \<open>Reading the log file\<close>

text \<open>The loop that \<^verbatim>\<open>scanHighestLSN\<close>, \<^verbatim>\<open>Iterate\<close>, \<^verbatim>\<open>FindLastCheckpoint\<close> and \<^verbatim>\<open>readAllRecordsFrom\<close>
  share: read a length, then a record, and stop at the first that is short or does not decode.\<close>

function scan_records :: "gob \<Rightarrow> bytes \<Rightarrow> LogRecord list" where
  "scan_records g b =
     (if length b < 4 then []
      else let totalLen = unat (u32_at b 0)
           in if totalLen < hdrFixed then []
              else if length b < totalLen then []
              else case decodeRecord g (take totalLen b) of
                     Inl _ \<Rightarrow> []
                   | Inr rec \<Rightarrow> rec # scan_records g (drop totalLen b))"
  by pat_completeness auto
termination scan_records
  by (relation "measure (\<lambda>(g, b). length b)") auto

declare scan_records.simps [simp del]

definition scanHighestLSN :: "gob \<Rightarrow> bytes option \<Rightarrow> lsn" where
  "scanHighestLSN g file =
     (case file of
        None \<Rightarrow> 0
      | Some b \<Rightarrow> foldl (\<lambda>maxLSN rec. if LSN rec > maxLSN then LSN rec else maxLSN) 0 (scan_records g b))"

definition readAllRecordsFrom :: "gob \<Rightarrow> bytes option \<Rightarrow> lsn \<Rightarrow> LogRecord list" where
  "readAllRecordsFrom g file fromLSN =
     (case file of None \<Rightarrow> [] | Some b \<Rightarrow> filter (\<lambda>rec. LSN rec \<ge> fromLSN) (scan_records g b))"

text \<open>The records an iteration hands to its callback, which stops it by returning \<open>False\<close>.\<close>

fun iterate_loop :: "(LogRecord \<Rightarrow> bool) \<Rightarrow> lsn \<Rightarrow> LogRecord list \<Rightarrow> LogRecord list" where
  "iterate_loop fn fromLSN [] = []"
| "iterate_loop fn fromLSN (rec # recs) =
     (if LSN rec \<ge> fromLSN then if \<not> fn rec then [rec] else rec # iterate_loop fn fromLSN recs
      else iterate_loop fn fromLSN recs)"

text \<open>The scan of a flushed batch continues behind a record that does not decode.\<close>

function highestLSNInBytes :: "gob \<Rightarrow> bytes \<Rightarrow> lsn \<Rightarrow> lsn" where
  "highestLSNInBytes g data maxLSN =
     (if length data < hdrFixed then maxLSN
      else let totalLen = unat (u32_at data 0)
           in if totalLen < hdrFixed \<or> totalLen > length data then maxLSN
              else highestLSNInBytes g (drop totalLen data)
                     (case decodeRecord g (take totalLen data) of
                        Inr rec \<Rightarrow> if LSN rec > maxLSN then LSN rec else maxLSN
                      | Inl _ \<Rightarrow> maxLSN))"
  by pat_completeness auto
termination highestLSNInBytes
  by (relation "measure (\<lambda>(g, data, m). length data)") auto

declare highestLSNInBytes.simps [simp del]

section \<open>The manager\<close>

record wal_manager =
  wal_file :: bytes
  wal_buf :: bytes
  nextLSN :: lsn
  flushedLSN :: lsn
  txnLSN :: "txn_id \<Rightarrow> lsn option"

definition OpenManager :: "gob \<Rightarrow> bytes option \<Rightarrow> wal_manager" where
  "OpenManager g file =
     (let f = (case file of None \<Rightarrow> [] | Some b \<Rightarrow> b); maxLSN = scanHighestLSN g (Some f)
      in \<lparr>wal_file = f, wal_buf = [], nextLSN = maxLSN + 1, flushedLSN = maxLSN, txnLSN = Map.empty\<rparr>)"

definition assignLSN :: "wal_manager \<Rightarrow> lsn \<times> wal_manager" where
  "assignLSN w = (nextLSN w + 1 - 1, w\<lparr>nextLSN := nextLSN w + 1\<rparr>)"

definition setTxnLSN :: "txn_id \<Rightarrow> lsn \<Rightarrow> wal_manager \<Rightarrow> wal_manager" where
  "setTxnLSN t l w = w\<lparr>txnLSN := (txnLSN w)(t \<mapsto> l)\<rparr>"

definition append_encoded :: "gob \<Rightarrow> LogRecord \<Rightarrow> wal_manager \<Rightarrow> wal_manager" where
  "append_encoded g rec w = setTxnLSN (TxnID rec) (LSN rec) (w\<lparr>wal_buf := wal_buf w @ encodeRecord g rec\<rparr>)"

definition appendRecord :: "gob \<Rightarrow> LogRecord \<Rightarrow> wal_manager \<Rightarrow> lsn \<times> wal_manager" where
  "appendRecord g rec w =
     (let (l, w1) = assignLSN w; rec' = rec\<lparr>LSN := l\<rparr> in (l, append_encoded g rec' w1))"

text \<open>\<open>DiskFails n\<close>: the write or the sync fails when \<open>n\<close> bytes have reached the file.\<close>

datatype disk = DiskOK | DiskFails nat

definition doFlush :: "gob \<Rightarrow> disk \<Rightarrow> wal_manager \<Rightarrow> wal_manager" where
  "doFlush g d w =
     (if wal_buf w = [] then w
      else let toWrite = wal_buf w; w1 = w\<lparr>wal_buf := []\<rparr>
           in case d of
                DiskOK \<Rightarrow>
                  (let maxLSN = highestLSNInBytes g toWrite 0
                   in w1\<lparr>wal_file := wal_file w @ toWrite,
                         flushedLSN := (if maxLSN > flushedLSN w then maxLSN else flushedLSN w)\<rparr>)
              | DiskFails n \<Rightarrow> w1\<lparr>wal_file := wal_file w @ take n toWrite\<rparr>)"

fun Flush :: "gob \<Rightarrow> disk list \<Rightarrow> lsn \<Rightarrow> wal_manager \<Rightarrow> wal_manager option" where
  "Flush g ds l w =
     (if flushedLSN w \<ge> l then Some w
      else case ds of [] \<Rightarrow> None | d # ds' \<Rightarrow> Flush g ds' l (doFlush g d w))"

declare Flush.simps [simp del]

definition FlushedLSN :: "wal_manager \<Rightarrow> lsn" where
  "FlushedLSN w = flushedLSN w"

definition Wal_Begin :: "gob \<Rightarrow> u64 \<Rightarrow> txn_id \<Rightarrow> wal_manager \<Rightarrow> lsn \<times> wal_manager" where
  "Wal_Begin g now t w =
     appendRecord g (zero_record\<lparr>r_Type := RecordBegin, TxnID := t, PrevLSN := LSNInvalid, Timestamp := now\<rparr>) w"

definition Wal_Write ::
  "gob \<Rightarrow> txn_id \<Rightarrow> lsn \<Rightarrow> u8 \<Rightarrow> gostring \<Rightarrow> gostring \<Rightarrow> bytes \<Rightarrow> bytes \<Rightarrow> wal_manager \<Rightarrow> lsn \<times> wal_manager"
where
  "Wal_Write g t prev op table key before after w =
     appendRecord g (zero_record\<lparr>r_Type := RecordWrite, TxnID := t, PrevLSN := prev, UndoNextLSN := prev, r_Op := op,
                                 r_Table := table, r_Key := key, Before := before, After := after\<rparr>) w"

definition Wal_Commit :: "gob \<Rightarrow> disk list \<Rightarrow> txn_id \<Rightarrow> lsn \<Rightarrow> wal_manager \<Rightarrow> (lsn \<times> wal_manager) option" where
  "Wal_Commit g ds t lastL w =
     (let (l, w1) = appendRecord g (zero_record\<lparr>r_Type := RecordCommit, TxnID := t, PrevLSN := lastL\<rparr>) w
      in map_option (Pair l) (Flush g ds l w1))"

definition Wal_Abort :: "gob \<Rightarrow> txn_id \<Rightarrow> lsn \<Rightarrow> wal_manager \<Rightarrow> lsn \<times> wal_manager" where
  "Wal_Abort g t lastL w = appendRecord g (zero_record\<lparr>r_Type := RecordAbort, TxnID := t, PrevLSN := lastL\<rparr>) w"

definition Wal_CLR :: "gob \<Rightarrow> txn_id \<Rightarrow> lsn \<Rightarrow> lsn \<Rightarrow> wal_manager \<Rightarrow> lsn \<times> wal_manager" where
  "Wal_CLR g t prev undoNext w =
     appendRecord g (zero_record\<lparr>r_Type := RecordCLR, TxnID := t, PrevLSN := prev, UndoNextLSN := undoNext\<rparr>) w"

definition Iterate :: "gob \<Rightarrow> disk \<Rightarrow> lsn \<Rightarrow> (LogRecord \<Rightarrow> bool) \<Rightarrow> wal_manager \<Rightarrow> LogRecord list \<times> wal_manager" where
  "Iterate g d fromLSN fn w =
     (let w1 = doFlush g d w in (iterate_loop fn fromLSN (scan_records g (wal_file w1)), w1))"

definition Wal_Close :: "gob \<Rightarrow> disk \<Rightarrow> wal_manager \<Rightarrow> wal_manager" where
  "Wal_Close g d w = doFlush g d w"

section \<open>Checkpoints\<close>

definition WriteCheckpoint :: "gob \<Rightarrow> disk list \<Rightarrow> ATT \<Rightarrow> wal_manager \<Rightarrow> (lsn \<times> wal_manager) option" where
  "WriteCheckpoint g ds activeTxns w =
     (let (beginLSN, w1) = appendRecord g (zero_record\<lparr>r_Type := RecordCheckpointBegin, r_ATT := activeTxns\<rparr>) w;
          (endLSN, w2) = appendRecord g (zero_record\<lparr>r_Type := RecordCheckpointEnd, BeginLSN := beginLSN\<rparr>) w1
      in map_option (Pair endLSN) (Flush g ds endLSN w2))"

record CheckpointState =
  cp_ATT :: ATT
  cp_EndLSN :: lsn

definition checkpoint_scan ::
  "LogRecord \<Rightarrow> (lsn \<rightharpoonup> ATT) \<times> (lsn \<times> lsn) option \<Rightarrow> (lsn \<rightharpoonup> ATT) \<times> (lsn \<times> lsn) option"
where
  "checkpoint_scan rec st =
     (let (attMap, lastCP) = st
      in if r_Type rec = RecordCheckpointBegin then (attMap(LSN rec \<mapsto> r_ATT rec), lastCP)
         else if r_Type rec = RecordCheckpointEnd then (attMap, Some (LSN rec, BeginLSN rec))
         else (attMap, lastCP))"

definition FindLastCheckpoint :: "gob \<Rightarrow> bytes option \<Rightarrow> CheckpointState" where
  "FindLastCheckpoint g file =
     (case file of
        None \<Rightarrow> \<lparr>cp_ATT = [], cp_EndLSN = LSNInvalid\<rparr>
      | Some b \<Rightarrow>
          (let (attMap, lastCP) = fold checkpoint_scan (scan_records g b) (Map.empty, None)
           in case lastCP of
                None \<Rightarrow> \<lparr>cp_ATT = [], cp_EndLSN = LSNInvalid\<rparr>
              | Some (endLSN, beginLSN) \<Rightarrow>
                  \<lparr>cp_ATT = (case attMap beginLSN of None \<Rightarrow> [] | Some att \<Rightarrow> att), cp_EndLSN = endLSN\<rparr>))"

section \<open>Recovery\<close>

record attEntry =
  lastLSN :: lsn
  firstLSN :: lsn
  a_status :: u8

record RedoOp =
  redo_TxnID :: txn_id
  redo_LSN :: lsn
  redo_Op :: u8
  redo_Table :: gostring
  redo_Key :: gostring
  redo_After :: bytes

record UndoOp =
  undo_TxnID :: txn_id
  undo_LSN :: lsn
  undo_Op :: u8
  undo_Table :: gostring
  undo_Key :: gostring
  undo_Before :: bytes
  undo_PrevLSN :: lsn

record RecoveryResult =
  Committed :: "txn_id goset"
  Aborted :: "txn_id goset"
  RedoOps :: "RedoOp list"
  UndoTxns :: "(txn_id, lsn) gomap"

definition analyse :: "LogRecord \<Rightarrow> (txn_id, attEntry) gomap \<Rightarrow> (txn_id, attEntry) gomap" where
  "analyse rec att =
     (if r_Type rec = RecordBegin then
        (case go_get att (TxnID rec) of
           Some _ \<Rightarrow> att
         | None \<Rightarrow> go_put (TxnID rec) \<lparr>lastLSN = LSN rec, firstLSN = LSN rec, a_status = 0\<rparr> att)
      else if r_Type rec = RecordWrite \<or> r_Type rec = RecordCLR then
        (case go_get att (TxnID rec) of
           Some e \<Rightarrow> go_put (TxnID rec) (e\<lparr>lastLSN := LSN rec\<rparr>) att
         | None \<Rightarrow> go_put (TxnID rec) \<lparr>lastLSN = LSN rec, firstLSN = LSN rec, a_status = 0\<rparr> att)
      else if r_Type rec = RecordCommit then
        (case go_get att (TxnID rec) of
           Some e \<Rightarrow> go_put (TxnID rec) (e\<lparr>lastLSN := LSN rec, a_status := 1\<rparr>) att
         | None \<Rightarrow> att)
      else if r_Type rec = RecordAbort then
        (case go_get att (TxnID rec) of
           Some e \<Rightarrow> go_put (TxnID rec) (e\<lparr>lastLSN := LSN rec, a_status := 2\<rparr>) att
         | None \<Rightarrow> att)
      else att)"

definition seed_att :: "ATT \<Rightarrow> (txn_id, attEntry) gomap" where
  "seed_att att = map (\<lambda>(t, e). (t, \<lparr>lastLSN = LastLSN e, firstLSN = FirstLSN e, a_status = att_Status e\<rparr>)) att"

definition redo_start :: "(txn_id, attEntry) gomap \<Rightarrow> lsn" where
  "redo_start att =
     foldl (\<lambda>redoStart (t, e). if redoStart = LSNInvalid \<or> firstLSN e < redoStart then firstLSN e else redoStart)
       LSNInvalid att"

definition redo_ops :: "(txn_id, attEntry) gomap \<Rightarrow> LogRecord list \<Rightarrow> RedoOp list" where
  "redo_ops att recs =
     map (\<lambda>rec. \<lparr>redo_TxnID = TxnID rec, redo_LSN = LSN rec, redo_Op = r_Op rec, redo_Table = r_Table rec,
                 redo_Key = r_Key rec, redo_After = After rec\<rparr>)
       (filter (\<lambda>rec. r_Type rec = RecordWrite \<and>
          (case go_get att (TxnID rec) of Some e \<Rightarrow> a_status e = 1 | None \<Rightarrow> False)) recs)"

definition RunRecovery :: "gob \<Rightarrow> bytes option \<Rightarrow> RecoveryResult" where
  "RunRecovery g file =
     (let cp = FindLastCheckpoint g file;
          scanFromLSN = (if cp_EndLSN cp \<noteq> LSNInvalid then cp_EndLSN cp else 1);
          att = fold analyse (readAllRecordsFrom g file scanFromLSN) (seed_att (cp_ATT cp));
          redoStart = redo_start att;
          redoOps = (if redoStart \<noteq> LSNInvalid then redo_ops att (readAllRecordsFrom g file redoStart) else [])
      in \<lparr>Committed = map fst (filter (\<lambda>(t, e). a_status e = 1) att),
          Aborted = map fst (filter (\<lambda>(t, e). a_status e = 2) att),
          RedoOps = redoOps,
          UndoTxns = map (\<lambda>(t, e). (t, lastLSN e)) (filter (\<lambda>(t, e). a_status e = 0) att)\<rparr>)"

text \<open>Applying the operations to a storage backend (\<^verbatim>\<open>StorageApplier\<close>), given by its two
  operations.\<close>

fun ApplyRedoOps ::
  "(gostring \<Rightarrow> gostring \<Rightarrow> bytes \<Rightarrow> 's \<Rightarrow> 's) \<Rightarrow> (gostring \<Rightarrow> gostring \<Rightarrow> 's \<Rightarrow> 's) \<Rightarrow> RedoOp list \<Rightarrow> 's \<Rightarrow> 's"
where
  "ApplyRedoOps setr delr [] s = s"
| "ApplyRedoOps setr delr (op # ops) s =
     ApplyRedoOps setr delr ops
       (if redo_Op op = 0 then setr (redo_Table op) (redo_Key op) (redo_After op) s
        else if redo_Op op = 1 then setr (redo_Table op) (redo_Key op) (redo_After op) s
        else if redo_Op op = 2 then delr (redo_Table op) (redo_Key op) s
        else s)"

text \<open>\<open>w\<close> is \<open>None\<close> for the nil writer.\<close>

fun undo_loop ::
  "gob \<Rightarrow> (gostring \<Rightarrow> gostring \<Rightarrow> bytes \<Rightarrow> 's \<Rightarrow> 's) \<Rightarrow> (gostring \<Rightarrow> gostring \<Rightarrow> 's \<Rightarrow> 's) \<Rightarrow> UndoOp list \<Rightarrow>
   's \<times> wal_manager option \<Rightarrow> 's \<times> wal_manager option"
where
  "undo_loop g setr delr [] st = st"
| "undo_loop g setr delr (op # ops) (s, w) =
     undo_loop g setr delr ops
       (if undo_Op op = 0 then delr (undo_Table op) (undo_Key op) s
        else if undo_Op op = 1 \<or> undo_Op op = 2 then setr (undo_Table op) (undo_Key op) (undo_Before op) s
        else s,
        map_option (\<lambda>w. snd (Wal_CLR g (undo_TxnID op) (undo_LSN op) (undo_PrevLSN op) w)) w)"

definition ApplyUndoOps ::
  "gob \<Rightarrow> (gostring \<Rightarrow> gostring \<Rightarrow> bytes \<Rightarrow> 's \<Rightarrow> 's) \<Rightarrow> (gostring \<Rightarrow> gostring \<Rightarrow> 's \<Rightarrow> 's) \<Rightarrow> UndoOp list \<Rightarrow>
   's \<times> wal_manager option \<Rightarrow> 's \<times> wal_manager option"
where
  "ApplyUndoOps g setr delr ops st = undo_loop g setr delr (rev ops) st"

text \<open>The applier of the server, on the catalog.\<close>

definition applier_SetRow :: "gostring \<Rightarrow> gostring \<Rightarrow> bytes \<Rightarrow> Catalog \<Rightarrow> Catalog" where
  "applier_SetRow table key vals c =
     (case Lookup c table of
        None \<Rightarrow> c
      | Some t \<Rightarrow> (case DecodeValues vals of
                    Inl _ \<Rightarrow> c
                  | Inr decoded \<Rightarrow> store_table table (PutRow t key (Some decoded)) c))"

definition applier_DeleteRow :: "gostring \<Rightarrow> gostring \<Rightarrow> Catalog \<Rightarrow> Catalog" where
  "applier_DeleteRow table key c =
     (case Lookup c table of None \<Rightarrow> c | Some t \<Rightarrow> store_table table (snd (DeleteRow t key)) c)"

section \<open>What the reader finds\<close>

abbreviation encode_all :: "gob \<Rightarrow> LogRecord list \<Rightarrow> bytes" where
  "encode_all g recs \<equiv> concat (map (encodeRecord g) recs)"

lemma record_length_field:
  assumes "fits g rec"
  shows "unat (u32_at (encodeRecord g rec @ rest) 0) = length (encodeRecord g rec)"
proof -
  have len: "8 + length (record_payload g rec) < 2 ^ LENGTH(32)" using assms by (simp add: fits_def)
  show "unat (u32_at (encodeRecord g rec @ rest) 0) = length (encodeRecord g rec)"
    using unat_of_nat_bound [OF len] by (simp add: encodeRecord_def Let_def byte_slice_def)
qed

lemma if_less_max: "(if m < x then x else m) = max m (x :: 'a::linorder)"
  by (auto simp: max_def)

lemma record_length_ge [simp]: "\<not> length (encodeRecord g rec) < 33" "\<not> length (encodeRecord g rec) + n < 33"
  "\<not> length (encodeRecord g rec) < 4" "\<not> length (encodeRecord g rec) + n < 4" "encodeRecord g rec \<noteq> []"
  by (auto simp: length_encodeRecord length_record_payload simp flip: length_greater_0_conv)

lemma scan_record:
  assumes "gob_ok g" and "fits g rec"
  shows "scan_records g (encodeRecord g rec @ rest) = stored_fields rec # scan_records g rest"
  using record_length_field [OF assms(2), of rest] decode_encode_record [OF assms]
  by (subst scan_records.simps) (simp add: Let_def)

lemma scan_torn_record:
  assumes "fits g rec" and "n < length (encodeRecord g rec)"
  shows "scan_records g (take n (encodeRecord g rec)) = []"
proof (cases "n < 4")
  case True
  then show ?thesis by (subst scan_records.simps) simp
next
  case False
  then have "byte_slice (take n (encodeRecord g rec)) 0 4 = byte_slice (encodeRecord g rec) 0 4"
    by (simp add: byte_slice_def min_def)
  then show ?thesis
    using record_length_field [OF assms(1), of "[]"] assms(2) by (subst scan_records.simps) (simp add: Let_def)
qed

lemma scan_all:
  assumes "gob_ok g" and "\<forall>rec \<in> set recs. fits g rec"
  shows "scan_records g (encode_all g recs @ rest) = map stored_fields recs @ scan_records g rest"
  using assms(2) by (induction recs) (simp_all add: scan_record [OF assms(1)])

lemma scan_Nil [simp]: "scan_records g [] = []"
  by (subst scan_records.simps) simp

lemma scan_torn:
  assumes "gob_ok g" and "\<forall>rec \<in> set recs. fits g rec"
  shows "prefix (scan_records g (take n (encode_all g recs))) (map stored_fields recs)"
  using assms(2)
proof (induction recs arbitrary: n)
  case (Cons rec recs)
  show ?case
  proof (cases "n < length (encodeRecord g rec)")
    case True
    with Cons.prems show ?thesis by (simp add: scan_torn_record)
  next
    case False
    with Cons.prems Cons.IH [of "n - length (encodeRecord g rec)"] show ?thesis
      by (simp add: scan_record [OF assms(1)])
  qed
qed simp

lemma highest_all:
  assumes "gob_ok g" and "\<forall>rec \<in> set recs. fits g rec"
  shows "highestLSNInBytes g (encode_all g recs) m = foldl max m (map LSN recs)"
  using assms(2)
proof (induction recs arbitrary: m)
  case Nil
  then show ?case by (subst highestLSNInBytes.simps) simp
next
  case (Cons rec recs)
  then have fit: "fits g rec" by simp
  have "highestLSNInBytes g (encode_all g (rec # recs)) m =
      highestLSNInBytes g (encode_all g recs) (max m (LSN (stored_fields rec)))"
    using record_length_field [OF fit, of "encode_all g recs"] decode_encode_record [OF assms(1) fit]
    by (subst highestLSNInBytes.simps) (simp add: Let_def if_less_max)
  with Cons show ?case by (simp add: stored_fields_def Let_def zero_record_def)
qed

lemma scanHighestLSN_eq: "scanHighestLSN g (Some b) = foldl max 0 (map LSN (scan_records g b))"
proof -
  have "foldl (\<lambda>m rec. if LSN rec > m then LSN rec else m) a recs = foldl max a (map LSN recs)" for a recs
    by (induction recs arbitrary: a) (auto simp: max_def)
  then show ?thesis by (simp add: scanHighestLSN_def)
qed

lemma foldl_max_le: "foldl max a xs \<le> b \<longleftrightarrow> a \<le> b \<and> (\<forall>x \<in> set xs. x \<le> (b::'a::linorder))"
  by (induction xs arbitrary: a) auto

lemma foldl_max_less: "foldl max a xs < b \<longleftrightarrow> a < b \<and> (\<forall>x \<in> set xs. x < (b::'a::linorder))"
  by (induction xs arbitrary: a) auto

lemma foldl_max_ge: "x \<in> set xs \<Longrightarrow> x \<le> foldl max a (xs :: 'a::linorder list)"
  using foldl_max_le [of a xs "foldl max a xs"] by simp

section \<open>Histories of the log\<close>

text \<open>A record as the code builds it: only the fields of its type are set.\<close>

definition proper :: "gob \<Rightarrow> LogRecord \<Rightarrow> bool" where
  "proper g rec \<longleftrightarrow> stored_fields rec = rec \<and> fits g rec"

text \<open>A log manager with the records that have a number and are still to be appended to the buffer,
  and the records that were appended, in the order of the buffer. Log calls of any number of
  goroutines take their numbers and append their records in any order, and restarts find the file
  as it was flushed. The guard of an assignment excludes the wrap-around of the 64-bit sequence
  numbers. A flush writes its whole batch, and only while no record that is still to be appended has
  a number below one of the batch: \<open>overtaken_append_not_durable\<close> and \<open>failed_write_acknowledged\<close> below
  are what the code does otherwise.\<close>

inductive wal_hist :: "gob \<Rightarrow> wal_manager \<Rightarrow> LogRecord list \<Rightarrow> LogRecord list \<Rightarrow> bool" for g where
  opened: "wal_hist g (OpenManager g None) [] []"
| assigned: "wal_hist g w todo log \<Longrightarrow> proper g rec \<Longrightarrow> nextLSN w < - 1 \<Longrightarrow> assignLSN w = (l, w') \<Longrightarrow>
     wal_hist g w' (todo @ [rec\<lparr>LSN := l\<rparr>]) log"
| appended: "wal_hist g w (todo1 @ rec # todo2) log \<Longrightarrow> wal_hist g (append_encoded g rec w) (todo1 @ todo2) (log @ [rec])"
| flushed: "wal_hist g w todo log \<Longrightarrow> \<forall>rec \<in> set todo. highestLSNInBytes g (wal_buf w) 0 < LSN rec \<Longrightarrow>
     wal_hist g (doFlush g DiskOK w) todo log"
| restarted: "wal_hist g w todo log \<Longrightarrow>
     wal_hist g (OpenManager g (Some (wal_file w))) [] (scan_records g (wal_file w))"

text \<open>A call of \<^verbatim>\<open>appendRecord\<close> that is not interrupted.\<close>

lemma wal_hist_appendRecord:
  assumes "wal_hist g w todo log" and "proper g rec" and "nextLSN w < - 1" and "appendRecord g rec w = (l, w')"
  shows "wal_hist g w' todo (log @ [rec\<lparr>LSN := l\<rparr>])"
proof -
  obtain l1 w1 where a: "assignLSN w = (l1, w1)" by fastforce
  from wal_hist.appended [of g w1 todo "rec\<lparr>LSN := l1\<rparr>" "[]"] wal_hist.assigned [OF assms(1-3) a]
  show ?thesis using assms(4) by (auto simp: appendRecord_def a)
qed

definition wal_inv :: "gob \<Rightarrow> wal_manager \<Rightarrow> LogRecord list \<Rightarrow> LogRecord list \<Rightarrow> bool" where
  "wal_inv g w todo log \<longleftrightarrow> (\<exists>done pend. log = done @ pend \<and> wal_file w = encode_all g done \<and> wal_buf w = encode_all g pend \<and>
     (\<forall>rec \<in> set (log @ todo). proper g rec \<and> 0 < LSN rec \<and> LSN rec < nextLSN w) \<and>
     (\<forall>rec \<in> set done. LSN rec \<le> flushedLSN w) \<and> (\<forall>rec \<in> set (pend @ todo). flushedLSN w < LSN rec) \<and>
     flushedLSN w < nextLSN w)"

lemma stored_fields_LSN [simp]: "stored_fields (rec\<lparr>LSN := l\<rparr>) = (stored_fields rec)\<lparr>LSN := l\<rparr>"
  by (simp add: stored_fields_def Let_def zero_record_def)

lemma fits_LSN [simp]: "fits g (rec\<lparr>LSN := l\<rparr>) = fits g rec"
  by (simp add: fits_def length_record_payload encode_record_body_def)

lemma proper_LSN: "proper g rec \<Longrightarrow> proper g (rec\<lparr>LSN := l\<rparr>)"
  by (simp add: proper_def)

lemma map_stored_proper: "\<forall>rec \<in> set recs. proper g rec \<Longrightarrow> map stored_fields recs = recs"
  by (simp add: proper_def map_idI)

lemma scan_proper:
  assumes "gob_ok g" and "\<forall>rec \<in> set recs. proper g rec"
  shows "scan_records g (encode_all g recs) = recs"
  using scan_all [OF assms(1), of recs "[]"] map_stored_proper [OF assms(2)] assms(2) by (simp add: proper_def)

lemma word_less_Suc: "(x :: u64) < - 1 \<Longrightarrow> x < x + 1"
proof -
  assume "x < - 1"
  then have "unat x < 2 ^ 64 - 1"
    by (simp add: word_less_nat_alt unsigned_minus_1_eq_mask mask_eq_exp_minus_1)
  then show ?thesis by (simp add: word_less_nat_alt unat_word_ariths(1))
qed

lemma wal_inv_open: "wal_inv g (OpenManager g None) [] []"
proof -
  have "OpenManager g None = \<lparr>wal_file = [], wal_buf = [], nextLSN = 1, flushedLSN = 0, txnLSN = Map.empty\<rparr>"
    by (simp add: OpenManager_def scanHighestLSN_eq)
  then show ?thesis by (auto simp: wal_inv_def)
qed

lemma wal_inv_assigned:
  assumes "wal_inv g w todo log" and "proper g rec" and "nextLSN w < - 1" and "assignLSN w = (l, w')"
  shows "wal_inv g w' (todo @ [rec\<lparr>LSN := l\<rparr>]) log"
proof -
  from assms(1) obtain d p where inv: "log = d @ p" "wal_file w = encode_all g d" "wal_buf w = encode_all g p"
      "\<forall>rec \<in> set (log @ todo). proper g rec \<and> 0 < LSN rec \<and> LSN rec < nextLSN w"
      "\<forall>rec \<in> set d. LSN rec \<le> flushedLSN w" "\<forall>rec \<in> set (p @ todo). flushedLSN w < LSN rec" "flushedLSN w < nextLSN w"
    unfolding wal_inv_def by blast
  have w': "l = nextLSN w" "w' = w\<lparr>nextLSN := nextLSN w + 1\<rparr>" using assms(4) by (auto simp: assignLSN_def)
  have less: "nextLSN w < nextLSN w + 1" by (rule word_less_Suc) fact
  have "0 < nextLSN w" using inv(7) by (meson le_less_trans word_zero_le)
  moreover have "LSN r < nextLSN w + 1" if "r \<in> set (log @ todo)" for r using inv(4) that less by (meson less_trans)
  ultimately have "\<forall>r \<in> set (log @ todo @ [rec\<lparr>LSN := l\<rparr>]). proper g r \<and> 0 < LSN r \<and> LSN r < nextLSN w'"
    using inv(4) less proper_LSN [OF assms(2)] by (auto simp: w')
  moreover have "flushedLSN w < nextLSN w + 1" using inv(7) less by (rule less_trans)
  ultimately show ?thesis
    unfolding wal_inv_def using inv w' by (intro exI [of _ d] exI [of _ p]) auto
qed

lemma wal_inv_appended:
  assumes "wal_inv g w (todo1 @ rec # todo2) log"
  shows "wal_inv g (append_encoded g rec w) (todo1 @ todo2) (log @ [rec])"
proof -
  from assms obtain d p where inv: "log = d @ p" "wal_file w = encode_all g d" "wal_buf w = encode_all g p"
      "\<forall>r \<in> set (log @ todo1 @ rec # todo2). proper g r \<and> 0 < LSN r \<and> LSN r < nextLSN w"
      "\<forall>rec \<in> set d. LSN rec \<le> flushedLSN w" "\<forall>r \<in> set (p @ todo1 @ rec # todo2). flushedLSN w < LSN r" "flushedLSN w < nextLSN w"
    unfolding wal_inv_def by blast
  then show ?thesis
    unfolding wal_inv_def append_encoded_def setTxnLSN_def
    by (intro exI [of _ d] exI [of _ "p @ [rec]"]) auto
qed

lemma wal_inv_flush:
  assumes g: "gob_ok g" and "wal_inv g w todo log" and todo: "\<forall>rec \<in> set todo. highestLSNInBytes g (wal_buf w) 0 < LSN rec"
  shows "wal_inv g (doFlush g DiskOK w) todo log"
proof -
  from assms(2) obtain d p where log: "log = d @ p"
    and inv: "wal_file w = encode_all g d" "wal_buf w = encode_all g p"
      "\<forall>rec \<in> set (log @ todo). proper g rec \<and> 0 < LSN rec \<and> LSN rec < nextLSN w"
      "\<forall>rec \<in> set d. LSN rec \<le> flushedLSN w" "\<forall>rec \<in> set (p @ todo). flushedLSN w < LSN rec" "flushedLSN w < nextLSN w"
    unfolding wal_inv_def by blast
  have "\<forall>rec \<in> set p. fits g rec" using inv(3) by (simp add: log proper_def)
  then have high: "highestLSNInBytes g (encode_all g p) 0 = foldl max 0 (map LSN p)" by (rule highest_all [OF g])
  let ?m = "max (flushedLSN w) (foldl max 0 (map LSN p))"
  have w': "wal_file (doFlush g DiskOK w) = encode_all g log" "wal_buf (doFlush g DiskOK w) = []"
    "nextLSN (doFlush g DiskOK w) = nextLSN w" "flushedLSN (doFlush g DiskOK w) = ?m"
    using inv(1,2) high by (auto simp: doFlush_def Let_def log if_less_max)
  have "LSN r \<le> ?m" if "r \<in> set log" for r
    using that inv(4) foldl_max_ge [of "LSN r" "map LSN p" 0] by (auto simp: log le_max_iff_disj)
  moreover have "?m < nextLSN w"
    using inv(3,6) by (auto simp: foldl_max_less log dest: le_less_trans [OF word_zero_le])
  moreover have "\<forall>r \<in> set todo. ?m < LSN r" using inv(5) todo high inv(2) by auto
  ultimately show ?thesis
    unfolding wal_inv_def using inv(3) w' by (intro exI [of _ log] exI [of _ "[]"]) simp
qed

lemma wal_inv_restart:
  assumes g: "gob_ok g" and "wal_inv g w todo log" 
  shows "wal_inv g (OpenManager g (Some (wal_file w))) [] (scan_records g (wal_file w))"
proof -
  from assms(2) obtain d p where log: "log = d @ p"
    and inv: "wal_file w = encode_all g d"
      "\<forall>rec \<in> set log. proper g rec \<and> 0 < LSN rec \<and> LSN rec < nextLSN w"
    unfolding wal_inv_def by auto
  have scan: "scan_records g (wal_file w) = d" using scan_proper [OF g] inv(1,2) by (simp add: log)
  let ?m = "foldl max 0 (map LSN d)"
  have w': "OpenManager g (Some (wal_file w)) =
      \<lparr>wal_file = wal_file w, wal_buf = [], nextLSN = ?m + 1, flushedLSN = ?m, txnLSN = Map.empty\<rparr>"
    by (simp add: OpenManager_def scanHighestLSN_eq scan Let_def)
  have "?m < - 1"
  proof -
    have "x < - 1" if "x < nextLSN w" for x
      using that by (metis word_order.extremum order.strict_trans2)
    moreover have "(0 :: u64) < - 1" by (simp add: word_gt_0)
    ultimately show ?thesis using inv(2) by (auto simp: foldl_max_less log)
  qed
  then have "?m < ?m + 1" by (rule word_less_Suc)
  moreover have "LSN r \<le> ?m" if "r \<in> set d" for r using that foldl_max_ge [of "LSN r" "map LSN d"] by auto
  ultimately have "\<forall>r \<in> set d. LSN r < ?m + 1 \<and> LSN r \<le> ?m" "?m < ?m + 1" by (auto intro: le_less_trans)
  then show ?thesis
    using inv(2) unfolding wal_inv_def scan w'
    by (intro exI [of _ d] exI [of _ "[]"]) (simp add: log inv(1))
qed

lemma wal_hist_inv: "gob_ok g \<Longrightarrow> wal_hist g w todo log \<Longrightarrow> wal_inv g w todo log"
  by (rotate_tac, induction rule: wal_hist.induct)
     (auto intro: wal_inv_open wal_inv_assigned wal_inv_appended wal_inv_flush wal_inv_restart)

text \<open>What a crash leaves: the file, and a part of the bytes that were being written.\<close>

definition crash_image :: "nat \<Rightarrow> wal_manager \<Rightarrow> bytes" where
  "crash_image n w = wal_file w @ take n (wal_buf w)"

lemma wal_inv_crash:
  assumes g: "gob_ok g" and "wal_inv g w todo log"
  shows "prefix (scan_records g (crash_image n w)) log \<and>
    (\<forall>rec \<in> set (log @ todo). LSN rec \<le> flushedLSN w \<longrightarrow> rec \<in> set (scan_records g (crash_image n w)))"
proof -
  from assms(2) obtain d p where log: "log = d @ p"
    and inv: "wal_file w = encode_all g d" "wal_buf w = encode_all g p"
      "\<forall>rec \<in> set log. proper g rec" "\<forall>rec \<in> set (p @ todo). flushedLSN w < LSN rec"
    unfolding wal_inv_def by auto
  have fit: "\<forall>rec \<in> set d. fits g rec" "\<forall>rec \<in> set p. fits g rec"
    using inv(3) by (auto simp: log proper_def)
  have stored: "map stored_fields d = d" "map stored_fields p = p"
    using inv(3) by (auto simp: log intro: map_stored_proper)
  have "scan_records g (crash_image n w) = d @ scan_records g (take n (encode_all g p))"
    using scan_all [OF g fit(1)] by (simp add: crash_image_def inv(1,2) stored)
  moreover have "prefix (scan_records g (take n (encode_all g p))) p"
    using scan_torn [OF g fit(2), of n] by (simp add: stored)
  moreover have "r \<in> set d" if "r \<in> set (log @ todo)" "LSN r \<le> flushedLSN w" for r
    using that inv(4) leD by (auto simp: log)
  ultimately show ?thesis by (auto simp: log)
qed


definition sample_begin :: LogRecord where
  "sample_begin = zero_record\<lparr>r_Type := RecordBegin, TxnID := 3\<rparr>"

lemma sample_begin_proper: "proper g sample_begin"
  by (simp add: proper_def fits_def sample_begin_def zero_record_def stored_fields_def record_payload_def
      encode_record_body_def)

definition sample_wal :: wal_manager where
  "sample_wal = doFlush plain_gob DiskOK (snd (appendRecord plain_gob sample_begin (OpenManager plain_gob None)))"

lemma sample_wal_hist: "wal_hist plain_gob sample_wal [] [sample_begin\<lparr>LSN := 1\<rparr>]"
proof -
  have first: "OpenManager plain_gob None = \<lparr>wal_file = [], wal_buf = [], nextLSN = 1, flushedLSN = 0, txnLSN = Map.empty\<rparr>"
    by (simp add: OpenManager_def scanHighestLSN_eq)
  have "appendRecord plain_gob sample_begin (OpenManager plain_gob None) =
      (1, snd (appendRecord plain_gob sample_begin (OpenManager plain_gob None)))"
    by (simp add: appendRecord_def assignLSN_def first)
  from wal_hist_appendRecord [OF wal_hist.opened sample_begin_proper _ this]
  have "wal_hist plain_gob (snd (appendRecord plain_gob sample_begin (OpenManager plain_gob None))) [] ([] @ [sample_begin\<lparr>LSN := 1\<rparr>])"
    by (simp add: first word_less_nat_alt unsigned_minus_1_eq_mask mask_eq_exp_minus_1)
  then show ?thesis unfolding sample_wal_def by (simp add: wal_hist.flushed)
qed


abbreviation (input) commit_record :: "txn_id \<Rightarrow> lsn \<Rightarrow> LogRecord" where
  "commit_record t prev \<equiv> zero_record\<lparr>r_Type := RecordCommit, TxnID := t, PrevLSN := prev\<rparr>"

lemma commit_record_proper: "proper g (commit_record t prev)"
  by (simp add: proper_def fits_def zero_record_def stored_fields_def record_payload_def encode_record_body_def)

lemma flush_covers:
  assumes g: "gob_ok g" and "wal_inv g w [] log" and "rec \<in> set log"
  shows "Flush g [DiskOK] (LSN rec) w = Some w \<or> Flush g [DiskOK] (LSN rec) w = Some (doFlush g DiskOK w)"
proof -
  have "LSN rec \<le> flushedLSN (doFlush g DiskOK w)"
  proof -
    have "wal_inv g (doFlush g DiskOK w) [] log" "wal_buf (doFlush g DiskOK w) = []"
      using wal_inv_flush [OF assms(1,2)] by (auto simp: doFlush_def Let_def)
    then show ?thesis using assms(3) unfolding wal_inv_def by (auto simp: concat_eq_Nil_conv)
  qed
  then show ?thesis by (simp add: Flush.simps)
qed



section \<open>Recovery\<close>

text \<open>The records of one transaction as the manager writes them: a begin, then writes and
  compensations, then at most one commit or abort. A log of one life of the server without
  checkpoints has them for each transaction. The counter of the manager starts again at every start
  of the server, so the log of a second life need not have this form (\<open>reused_id_forgets_commit\<close>).\<close>

definition txn_shape :: "LogRecord list \<Rightarrow> bool" where
  "txn_shape rs \<longleftrightarrow> (\<exists>b body fin. rs = b # body @ fin \<and> r_Type b = RecordBegin \<and>
     (\<forall>r \<in> set body. r_Type r = RecordWrite \<or> r_Type r = RecordCLR) \<and>
     (fin = [] \<or> (\<exists>r. fin = [r] \<and> (r_Type r = RecordCommit \<or> r_Type r = RecordAbort))))"

definition log_ok :: "LogRecord list \<Rightarrow> bool" where
  "log_ok recs \<longleftrightarrow> sorted_wrt (<) (map LSN recs) \<and>
     (\<forall>rec \<in> set recs. 0 < LSN rec \<and> r_Type rec \<in> {1, 2, 3, 4, 5}) \<and>
     (\<forall>t \<in> TxnID ` set recs. txn_shape (filter (\<lambda>r. TxnID r = t) recs))"

text \<open>The effect of one record on the table entry of its transaction.\<close>

definition analyse_entry :: "LogRecord \<Rightarrow> attEntry option \<Rightarrow> attEntry option" where
  "analyse_entry rec e = go_get (analyse rec (case e of None \<Rightarrow> [] | Some e \<Rightarrow> [(TxnID rec, e)])) (TxnID rec)"

lemma analyse_get:
  "go_get (analyse rec att) t = (if t = TxnID rec then analyse_entry rec (go_get att t) else go_get att t)"
  by (auto simp: analyse_def analyse_entry_def gomap_simps split: option.splits)

lemma fold_analyse_get:
  "go_get (fold analyse recs att) t = fold analyse_entry (filter (\<lambda>r. TxnID r = t) recs) (go_get att t)"
  by (induction recs arbitrary: att) (auto simp: analyse_get)

lemma distinct_analyse: "distinct (go_keys att) \<Longrightarrow> distinct (go_keys (fold analyse recs att))"
proof (induction recs arbitrary: att)
  case (Cons rec recs)
  have "distinct (go_keys (analyse rec att))"
    using Cons.prems by (auto simp: analyse_def distinct_go_put split: option.splits)
  then show ?case using Cons.IH by simp
qed simp

lemma analyse_body:
  assumes "\<forall>r \<in> set body. r_Type r = RecordWrite \<or> r_Type r = RecordCLR"
  shows "\<exists>e'. fold analyse_entry body (Some e) = Some e' \<and> firstLSN e' = firstLSN e \<and> a_status e' = a_status e"
  using assms
proof (induction body arbitrary: e)
  case (Cons r body)
  then have "analyse_entry r (Some e) = Some (e\<lparr>lastLSN := LSN r\<rparr>)"
    by (auto simp: analyse_entry_def analyse_def)
  with Cons show ?case by fastforce
qed simp

definition end_status :: "LogRecord list \<Rightarrow> u8" where
  "end_status rs = (if \<exists>r \<in> set rs. r_Type r = RecordCommit then 1
     else if \<exists>r \<in> set rs. r_Type r = RecordAbort then 2 else 0)"

lemma analyse_txn:
  assumes "txn_shape rs"
  shows "\<exists>e. fold analyse_entry rs None = Some e \<and> firstLSN e = LSN (hd rs) \<and> a_status e = end_status rs"
proof -
  obtain b body ends where rs: "rs = b # body @ ends" and b: "r_Type b = RecordBegin"
    and body: "\<forall>r \<in> set body. r_Type r = RecordWrite \<or> r_Type r = RecordCLR"
    and ends: "ends = [] \<or> (\<exists>r. ends = [r] \<and> (r_Type r = RecordCommit \<or> r_Type r = RecordAbort))"
    using assms unfolding txn_shape_def by blast
  have "analyse_entry b None = Some \<lparr>lastLSN = LSN b, firstLSN = LSN b, a_status = 0\<rparr>"
    by (simp add: analyse_entry_def analyse_def b)
  moreover obtain e where e: "fold analyse_entry body (Some \<lparr>lastLSN = LSN b, firstLSN = LSN b, a_status = 0\<rparr>) = Some e"
    "firstLSN e = LSN b" "a_status e = 0" using analyse_body [OF body] by fastforce
  moreover have "\<forall>r \<in> set (b # body). r_Type r \<noteq> RecordCommit \<and> r_Type r \<noteq> RecordAbort" using b body by auto
  ultimately show ?thesis
    using ends by (auto simp: rs end_status_def analyse_entry_def analyse_def)
qed

lemma redo_start_le:
  assumes "\<forall>(t, e) \<in> set att. 0 < firstLSN e" and "(t, e) \<in> set att"
  shows "redo_start att \<noteq> 0 \<and> redo_start att \<le> firstLSN e"
proof -
  let ?f = "\<lambda>r (t :: txn_id, e). if r = LSNInvalid \<or> firstLSN e < r then firstLSN e else r"
  have mono: "0 < r \<Longrightarrow> \<forall>(t, e) \<in> set att. 0 < firstLSN e \<Longrightarrow> 0 < foldl ?f r att \<and> foldl ?f r att \<le> r" for r att
  proof (induction att arbitrary: r)
    case (Cons a att)
    obtain t e where a: "a = (t, e)" by fastforce
    show ?case using Cons.IH [of "?f r a"] Cons.prems by (auto simp: a)
  qed simp
  have "0 < foldl ?f r att \<and> foldl ?f r att \<le> firstLSN e" for r
    using assms
  proof (induction att arbitrary: r)
    case (Cons a att)
    show ?case
    proof (cases "a = (t, e)")
      case True
      have "0 < ?f r a" "?f r a \<le> firstLSN e" using Cons.prems(1) True by (auto simp: word_gt_0)
      then show ?thesis using mono [of "?f r a" att] Cons.prems(1) by fastforce
    next
      case False
      with Cons show ?thesis by auto
    qed
  qed simp
  then show ?thesis by (auto simp: redo_start_def word_gt_0)
qed

text \<open>What recovery should produce from the records of a log.\<close>

definition ended :: "RecordType \<Rightarrow> LogRecord list \<Rightarrow> txn_id set" where
  "ended ty recs = {t. \<exists>rec \<in> set recs. r_Type rec = ty \<and> TxnID rec = t}"

definition redo_of :: "LogRecord \<Rightarrow> RedoOp" where
  "redo_of rec = \<lparr>redo_TxnID = TxnID rec, redo_LSN = LSN rec, redo_Op = r_Op rec, redo_Table = r_Table rec,
     redo_Key = r_Key rec, redo_After = After rec\<rparr>"

definition committed_writes :: "LogRecord list \<Rightarrow> LogRecord list" where
  "committed_writes recs = filter (\<lambda>rec. r_Type rec = RecordWrite \<and> TxnID rec \<in> ended RecordCommit recs) recs"

lemma no_checkpoint:
  assumes "\<forall>rec \<in> set recs. r_Type rec \<in> {1, 2, 3, 4, 5}"
  shows "fold checkpoint_scan recs st = st"
  using assms
proof (induction recs arbitrary: st)
  case (Cons rec recs)
  then have "checkpoint_scan rec st = st" by (cases st) (auto simp: checkpoint_scan_def)
  with Cons show ?case by simp
qed simp

lemma word_one_le: "0 < (x :: 'a::len word) \<Longrightarrow> 1 \<le> x"
  using inc_le [of 0 x] by simp

lemma analysis_result:
  assumes "log_ok recs"
  defines "att \<equiv> fold analyse recs []"
  shows "(\<exists>e. go_get att t = Some e \<and> a_status e = s) \<longleftrightarrow>
      t \<in> TxnID ` set recs \<and> s = end_status (filter (\<lambda>r. TxnID r = t) recs)"
    and "go_get att t = Some e \<Longrightarrow> rec \<in> set recs \<Longrightarrow> TxnID rec = t \<Longrightarrow> firstLSN e \<le> LSN rec"
    and "go_get att t = Some e \<Longrightarrow> 0 < firstLSN e"
proof -
  let ?rs = "filter (\<lambda>r. TxnID r = t) recs"
  have get: "go_get att t = fold analyse_entry ?rs None" by (simp add: att_def fold_analyse_get)
  have none: "t \<notin> TxnID ` set recs \<Longrightarrow> ?rs = []" by (auto simp: filter_empty_conv)
  have some: "txn_shape ?rs" "?rs \<noteq> []" if "t \<in> TxnID ` set recs"
    using that assms(1) by (auto simp: log_ok_def filter_empty_conv)
  have present: "t \<in> TxnID ` set recs" if "go_get att t = Some e" for e
    using that none by (cases "t \<in> TxnID ` set recs") (auto simp: get)
  show "(\<exists>e. go_get att t = Some e \<and> a_status e = s) \<longleftrightarrow> t \<in> TxnID ` set recs \<and> s = end_status ?rs"
    using analyse_txn [OF some(1)] none by (cases "t \<in> TxnID ` set recs") (auto simp: get)
  have first: "firstLSN e = LSN (hd ?rs)" if "go_get att t = Some e" for e
    using analyse_txn [OF some(1) [OF present [OF that]]] that by (auto simp: get)
  show "firstLSN e \<le> LSN rec" if e: "go_get att t = Some e" and rec: "rec \<in> set recs" "TxnID rec = t"
  proof -
    have "sorted_wrt (<) (map LSN ?rs)"
      using assms(1) by (simp add: log_ok_def sorted_wrt_map sorted_wrt_filter)
    moreover have "rec \<in> set ?rs" using rec by simp
    ultimately have "LSN (hd ?rs) \<le> LSN rec" by (cases ?rs) auto
    then show ?thesis using first [OF e] by simp
  qed
  show "0 < firstLSN e" if e: "go_get att t = Some e"
    using first [OF e] hd_in_set [OF some(2) [OF present [OF e]]] assms(1) by (auto simp: log_ok_def)
qed

lemma recovery_unfold:
  assumes "log_ok recs" and "scan_records g b = recs"
  defines "att \<equiv> fold analyse recs []"
  shows "RunRecovery g (Some b) = \<lparr>Committed = map fst (filter (\<lambda>(t, e). a_status e = 1) att),
          Aborted = map fst (filter (\<lambda>(t, e). a_status e = 2) att),
          RedoOps = (if redo_start att \<noteq> 0 then redo_ops att (filter (\<lambda>rec. redo_start att \<le> LSN rec) recs) else []),
          UndoTxns = map (\<lambda>(t, e). (t, lastLSN e)) (filter (\<lambda>(t, e). a_status e = 0) att)\<rparr>"
proof -
  have "fold checkpoint_scan recs (Map.empty, None) = (Map.empty, None)"
    by (rule no_checkpoint) (use assms(1) in \<open>simp add: log_ok_def\<close>)
  then have cp: "FindLastCheckpoint g (Some b) = \<lparr>cp_ATT = [], cp_EndLSN = 0\<rparr>"
    by (simp add: FindLastCheckpoint_def assms(2))
  have "filter (\<lambda>rec. 1 \<le> LSN rec) recs = recs"
    using assms(1) by (auto simp: log_ok_def intro!: filter_True word_one_le)
  then show ?thesis
    by (simp add: RunRecovery_def cp readAllRecordsFrom_def assms(2) seed_att_def Let_def att_def)
qed

lemma att_mem:
  assumes "att = fold analyse recs []"
  shows "(t, e) \<in> set att \<longleftrightarrow> go_get att t = Some e"
  using distinct_analyse [of "[]" recs] assms by simp

lemma status_set:
  assumes "log_ok recs" and "att = fold analyse recs []"
  shows "fst ` set (filter (\<lambda>(t, e). a_status e = s) att) =
    {t \<in> TxnID ` set recs. end_status (filter (\<lambda>r. TxnID r = t) recs) = s}"
proof -
  have "fst ` set (filter (\<lambda>(t, e). a_status e = s) att) = {t. \<exists>e. go_get att t = Some e \<and> a_status e = s}"
    using att_mem [OF assms(2)] by (auto simp: image_def)
  then show ?thesis using analysis_result(1) [OF assms(1)] assms(2) by auto
qed

lemma redo_result:
  assumes "log_ok recs" and "att = fold analyse recs []"
  shows "(if redo_start att \<noteq> 0 then redo_ops att (filter (\<lambda>rec. redo_start att \<le> LSN rec) recs) else []) =
    map redo_of (filter (\<lambda>rec. r_Type rec = RecordWrite \<and> end_status (filter (\<lambda>r. TxnID r = TxnID rec) recs) = 1) recs)"
proof -
  note result = analysis_result [OF assms(1), folded assms(2)]
  have redo: "redo_start att \<noteq> 0 \<and> redo_start att \<le> LSN rec"
    if "rec \<in> set recs" "go_get att (TxnID rec) = Some e" for rec e
  proof -
    have "redo_start att \<noteq> 0 \<and> redo_start att \<le> firstLSN e"
      by (rule redo_start_le [of att "TxnID rec"]) (use that result(3) att_mem [OF assms(2)] in auto)
    then show ?thesis using result(2) [OF that(2,1) refl] by (auto intro: order_trans)
  qed
  let ?com = "\<lambda>rec. case go_get att (TxnID rec) of None \<Rightarrow> False | Some e \<Rightarrow> a_status e = 1"
  have com: "?com rec \<longleftrightarrow> end_status (filter (\<lambda>r. TxnID r = TxnID rec) recs) = 1" if "rec \<in> set recs" for rec
    using result(1) [of "TxnID rec" 1] that by (auto split: option.splits)
  have le: "redo_start att \<noteq> 0 \<and> redo_start att \<le> LSN rec" if "rec \<in> set recs" "?com rec" for rec
    using redo [OF that(1)] that(2) by (cases "go_get att (TxnID rec)") auto
  have "(if redo_start att \<noteq> 0 then redo_ops att (filter (\<lambda>rec. redo_start att \<le> LSN rec) recs) else []) =
      map redo_of (filter (\<lambda>rec. r_Type rec = RecordWrite \<and> ?com rec) recs)"
  proof (cases "redo_start att = 0")
    case True
    then have "filter (\<lambda>rec. r_Type rec = RecordWrite \<and> ?com rec) recs = []"
      unfolding filter_empty_conv using le by blast
    with True show ?thesis by simp
  next
    case False
    have "filter (\<lambda>rec. r_Type rec = RecordWrite \<and> ?com rec) (filter (\<lambda>rec. redo_start att \<le> LSN rec) recs) =
        filter (\<lambda>rec. r_Type rec = RecordWrite \<and> ?com rec) recs"
      unfolding filter_filter by (rule filter_cong [OF refl]) (use le in blast)
    with False show ?thesis by (simp add: redo_ops_def redo_of_def [abs_def] del: filter_filter)
  qed
  also have "filter (\<lambda>rec. r_Type rec = RecordWrite \<and> ?com rec) recs =
      filter (\<lambda>rec. r_Type rec = RecordWrite \<and> end_status (filter (\<lambda>r. TxnID r = TxnID rec) recs) = 1) recs"
    by (rule filter_cong [OF refl]) (use com in blast)
  finally show ?thesis .
qed

lemma end_status_ended:
  assumes "log_ok recs"
  shows "{t \<in> TxnID ` set recs. end_status (filter (\<lambda>r. TxnID r = t) recs) = 1} = ended RecordCommit recs"
    and "{t \<in> TxnID ` set recs. end_status (filter (\<lambda>r. TxnID r = t) recs) = 2} = ended RecordAbort recs"
    and "{t \<in> TxnID ` set recs. end_status (filter (\<lambda>r. TxnID r = t) recs) = 0} =
           ended RecordBegin recs - ended RecordCommit recs - ended RecordAbort recs"
proof -
  have shape: "txn_shape (filter (\<lambda>r. TxnID r = t) recs)" if "t \<in> TxnID ` set recs" for t
    using assms that by (auto simp: log_ok_def)
  have began: "t \<in> ended RecordBegin recs" if t: "t \<in> TxnID ` set recs" for t
  proof -
    obtain b where "b \<in> set (filter (\<lambda>r. TxnID r = t) recs)" "r_Type b = RecordBegin"
      using shape [OF t] unfolding txn_shape_def by (metis list.set_intros(1))
    then show ?thesis by (auto simp: ended_def)
  qed
  have excl: "t \<notin> ended RecordAbort recs" if t: "t \<in> ended RecordCommit recs" for t
  proof
    assume "t \<in> ended RecordAbort recs"
    with t obtain r r' where "r \<in> set (filter (\<lambda>r. TxnID r = t) recs)" "r_Type r = RecordCommit"
      "r' \<in> set (filter (\<lambda>r. TxnID r = t) recs)" "r_Type r' = RecordAbort" by (auto simp: ended_def)
    moreover have "txn_shape (filter (\<lambda>r. TxnID r = t) recs)" using t by (intro shape) (auto simp: ended_def)
    ultimately show False unfolding txn_shape_def by fastforce
  qed
  have status: "end_status (filter (\<lambda>r. TxnID r = t) recs) =
      (if t \<in> ended RecordCommit recs then 1 else if t \<in> ended RecordAbort recs then 2 else 0)" for t
    by (auto simp: end_status_def ended_def)
  have sub: "ended ty recs \<subseteq> TxnID ` set recs" for ty by (auto simp: ended_def)
  show "{t \<in> TxnID ` set recs. end_status (filter (\<lambda>r. TxnID r = t) recs) = 1} = ended RecordCommit recs"
    using sub by (auto simp: status split: if_splits)
  show "{t \<in> TxnID ` set recs. end_status (filter (\<lambda>r. TxnID r = t) recs) = 2} = ended RecordAbort recs"
    using sub excl by (auto simp: status split: if_splits)
  show "{t \<in> TxnID ` set recs. end_status (filter (\<lambda>r. TxnID r = t) recs) = 0} =
           ended RecordBegin recs - ended RecordCommit recs - ended RecordAbort recs"
    using sub began by (auto simp: status split: if_splits)
qed

lemma redo_committed:
  assumes "log_ok recs"
  shows "filter (\<lambda>rec. r_Type rec = RecordWrite \<and> end_status (filter (\<lambda>r. TxnID r = TxnID rec) recs) = 1) recs =
    committed_writes recs"
  unfolding committed_writes_def end_status_ended(1) [OF assms, symmetric]
  by (rule filter_cong [OF refl]) auto

lemma recovery_spec:
  assumes "log_ok recs" and "scan_records g b = recs"
  shows "set (Committed (RunRecovery g (Some b))) = ended RecordCommit recs"
    and "set (Aborted (RunRecovery g (Some b))) = ended RecordAbort recs"
    and "set (go_keys (UndoTxns (RunRecovery g (Some b)))) =
           ended RecordBegin recs - ended RecordCommit recs - ended RecordAbort recs"
    and "RedoOps (RunRecovery g (Some b)) = map redo_of (committed_writes recs)"
proof -
  have keys: "fst ` (\<lambda>(t, e). (t, lastLSN e)) ` xs = fst ` xs" for xs :: "(txn_id \<times> attEntry) set"
    by force
  note sets = status_set [OF assms(1) refl] end_status_ended [OF assms(1)]
  show "set (Committed (RunRecovery g (Some b))) = ended RecordCommit recs"
    and "set (Aborted (RunRecovery g (Some b))) = ended RecordAbort recs"
    and "set (go_keys (UndoTxns (RunRecovery g (Some b)))) =
           ended RecordBegin recs - ended RecordCommit recs - ended RecordAbort recs"
    unfolding recovery_unfold [OF assms] RecoveryResult.simps set_map keys sets by (rule refl)+
  show "RedoOps (RunRecovery g (Some b)) = map redo_of (committed_writes recs)"
    unfolding recovery_unfold [OF assms] RecoveryResult.simps redo_result [OF assms(1) refl] redo_committed [OF assms(1)]
    by (rule refl)
qed

text \<open>C8. Recovery of a log without checkpoints in which the sequence numbers increase and each transaction
  identifier has one life, that is one begin record, then writes and compensations, then at most one
  commit or abort: \<^verbatim>\<open>RunRecovery\<close> reports as committed and aborted exactly the transactions with a
  commit or abort record, as to be undone exactly those that began and did not end, and its redo
  list is every write of a committed transaction and no other, in log order. Compensations are
  ignored: a write that was rolled back to a savepoint before the commit is in the list
  (\<open>rolled_back_write_redone\<close>).\<close>

theorem RunRecovery_correct:
  assumes "log_ok (scan_records g b)"
  shows "set (Committed (RunRecovery g (Some b))) = ended RecordCommit (scan_records g b) \<and>
    set (Aborted (RunRecovery g (Some b))) = ended RecordAbort (scan_records g b) \<and>
    set (go_keys (UndoTxns (RunRecovery g (Some b)))) =
      ended RecordBegin (scan_records g b) - ended RecordCommit (scan_records g b) - ended RecordAbort (scan_records g b) \<and>
    RedoOps (RunRecovery g (Some b)) = map redo_of (committed_writes (scan_records g b))"
  using recovery_spec [OF assms refl] by simp

definition sample_log :: "LogRecord list" where
  "sample_log =
    [zero_record\<lparr>LSN := 1, r_Type := RecordBegin, TxnID := 1\<rparr>,
     zero_record\<lparr>LSN := 2, r_Type := RecordBegin, TxnID := 2\<rparr>,
     zero_record\<lparr>LSN := 3, r_Type := RecordWrite, TxnID := 1, PrevLSN := 1, UndoNextLSN := 1, r_Op := 1,
       r_Table := ''t'', r_Key := ''k'', After := [0, 0]\<rparr>,
     zero_record\<lparr>LSN := 4, r_Type := RecordWrite, TxnID := 2, PrevLSN := 2, UndoNextLSN := 2, r_Op := 1,
       r_Table := ''t'', r_Key := ''j'', After := [0, 0]\<rparr>,
     zero_record\<lparr>LSN := 5, r_Type := RecordCommit, TxnID := 1, PrevLSN := 3\<rparr>]"

lemma sample_log_scan: "scan_records plain_gob (encode_all plain_gob sample_log) = sample_log"
  by (rule scan_proper [OF plain_gob_ok])
     (simp add: sample_log_def proper_def fits_def zero_record_def stored_fields_def record_payload_def encode_record_body_def)

lemma sample_log_ok: "log_ok sample_log"
proof -
  have "txn_shape (sample_log ! 0 # [sample_log ! 2] @ [sample_log ! 4])" "txn_shape (sample_log ! 1 # [sample_log ! 3] @ [])"
    unfolding txn_shape_def
    by (rule exI, rule exI, rule exI, rule conjI, rule refl, simp add: sample_log_def zero_record_def)+
  then have "txn_shape (filter (\<lambda>r. TxnID r = t) sample_log)" if "t \<in> {1, 2}" for t
    using that by (auto simp: sample_log_def zero_record_def)
  moreover have "TxnID ` set sample_log = {1, 2}" by (simp add: sample_log_def zero_record_def insert_commute)
  ultimately show ?thesis by (simp add: log_ok_def) (simp add: sample_log_def zero_record_def)
qed

lemma sample_committed_writes: "ended RecordCommit sample_log = {1}" "committed_writes sample_log = [sample_log ! 2]"
proof -
  show com: "ended RecordCommit sample_log = {1}" by (auto simp: ended_def sample_log_def zero_record_def)
  show "committed_writes sample_log = [sample_log ! 2]"
    unfolding committed_writes_def com by (simp add: sample_log_def zero_record_def)
qed

theorem RunRecovery_correct_witness:
  "log_ok sample_log \<and> set (Committed (RunRecovery plain_gob (Some (encode_all plain_gob sample_log)))) = {1} \<and>
   map redo_LSN (RedoOps (RunRecovery plain_gob (Some (encode_all plain_gob sample_log)))) = [3]"
  using RunRecovery_correct [of plain_gob "encode_all plain_gob sample_log"] sample_log_ok
  by (simp add: sample_log_scan sample_committed_writes redo_of_def) (simp add: sample_log_def zero_record_def)

section \<open>Redo on a storage backend\<close>

text \<open>The contract of \<^verbatim>\<open>StorageApplier\<close>: an applier shows its backend as a table of tables, and its
  two operations update that table when they name an existing table and a value that decodes.\<close>

type_synonym contents = "gostring \<Rightarrow> gostring \<rightharpoonup> Value list option"

locale StorageApplier =
  fixes ok :: "'s \<Rightarrow> bool"
    and tables :: "'s \<Rightarrow> gostring set"
    and view_of :: "'s \<Rightarrow> contents"
    and setr :: "gostring \<Rightarrow> gostring \<Rightarrow> bytes \<Rightarrow> 's \<Rightarrow> 's"
    and delr :: "gostring \<Rightarrow> gostring \<Rightarrow> 's \<Rightarrow> 's"
  assumes set_ok: "ok s \<Longrightarrow> ok (setr t k b s) \<and> tables (setr t k b s) = tables s"
    and del_ok: "ok s \<Longrightarrow> ok (delr t k s) \<and> tables (delr t k s) = tables s"
    and set_view: "ok s \<Longrightarrow> t \<in> tables s \<Longrightarrow> DecodeValues b = Inr v \<Longrightarrow>
      view_of (setr t k b s) = (view_of s)(t := (view_of s t)(k \<mapsto> Some v))"
    and del_view: "ok s \<Longrightarrow> t \<in> tables s \<Longrightarrow> view_of (delr t k s) = (view_of s)(t := (view_of s t)(k := None))"

text \<open>The effect that redoing a logged write has on the contents, if the write can be redone: its
  table exists and its after-image decodes (the appliers drop other writes silently).\<close>

definition redo_effect :: "RedoOp \<Rightarrow> contents \<Rightarrow> contents" where
  "redo_effect op m =
     (if redo_Op op = 0 \<or> redo_Op op = 1 then
        m(redo_Table op := (m (redo_Table op))(redo_Key op \<mapsto> Some (projr (DecodeValues (redo_After op)))))
      else if redo_Op op = 2 then m(redo_Table op := (m (redo_Table op))(redo_Key op := None))
      else m)"

definition redoable :: "gostring set \<Rightarrow> RedoOp \<Rightarrow> bool" where
  "redoable ts op \<longleftrightarrow> redo_Table op \<in> ts \<and> (redo_Op op \<le> 1 \<longrightarrow> (\<exists>v. DecodeValues (redo_After op) = Inr v))"

context StorageApplier
begin

lemma redo_replays:
  "ok s \<Longrightarrow> \<forall>op \<in> set ops. redoable (tables s) op \<Longrightarrow>
     view_of (ApplyRedoOps setr delr ops s) = fold redo_effect ops (view_of s)"
proof (induction ops arbitrary: s)
  case (Cons op ops)
  let ?s = "if redo_Op op = 0 then setr (redo_Table op) (redo_Key op) (redo_After op) s
        else if redo_Op op = 1 then setr (redo_Table op) (redo_Key op) (redo_After op) s
        else if redo_Op op = 2 then delr (redo_Table op) (redo_Key op) s
        else s"
  have "redoable (tables s) op" using Cons.prems by simp
  then have "view_of ?s = redo_effect op (view_of s)"
    using Cons.prems(1) by (auto simp: redo_effect_def redoable_def set_view del_view)
  moreover have "ok ?s" "tables ?s = tables s" using Cons.prems(1) set_ok del_ok by auto
  ultimately show ?case using Cons.IH [of ?s] Cons.prems(2) by simp
qed simp

end

interpretation catalog_applier: StorageApplier catalog_ok "\<lambda>c. {n. Lookup c n \<noteq> None}" db applier_SetRow applier_DeleteRow
proof unfold_locales
  fix c :: Catalog and t k b v
  assume ok: "catalog_ok c"
  have rows: "rows_ok tb" if "Lookup c t = Some tb" for tb using ok that by (auto simp: catalog_ok_def)
  show "catalog_ok (applier_SetRow t k v c) \<and> {n. Lookup (applier_SetRow t k v c) n \<noteq> None} = {n. Lookup c n \<noteq> None}" for v
    using ok rows mem_table.put_ok
    by (auto simp: applier_SetRow_def catalog_ok_store split: option.splits sum.splits)
  show "catalog_ok (applier_DeleteRow t k c) \<and> {n. Lookup (applier_DeleteRow t k c) n \<noteq> None} = {n. Lookup c n \<noteq> None}"
    using ok rows mem_table.del_ok
    by (auto simp: applier_DeleteRow_def catalog_ok_store split: option.splits)
  assume t: "t \<in> {n. Lookup c n \<noteq> None}"
  then obtain tb where tb: "Lookup c t = Some tb" by auto
  have row: "row_at tb = db c t" by (simp add: db_def tb)
  show "db (applier_DeleteRow t k c) = (db c)(t := (db c t)(k := None))"
    by (simp add: applier_DeleteRow_def tb db_store mem_table.del_rows [OF rows [OF tb]] row)
  assume "DecodeValues b = Inr v"
  then show "db (applier_SetRow t k b c) = (db c)(t := (db c t)(k \<mapsto> Some v))"
    by (simp add: applier_SetRow_def tb db_store mem_table.put_rows [OF rows [OF tb]] row)
qed

definition sample_catalog :: Catalog where
  "sample_catalog = Register NewCatalog (NewTable ''t'' [])"

section \<open>Losses\<close>

text \<open>A restart after a torn write: the file still ends with the torn record, new records are
  appended behind it, and the reader never gets past it. Whatever is committed until the torn
  record's length is filled up is not found by the next recovery.\<close>

lemma torn_tail_hides_later_records:
  assumes g: "gob_ok g" and fit: "\<forall>rec \<in> set recs. fits g rec" "fits g torn" and n: "4 \<le> n" "n < length (encodeRecord g torn)"
    and later: "n + length later < length (encodeRecord g torn)"
  shows "scan_records g (encode_all g recs @ take n (encodeRecord g torn) @ later) = map stored_fields recs"
proof -
  let ?b = "take n (encodeRecord g torn) @ later"
  have "byte_slice ?b 0 4 = byte_slice (encodeRecord g torn) 0 4"
    using n by (simp add: byte_slice_def min_def)
  then have "unat (u32_at ?b 0) = length (encodeRecord g torn)"
    using record_length_field [OF fit(2), of "[]"] by simp
  then have "scan_records g ?b = []" using n later by (subst scan_records.simps) (simp add: Let_def)
  then show ?thesis using scan_all [OF g fit(1), of ?b] by simp
qed

text \<open>Two appends that overtake each other between the assignment of the number and the append
  to the buffer: the higher number is flushed, and \<^verbatim>\<open>Flush\<close> of the lower one returns at once
  although its record is only in memory.\<close>

lemma overtaken_append_not_durable:
  assumes "gob_ok g" and "proper g rec" and "w = OpenManager g None"
    and "assignLSN w = (l1, w1)" and "appendRecord g rec w1 = (l2, w2)"
    and "w3 = append_encoded g ((commit_record t 0)\<lparr>LSN := l1\<rparr>) (doFlush g DiskOK w2)"
  shows "Flush g [] l1 w3 = Some w3 \<and> scan_records g (wal_file w3) = [rec\<lparr>LSN := l2\<rparr>] \<and> l1 \<noteq> l2"
proof -
  have w: "l1 = 1" "l2 = 2" "wal_buf w2 = encodeRecord g (rec\<lparr>LSN := 2\<rparr>)" "wal_file w2 = []" "flushedLSN w2 = 0"
    using assms(3-5)
    by (auto simp: OpenManager_def scanHighestLSN_eq assignLSN_def appendRecord_def append_encoded_def setTxnLSN_def)
  have rec: "proper g (rec\<lparr>LSN := 2\<rparr>)" by (rule proper_LSN) fact
  then have "highestLSNInBytes g (encodeRecord g (rec\<lparr>LSN := 2\<rparr>)) 0 = 2"
    using highest_all [OF assms(1), of "[rec\<lparr>LSN := 2\<rparr>]" 0] by (simp add: proper_def)
  then have "flushedLSN w3 = 2" "wal_file w3 = encodeRecord g (rec\<lparr>LSN := 2\<rparr>)"
    by (simp_all add: assms(6) append_encoded_def setTxnLSN_def doFlush_def w Let_def)
  then show ?thesis using scan_proper [OF assms(1), of "[rec\<lparr>LSN := 2\<rparr>]"] rec by (simp add: w Flush.simps)
qed

text \<open>A failed write drops its batch; the next batch that is written raises the flushed number
  past the lost records, and a commit that waits for one of them returns.\<close>

lemma failed_write_acknowledged:
  assumes "gob_ok g" and "proper g rec" and "w = OpenManager g None"
    and "appendRecord g (commit_record t 0) w = (l1, w1)" and "appendRecord g rec (doFlush g (DiskFails 0) w1) = (l2, w2)"
  shows "Flush g [DiskOK] l1 w2 = Some (doFlush g DiskOK w2) \<and>
    scan_records g (wal_file (doFlush g DiskOK w2)) = [rec\<lparr>LSN := l2\<rparr>] \<and> l1 \<noteq> l2"
proof -
  have w: "l1 = 1" "l2 = 2" "wal_buf w2 = encodeRecord g (rec\<lparr>LSN := 2\<rparr>)" "wal_file w2 = []" "flushedLSN w2 = 0"
    using assms(3-5)
    by (auto simp: OpenManager_def scanHighestLSN_eq assignLSN_def appendRecord_def append_encoded_def setTxnLSN_def
        doFlush_def Let_def)
  have rec: "proper g (rec\<lparr>LSN := 2\<rparr>)" by (rule proper_LSN) fact
  then have "highestLSNInBytes g (encodeRecord g (rec\<lparr>LSN := 2\<rparr>)) 0 = 2"
    using highest_all [OF assms(1), of "[rec\<lparr>LSN := 2\<rparr>]" 0] by (simp add: proper_def)
  then have "flushedLSN (doFlush g DiskOK w2) = 2" "wal_file (doFlush g DiskOK w2) = encodeRecord g (rec\<lparr>LSN := 2\<rparr>)"
    by (simp_all add: doFlush_def w Let_def)
  then show ?thesis using scan_proper [OF assms(1), of "[rec\<lparr>LSN := 2\<rparr>]"] rec by (simp add: w Flush.simps)
qed

text \<open>Recovery ignores compensation records: a write that was rolled back to a savepoint before
  its transaction committed is redone.\<close>

lemma rolled_back_write_redone:
  assumes "wr = zero_record\<lparr>LSN := 2, r_Type := RecordWrite, TxnID := 1, r_Table := ''t'', r_Key := ''k''\<rparr>"
    and "scan_records g b = [zero_record\<lparr>LSN := 1, r_Type := RecordBegin, TxnID := 1\<rparr>, wr,
      zero_record\<lparr>LSN := 3, r_Type := RecordCLR, TxnID := 1, PrevLSN := 2\<rparr>,
      zero_record\<lparr>LSN := 4, r_Type := RecordCommit, TxnID := 1, PrevLSN := 2\<rparr>]"
  shows "RedoOps (RunRecovery g (Some b)) = [redo_of wr]"
proof -
  let ?recs = "scan_records g b"
  have "txn_shape (hd ?recs # [?recs ! 1, ?recs ! 2] @ [?recs ! 3])"
    unfolding txn_shape_def
    by (rule exI, rule exI, rule exI, rule conjI, rule refl) (simp add: assms zero_record_def)
  then have "log_ok ?recs" by (simp add: log_ok_def assms zero_record_def)
  moreover have "ended RecordCommit ?recs = {1}" by (auto simp: ended_def assms zero_record_def)
  then have "committed_writes ?recs = [wr]" unfolding committed_writes_def by (simp add: assms zero_record_def)
  ultimately show ?thesis using recovery_spec(4) [OF _ refl] by simp
qed

text \<open>With a checkpoint, the analysis starts at its end record: a commit logged between the begin
  and the end record of the checkpoint is overlooked and the transaction is reported as
  unfinished; and nothing that committed before the checkpoint is redone.\<close>

lemma commit_during_checkpoint_lost:
  assumes "scan_records g b = [zero_record\<lparr>LSN := 1, r_Type := RecordBegin, TxnID := 1\<rparr>,
      zero_record\<lparr>LSN := 2, r_Type := RecordCheckpointBegin, r_ATT := [(1, \<lparr>LastLSN = 1, FirstLSN = 1, att_Status = 0\<rparr>)]\<rparr>,
      zero_record\<lparr>LSN := 3, r_Type := RecordCommit, TxnID := 1, PrevLSN := 1\<rparr>,
      zero_record\<lparr>LSN := 4, r_Type := RecordCheckpointEnd, BeginLSN := 2\<rparr>]"
  shows "Committed (RunRecovery g (Some b)) = [] \<and> UndoTxns (RunRecovery g (Some b)) = [(1, 1)]"
proof -
  have cp: "FindLastCheckpoint g (Some b) = \<lparr>cp_ATT = [(1, \<lparr>LastLSN = 1, FirstLSN = 1, att_Status = 0\<rparr>)], cp_EndLSN = 4\<rparr>"
    by (simp add: FindLastCheckpoint_def assms checkpoint_scan_def zero_record_def)
  have recs: "readAllRecordsFrom g (Some b) 4 = [zero_record\<lparr>LSN := 4, r_Type := RecordCheckpointEnd, BeginLSN := 2\<rparr>]"
    by (simp add: readAllRecordsFrom_def assms zero_record_def not_le)
  have att: "analyse (zero_record\<lparr>LSN := 4, r_Type := RecordCheckpointEnd, BeginLSN := 2\<rparr>) att = att" for att
    by (simp add: analyse_def zero_record_def)
  show ?thesis by (simp add: RunRecovery_def cp recs att seed_att_def Let_def)
qed

end
