(* ===== verification/Txn_State.thy ===== *)
theory Txn_State
  imports Mvcc Ssi Wal_Log Lock_Table
begin

text \<open>
  The data of the package \<^verbatim>\<open>internal/txn\<close>: transactions (transaction.go), their undo logs
  (undo_log.go) and savepoints (savepoint.go), the manager's state and status queries
  (manager.go), and the log writer interface it calls (\<^verbatim>\<open>internal/wal/writer.go\<close>).

  A transaction is an object shared by the manager's map and its callers. The model keeps all
  objects by identifier in \<open>objs\<close>, and the keys of the active map in \<open>txns\<close>; a pointer is the
  identifier of its object. The locks a transaction holds are in the state of the lock manager.
  Wall-clock times, request contexts and the notification callbacks of the manager are left
  out: they feed the metrics and the lock timeouts only.
\<close>

section \<open>Undo log and savepoints\<close>

datatype UndoOpType = UndoInsert | UndoUpdate | UndoDelete

fun undo_code :: "UndoOpType \<Rightarrow> u8" where
  "undo_code UndoInsert = 0"
| "undo_code UndoUpdate = 1"
| "undo_code UndoDelete = 2"

record UndoEntry =
  u_Op :: UndoOpType
  u_Table :: gostring
  u_Key :: RowKey
  BeforeImage :: "values"
  WALWriteLSN :: lsn

type_synonym UndoLog = "UndoEntry list"

definition NewUndoLog :: UndoLog where
  "NewUndoLog = []"

definition UndoLog_Append :: "UndoLog \<Rightarrow> UndoOpType \<Rightarrow> gostring \<Rightarrow> RowKey \<Rightarrow> values \<Rightarrow> UndoLog" where
  "UndoLog_Append u op table key before =
     u @ [\<lparr>u_Op = op, u_Table = table, u_Key = key, BeforeImage = before, WALWriteLSN = 0\<rparr>]"

definition AppendWithLSN :: "UndoLog \<Rightarrow> UndoOpType \<Rightarrow> gostring \<Rightarrow> RowKey \<Rightarrow> values \<Rightarrow> lsn \<Rightarrow> UndoLog" where
  "AppendWithLSN u op table key before walLSN =
     u @ [\<lparr>u_Op = op, u_Table = table, u_Key = key, BeforeImage = before, WALWriteLSN = walLSN\<rparr>]"

definition UndoLog_Len :: "UndoLog \<Rightarrow> nat" where
  "UndoLog_Len u = length u"

definition EntriesFrom :: "UndoLog \<Rightarrow> nat \<Rightarrow> UndoEntry list" where
  "EntriesFrom u position = (if position \<ge> length u then [] else drop position u)"

definition TruncateTo :: "UndoLog \<Rightarrow> nat \<Rightarrow> UndoLog" where
  "TruncateTo u position = (if position < length u then take position u else u)"

definition UndoLog_All :: "UndoLog \<Rightarrow> UndoEntry list" where
  "UndoLog_All u = u"

record Savepoint =
  sp_Name :: gostring
  UndoPosition :: nat

section \<open>Transactions\<close>

datatype txn_status = TxnActive | TxnCommitted | TxnAborted
datatype ConcurrencyProtocol = Protocol2PL | ProtocolMVCC
datatype IsolationLevel = ReadUncommitted | ReadCommitted | RepeatableRead | Serializable

record Transaction =
  t_ID :: txn_id
  t_Status :: txn_status
  t_Protocol :: ConcurrencyProtocol
  t_Isolation :: IsolationLevel
  t_Snapshot :: "Snapshot option"
  CurrentStatementSnapshot :: "Snapshot option"
  ReadSet :: "RowKey \<rightharpoonup> txn_id"
  WriteSet :: "RowKey goset"
  t_UndoLog :: UndoLog
  Savepoints :: "Savepoint list"
  InConflict :: bool
  OutConflict :: bool
  SIReadKeys :: "RowKey goset"
  LastWALLSN :: lsn
  abort_closed :: bool

definition NewTransaction :: "txn_id \<Rightarrow> ConcurrencyProtocol \<Rightarrow> IsolationLevel \<Rightarrow> Transaction" where
  "NewTransaction i protocol isolation =
     \<lparr>t_ID = i, t_Status = TxnActive, t_Protocol = protocol, t_Isolation = isolation, t_Snapshot = None,
      CurrentStatementSnapshot = None, ReadSet = Map.empty, WriteSet = [], t_UndoLog = NewUndoLog, Savepoints = [],
      InConflict = False, OutConflict = False, SIReadKeys = [], LastWALLSN = 0, abort_closed = False\<rparr>"

definition GetStatus :: "Transaction \<Rightarrow> txn_status" where
  "GetStatus t = t_Status t"

definition setStatus :: "txn_status \<Rightarrow> Transaction \<Rightarrow> Transaction" where
  "setStatus s t = t\<lparr>t_Status := s\<rparr>"

definition Txn_IsActive :: "Transaction \<Rightarrow> bool" where
  "Txn_IsActive t = (GetStatus t = TxnActive)"

definition Txn_IsCommitted :: "Transaction \<Rightarrow> bool" where
  "Txn_IsCommitted t = (GetStatus t = TxnCommitted)"

definition Txn_IsAborted :: "Transaction \<Rightarrow> bool" where
  "Txn_IsAborted t = (GetStatus t = TxnAborted)"

text \<open>\<^verbatim>\<open>sync.Once\<close>: closing the abort channel a second time does nothing.\<close>

definition closeAbort :: "Transaction \<Rightarrow> Transaction" where
  "closeAbort t = t\<lparr>abort_closed := True\<rparr>"

definition addRead :: "RowKey \<Rightarrow> Transaction \<Rightarrow> Transaction" where
  "addRead key t = t\<lparr>ReadSet := (ReadSet t)(key \<mapsto> t_ID t)\<rparr>"

definition addWrite :: "RowKey \<Rightarrow> Transaction \<Rightarrow> Transaction" where
  "addWrite key t = t\<lparr>WriteSet := List.insert key (WriteSet t)\<rparr>"

definition addSIRead :: "RowKey \<Rightarrow> Transaction \<Rightarrow> Transaction" where
  "addSIRead key t = t\<lparr>SIReadKeys := List.insert key (SIReadKeys t)\<rparr>"

definition SetInConflict :: "Transaction \<Rightarrow> Transaction" where
  "SetInConflict t = t\<lparr>InConflict := True\<rparr>"

definition SetOutConflict :: "Transaction \<Rightarrow> Transaction" where
  "SetOutConflict t = t\<lparr>OutConflict := True\<rparr>"

definition GetInConflict :: "Transaction \<Rightarrow> bool" where
  "GetInConflict t = InConflict t"

definition GetOutConflict :: "Transaction \<Rightarrow> bool" where
  "GetOutConflict t = OutConflict t"

definition setCurrentStatementSnapshot :: "Snapshot \<Rightarrow> Transaction \<Rightarrow> Transaction" where
  "setCurrentStatementSnapshot s t = t\<lparr>CurrentStatementSnapshot := Some s\<rparr>"

definition log_undo :: "UndoOpType \<Rightarrow> gostring \<Rightarrow> RowKey \<Rightarrow> values \<Rightarrow> lsn \<Rightarrow> Transaction \<Rightarrow> Transaction" where
  "log_undo op table key before l t = t\<lparr>t_UndoLog := AppendWithLSN (t_UndoLog t) op table key before l\<rparr>"

section \<open>The log writer\<close>

text \<open>A nil interface, the no-op writer, or the log manager. What the environment decides comes
  in an \<open>env\<close>: the codec of the log, the outcomes of the flush rounds, the clock, whether a
  concurrent \<^verbatim>\<open>Reset\<close> advances the epoch between the two readings of an operation, and how many
  entries of an undo log are processed before it does.\<close>

datatype WALWriter = WalNil | NoopWriter | WalManager wal_manager

record env =
  e_gob :: gob
  e_disk :: "disk list"
  e_now :: u64
  e_reset :: bool
  e_undone :: nat

text \<open>\<open>None\<close> as the sequence number is a nil writer, for which the manager makes no call.\<close>

definition writer_Begin :: "env \<Rightarrow> txn_id \<Rightarrow> WALWriter \<Rightarrow> lsn option \<times> WALWriter" where
  "writer_Begin e t w =
     (case w of
        WalNil \<Rightarrow> (None, w)
      | NoopWriter \<Rightarrow> (Some LSNInvalid, w)
      | WalManager x \<Rightarrow> map_prod Some WalManager (Wal_Begin (e_gob e) (e_now e) t x))"

definition writer_Write ::
  "env \<Rightarrow> txn_id \<Rightarrow> lsn \<Rightarrow> u8 \<Rightarrow> gostring \<Rightarrow> gostring \<Rightarrow> bytes \<Rightarrow> bytes \<Rightarrow> WALWriter \<Rightarrow> lsn option \<times> WALWriter"
where
  "writer_Write e t prev op table key before after w =
     (case w of
        WalNil \<Rightarrow> (None, w)
      | NoopWriter \<Rightarrow> (Some LSNInvalid, w)
      | WalManager x \<Rightarrow> map_prod Some WalManager (Wal_Write (e_gob e) t prev op table key before after x))"

definition writer_Abort :: "env \<Rightarrow> txn_id \<Rightarrow> lsn \<Rightarrow> WALWriter \<Rightarrow> lsn option \<times> WALWriter" where
  "writer_Abort e t prev w =
     (case w of
        WalNil \<Rightarrow> (None, w)
      | NoopWriter \<Rightarrow> (Some LSNInvalid, w)
      | WalManager x \<Rightarrow> map_prod Some WalManager (Wal_Abort (e_gob e) t prev x))"

definition writer_CLR :: "env \<Rightarrow> txn_id \<Rightarrow> lsn \<Rightarrow> lsn \<Rightarrow> WALWriter \<Rightarrow> lsn option \<times> WALWriter" where
  "writer_CLR e t prev undoNext w =
     (case w of
        WalNil \<Rightarrow> (None, w)
      | NoopWriter \<Rightarrow> (Some LSNInvalid, w)
      | WalManager x \<Rightarrow> map_prod Some WalManager (Wal_CLR (e_gob e) t prev undoNext x))"

text \<open>\<^verbatim>\<open>Commit\<close> followed by \<^verbatim>\<open>Flush\<close> of the number it returned, as the manager calls them; \<open>None\<close>
  while the flush rounds do not reach that number.\<close>

definition writer_Commit :: "env \<Rightarrow> txn_id \<Rightarrow> lsn \<Rightarrow> WALWriter \<Rightarrow> WALWriter option" where
  "writer_Commit e t prev w =
     (case w of
        WalNil \<Rightarrow> Some w
      | NoopWriter \<Rightarrow> Some w
      | WalManager x \<Rightarrow>
          (case Wal_Commit (e_gob e) (e_disk e) t prev x of
             None \<Rightarrow> None
           | Some (l, x1) \<Rightarrow> map_option WalManager (Flush (e_gob e) [] l x1)))"

section \<open>The manager\<close>

record Manager =
  objs :: "txn_id \<rightharpoonup> Transaction"
  txns :: "txn_id goset"
  committed :: "txn_id goset"
  aborted :: "txn_id goset"
  nextID :: u64
  MaxActive :: int
  opEpoch :: u64
  LockAcq :: lock_sys
  m_Catalog :: Catalog
  MVCCStore :: Store
  m_SSITracker :: SSITracker
  m_WAL :: WALWriter

definition NewManager :: "Catalog \<Rightarrow> Manager" where
  "NewManager catalog =
     \<lparr>objs = Map.empty, txns = [], committed = [], aborted = [], nextID = 0, MaxActive = 0, opEpoch = 0,
      LockAcq = NewAcquirer, m_Catalog = catalog, MVCCStore = NewStore, m_SSITracker = NewSSITracker, m_WAL = WalNil\<rparr>"

text \<open>The errors of the manager's operations. \<open>NilPointer\<close>, \<open>LockPanic\<close>, \<open>UnlockPanic\<close> and
  \<open>EncodePanic\<close> are panics; \<open>Hang\<close> is a call that does not return.\<close>

datatype mgr_error =
  TxnErr TxnError | ErrTooManyTransactions | NilPointer | LockPanic | UnlockPanic | EncodePanic | Hang

text \<open>Changing a transaction through its pointer.\<close>

definition upd_txn :: "txn_id \<Rightarrow> (Transaction \<Rightarrow> Transaction) \<Rightarrow> Manager \<Rightarrow> Manager" where
  "upd_txn i f m = m\<lparr>objs := (objs m)(i := map_option f (objs m i))\<rparr>"

definition Mgr_IsCommitted :: "Manager \<Rightarrow> txn_id \<Rightarrow> bool" where
  "Mgr_IsCommitted m i = (i \<in> set (committed m))"

definition Mgr_IsAborted :: "Manager \<Rightarrow> txn_id \<Rightarrow> bool" where
  "Mgr_IsAborted m i = (i \<in> set (aborted m))"

definition Mgr_IsActive :: "Manager \<Rightarrow> txn_id \<Rightarrow> bool" where
  "Mgr_IsActive m i = (i \<in> set (txns m))"

definition Mgr_TxnStatus :: "Manager \<Rightarrow> txn_id \<Rightarrow> bool \<times> bool" where
  "Mgr_TxnStatus m i = (i \<in> set (txns m), i \<in> set (committed m))"

definition VacuumChecker :: "Manager \<Rightarrow> TxnStatusChecker" where
  "VacuumChecker m = \<lparr>IsCommitted = Mgr_IsCommitted m, IsAborted = Mgr_IsAborted m, TxnStatus = Mgr_TxnStatus m\<rparr>"

definition GetTxn :: "Manager \<Rightarrow> txn_id \<Rightarrow> Transaction option" where
  "GetTxn m i = (if i \<in> set (txns m) then objs m i else None)"

definition GetActiveTxn :: "Manager \<Rightarrow> txn_id \<Rightarrow> Transaction option" where
  "GetActiveTxn m i = GetTxn m i"

definition ActiveTxns :: "Manager \<Rightarrow> Transaction list" where
  "ActiveTxns m = List.map_filter (objs m) (txns m)"

definition ActiveCount :: "Manager \<Rightarrow> nat" where
  "ActiveCount m = length (txns m)"

fun oldest_loop :: "txn_id list \<Rightarrow> bool \<Rightarrow> txn_id \<Rightarrow> txn_id" where
  "oldest_loop [] first oldest = oldest"
| "oldest_loop (i # is) first oldest =
     (if first \<or> i < oldest then oldest_loop is False i else oldest_loop is first oldest)"

definition oldestActiveTxnIDLocked :: "Manager \<Rightarrow> txn_id" where
  "oldestActiveTxnIDLocked m = oldest_loop (txns m) True 0"

definition OldestActiveTxnID :: "Manager \<Rightarrow> txn_id" where
  "OldestActiveTxnID m = oldestActiveTxnIDLocked m"

definition MarkCommitted :: "txn_id \<Rightarrow> Manager \<Rightarrow> Manager" where
  "MarkCommitted i m = m\<lparr>committed := List.insert i (committed m)\<rparr>"

definition MarkAborted :: "txn_id \<Rightarrow> Manager \<Rightarrow> Manager" where
  "MarkAborted i m = m\<lparr>aborted := List.insert i (aborted m)\<rparr>"

end
