(* ===== verification/Seed.thy ===== *)
theory Seed
  imports Catalog
begin

text \<open>
  The sample tables of \<^verbatim>\<open>internal/storage/seed.go\<close>. The one floating-point product of that file,
  \<^verbatim>\<open>float64(i) * 9.99\<close>, is the parameter \<open>price\<close>, which gives the bit pattern for every row.
\<close>

text \<open>\<^verbatim>\<open>fmt.Sprintf("%d", n)\<close>.\<close>

fun decimal :: "nat \<Rightarrow> gostring" where
  "decimal n = (if n < 10 then [char_of (48 + n)] else decimal (n div 10) @ [char_of (48 + n mod 10)])"

declare decimal.simps [simp del]

definition col :: "gostring \<Rightarrow> ValueType \<Rightarrow> bool \<Rightarrow> Column" where
  "col n t pk = \<lparr>col_name = n, col_type = t, col_not_null = True, col_pk = pk\<rparr>"

definition AccountColumns :: "Column list" where
  "AccountColumns = [col ''id'' TypeInt True, col ''owner'' TypeText False, col ''balance'' TypeFloat False, col ''branch'' TypeText False]"

definition ProductColumns :: "Column list" where
  "ProductColumns = [col ''id'' TypeInt True, col ''name'' TypeText False, col ''price'' TypeFloat False,
     col ''category'' TypeText False, col ''stock'' TypeInt False]"

definition InventoryColumns :: "Column list" where
  "InventoryColumns = [col ''product_id'' TypeInt True, col ''warehouse'' TypeText False, col ''quantity'' TypeInt False]"

definition seed_rows :: "Table \<Rightarrow> nat \<Rightarrow> (nat \<Rightarrow> Value list) \<Rightarrow> Table" where
  "seed_rows t n row = foldl (\<lambda>t i. PutRow t (decimal i) (Some (row i))) t [1..<Suc n]"

text \<open>\<open>0x40C3880000000000\<close> is the bit pattern of 10000.0.\<close>

definition account_row :: "nat \<Rightarrow> Value list" where
  "account_row i =
     (let branches = [''north'', ''south'', ''east'', ''west'', ''central'']
      in [IntVal (of_nat i), TextVal (''owner-'' @ decimal i), FloatVal 0x40C3880000000000,
          TextVal (branches ! ((i - 1) mod length branches))])"

definition product_row :: "(nat \<Rightarrow> u64) \<Rightarrow> nat \<Rightarrow> Value list" where
  "product_row price i =
     (let categories = [''electronics'', ''clothing'', ''food'', ''books'', ''toys'']
      in [IntVal (of_nat i), TextVal (''product-'' @ decimal i), FloatVal (price i),
          TextVal (categories ! ((i - 1) mod length categories)), IntVal (of_nat (i * 10))])"

definition inventory_row :: "nat \<Rightarrow> Value list" where
  "inventory_row i =
     (let warehouses = [''WH-A'', ''WH-B'', ''WH-C'']
      in [IntVal (of_nat i), TextVal (warehouses ! ((i - 1) mod length warehouses)), IntVal (of_nat (i * 10))])"

definition SeedCatalog :: "(nat \<Rightarrow> u64) \<Rightarrow> Catalog \<Rightarrow> Catalog" where
  "SeedCatalog price c =
     (let accounts = seed_rows (NewTable ''accounts'' AccountColumns) 100 account_row;
          c1 = Register c accounts;
          products = seed_rows (NewTable ''products'' ProductColumns) 50 (product_row price);
          c2 = Register c1 products;
          inventory = seed_rows (NewTable ''inventory'' InventoryColumns) 50 inventory_row
      in Register c2 inventory)"

lemma seed_rows_ok:
  assumes "rows_ok t"
  shows "rows_ok (seed_rows t n row) \<and> t_name (seed_rows t n row) = t_name t"
proof -
  have "rows_ok (foldl (\<lambda>t i. PutRow t (decimal i) (Some (row i))) t is) \<and>
      t_name (foldl (\<lambda>t i. PutRow t (decimal i) (Some (row i))) t is) = t_name t" for "is"
    using assms by (induction "is" arbitrary: t) (auto simp: mem_table.put_ok, auto simp: PutRow_def)
  then show ?thesis by (simp add: seed_rows_def)
qed

text \<open>Decimal numerals are unique, so every seeded row is found under its own key.\<close>

lemma digit_inj: "i < 10 \<Longrightarrow> j < 10 \<Longrightarrow> char_of (48 + i :: nat) = (char_of (48 + j) :: char) \<longleftrightarrow> i = j"
  by (auto dest: arg_cong [where f = "of_char :: char \<Rightarrow> nat"])

lemma decimal_inj: "decimal m = decimal n \<Longrightarrow> m = n"
proof (induction m arbitrary: n rule: less_induct)
  case (less m)
  have nonempty: "decimal k \<noteq> []" for k by (subst decimal.simps) simp
  have last: "last (decimal k) = char_of (48 + k mod 10)" for k by (subst decimal.simps) simp
  have digit: "m mod 10 = n mod 10"
    using less.prems last [of m] last [of n] digit_inj [of "m mod 10" "n mod 10"] by simp
  show ?case
  proof (cases "m < 10 \<or> n < 10")
    case True
    have "m < 10 \<longleftrightarrow> n < 10"
      using less.prems nonempty [of "m div 10"] nonempty [of "n div 10"]
      by (cases "m < 10"; cases "n < 10") (auto simp: decimal.simps [of m] decimal.simps [of n])
    with True digit show ?thesis by simp
  next
    case False
    then have "decimal (m div 10) = decimal (n div 10)"
      using less.prems by (simp add: decimal.simps [of m] decimal.simps [of n])
    with False have "m div 10 = n div 10" by (intro less.IH) auto
    with digit show ?thesis by (metis div_mod_decomp)
  qed
qed

lemma decimal_eq_iff: "decimal m = decimal n \<longleftrightarrow> m = n"
  using decimal_inj by blast

lemma seed_row:
  assumes "rows_ok t" and "1 \<le> i" and "i \<le> n"
  shows "row_at (seed_rows t n row) (decimal i) = Some (Some (row i))"
proof -
  have loop: "rows_ok t \<Longrightarrow> i \<in> set is \<or> row_at t (decimal i) = Some (Some (row i)) \<Longrightarrow>
      row_at (foldl (\<lambda>t i. PutRow t (decimal i) (Some (row i))) t is) (decimal i) = Some (Some (row i))" for "is" t
  proof (induction "is" arbitrary: t)
    case (Cons j js)
    then show ?case by (cases "i = j") (auto simp: mem_table.put_ok mem_table.put_rows decimal_eq_iff)
  qed simp
  have "i \<in> set [1..<Suc n]" using assms(2,3) by auto
  then show ?thesis unfolding seed_rows_def by (intro loop [OF assms(1)]) (rule disjI1)
qed

lemma seed_tables:
  "Lookup (SeedCatalog price c) ''accounts'' = Some (seed_rows (NewTable ''accounts'' AccountColumns) 100 account_row)"
  "Lookup (SeedCatalog price c) ''products'' = Some (seed_rows (NewTable ''products'' ProductColumns) 50 (product_row price))"
  "Lookup (SeedCatalog price c) ''inventory'' = Some (seed_rows (NewTable ''inventory'' InventoryColumns) 50 inventory_row)"
  "n \<notin> {''accounts'', ''products'', ''inventory''} \<Longrightarrow> Lookup (SeedCatalog price c) n = Lookup c n"
  using seed_rows_ok [of "NewTable n cs" for n cs]
  by (auto simp: SeedCatalog_def Let_def Register_def Lookup_def TableName_def gomap_simps NewTable_def rows_ok_def)

lemma catalog_ok_SeedCatalog: "catalog_ok c \<Longrightarrow> catalog_ok (SeedCatalog price c)"
proof -
  assume c: "catalog_ok c"
  have new: "rows_ok (seed_rows (NewTable n cs) k row)" for n cs k row
    by (rule seed_rows_ok [THEN conjunct1]) (simp add: rows_ok_def NewTable_def)
  show ?thesis
    unfolding catalog_ok_def
  proof (intro allI impI)
    fix n t assume "Lookup (SeedCatalog price c) n = Some t"
    then show "rows_ok t"
      using c new seed_tables(1-3) [of price c] seed_tables(4) [of n price c]
      by (cases "n \<in> {''accounts'', ''products'', ''inventory''}") (auto simp: catalog_ok_def)
  qed
qed

end
