(* ===== verification/Txn_Manager.thy ===== *)
theory Txn_Manager
  imports Txn_State Seed
begin

text \<open>
  The operations of the transaction manager (\<^verbatim>\<open>internal/txn/manager.go\<close>): begin, commit, abort,
  savepoints, reset, history pruning, and reads, writes and scans under multi-version
  concurrency control. Every operation is one atomic step on the manager's state; what happens
  concurrently inside one of them is an argument (the \<open>env\<close>, and for \<open>MVCCWrite\<close> the chains
  that the vacuum reaps under its feet).
\<close>

section \<open>Begin\<close>

definition nextTxnID :: "Manager \<Rightarrow> txn_id \<times> Manager" where
  "nextTxnID m = (nextID m + 1, m\<lparr>nextID := nextID m + 1\<rparr>)"

definition AllocateTxnID :: "Manager \<Rightarrow> txn_id \<times> Manager" where
  "AllocateTxnID m = nextTxnID m"

text \<open>The loop of \<^verbatim>\<open>takeSnapshot\<close>: the active identifiers and the smallest of them.\<close>

fun snapshot_loop :: "txn_id list \<Rightarrow> txn_id list \<Rightarrow> txn_id \<Rightarrow> bool \<Rightarrow> txn_id list \<times> txn_id \<times> bool" where
  "snapshot_loop [] active xmin first = (active, xmin, first)"
| "snapshot_loop (i # is) active xmin first =
     (if first \<or> i < xmin then snapshot_loop is (active @ [i]) i False
      else snapshot_loop is (active @ [i]) xmin first)"

definition takeSnapshot :: "Manager \<Rightarrow> Snapshot" where
  "takeSnapshot m =
     (let xmax = nextID m + 1; (active, xmin, first) = snapshot_loop (txns m) [] 0 True
      in \<lparr>Xmin = (if first then xmax else xmin), Xmax = xmax, snap_active = active\<rparr>)"

text \<open>The part that \<^verbatim>\<open>Begin\<close> and \<^verbatim>\<open>BeginWithID\<close> share: the new transaction object enters the active map
  with an empty set of locks, and a begin record is logged.\<close>

definition enter_txn :: "env \<Rightarrow> txn_id \<Rightarrow> ConcurrencyProtocol \<Rightarrow> IsolationLevel \<Rightarrow> Manager \<Rightarrow> Manager" where
  "enter_txn e i protocol isoLevel m =
     (let t = NewTransaction i protocol isoLevel;
          t1 = (if protocol = ProtocolMVCC \<and> isoLevel \<noteq> ReadCommitted then t\<lparr>t_Snapshot := Some (takeSnapshot m)\<rparr> else t);
          (l, w) = writer_Begin e i (m_WAL m);
          t2 = (case l of None \<Rightarrow> t1 | Some l \<Rightarrow> t1\<lparr>LastWALLSN := l\<rparr>)
      in m\<lparr>objs := (objs m)(i \<mapsto> t2), txns := List.insert i (txns m),
           LockAcq := set_held (LockAcq m) i NewHeldSet, m_WAL := w\<rparr>)"

definition Begin :: "env \<Rightarrow> ConcurrencyProtocol \<Rightarrow> IsolationLevel \<Rightarrow> Manager \<Rightarrow> (mgr_error + txn_id) \<times> Manager" where
  "Begin e protocol isoLevel m =
     (if MaxActive m > 0 \<and> int (length (txns m)) \<ge> MaxActive m then (Inl ErrTooManyTransactions, m)
      else let (i, m1) = nextTxnID m in (Inr i, enter_txn e i protocol isoLevel m1))"

definition BeginWithID ::
  "env \<Rightarrow> txn_id \<Rightarrow> ConcurrencyProtocol \<Rightarrow> IsolationLevel \<Rightarrow> Manager \<Rightarrow> (mgr_error + txn_id) \<times> Manager"
where
  "BeginWithID e i protocol isoLevel m =
     (if MaxActive m > 0 \<and> int (length (txns m)) \<ge> MaxActive m then (Inl ErrTooManyTransactions, m)
      else (Inr i, enter_txn e i protocol isoLevel m))"

definition Mgr_TakeSnapshot :: "Manager \<Rightarrow> Snapshot" where
  "Mgr_TakeSnapshot m = takeSnapshot m"

section \<open>Undo\<close>

definition undo_action :: "UndoEntry \<Rightarrow> Catalog \<Rightarrow> Catalog" where
  "undo_action u c =
     (case Lookup c (u_Table u) of
        None \<Rightarrow> c
      | Some t \<Rightarrow>
          (case u_Op u of
             UndoInsert \<Rightarrow> store_table (u_Table u) (snd (DeleteRow t (u_Key u))) c
           | _ \<Rightarrow> (case BeforeImage u of
                     None \<Rightarrow> c
                   | Some b \<Rightarrow> store_table (u_Table u) (PutRow t (u_Key u) (Some b)) c)))"

text \<open>The entries come newest first, so the head of the tail is the entry to undo next.\<close>

fun undo_entries_loop :: "env \<Rightarrow> txn_id \<Rightarrow> UndoEntry list \<Rightarrow> lsn \<Rightarrow> Manager \<Rightarrow> lsn \<times> Manager" where
  "undo_entries_loop e i [] lastCLRLSN m = (lastCLRLSN, m)"
| "undo_entries_loop e i (u # us) lastCLRLSN m =
     (let (lastCLR, w) =
            (if m_WAL m \<noteq> WalNil \<and> i \<noteq> 0 \<and> WALWriteLSN u \<noteq> LSNInvalid then
               (let clrPrevLSN = (if lastCLRLSN = LSNInvalid then WALWriteLSN u else lastCLRLSN);
                    undoNextLSN = (case us of [] \<Rightarrow> LSNInvalid | p # _ \<Rightarrow> WALWriteLSN p);
                    (l, w) = writer_CLR e i clrPrevLSN undoNextLSN (m_WAL m)
                in (case l of Some l \<Rightarrow> l | None \<Rightarrow> lastCLRLSN, w))
             else (lastCLRLSN, m_WAL m))
      in undo_entries_loop e i us lastCLR (m\<lparr>m_WAL := w, m_Catalog := undo_action u (m_Catalog m)\<rparr>))"

definition applyUndoEntries :: "env \<Rightarrow> UndoEntry list \<Rightarrow> txn_id \<Rightarrow> Manager \<Rightarrow> lsn \<times> Manager" where
  "applyUndoEntries e entries i m = undo_entries_loop e i (rev entries) LSNInvalid m"

definition applyUndoLog :: "env \<Rightarrow> Transaction \<Rightarrow> Manager \<Rightarrow> lsn \<times> Manager" where
  "applyUndoLog e t m = applyUndoEntries e (UndoLog_All (t_UndoLog t)) (t_ID t) m"

fun mvcc_undo_loop :: "txn_id \<Rightarrow> UndoEntry list \<Rightarrow> (gostring \<times> gostring) goset \<Rightarrow> Store \<Rightarrow> Store" where
  "mvcc_undo_loop i [] seen s = s"
| "mvcc_undo_loop i (u # us) seen s =
     (if (u_Table u, u_Key u) \<in> set seen then mvcc_undo_loop i us seen s
      else let seen' = (u_Table u, u_Key u) # seen
           in case GetChain s (u_Table u) (u_Key u) of
                None \<Rightarrow> mvcc_undo_loop i us seen' s
              | Some c \<Rightarrow>
                  mvcc_undo_loop i us seen' (put_chain (u_Table u) (u_Key u) (ClearXMax (RemoveByXMin c i) i) s))"

text \<open>The epoch is read before each change of a chain, and the loop ends when it has advanced.\<close>

definition applyMVCCUndo :: "env \<Rightarrow> Transaction \<Rightarrow> Manager \<Rightarrow> Manager" where
  "applyMVCCUndo e t m =
     (let entries = UndoLog_All (t_UndoLog t);
          entries1 = (if e_reset e then take (e_undone e) entries else entries)
      in m\<lparr>MVCCStore := mvcc_undo_loop (t_ID t) entries1 [] (MVCCStore m)\<rparr>)"

section \<open>Commit and abort\<close>

text \<open>Locks are released through the lock manager, whose \<open>None\<close> is a channel closed twice.\<close>

definition release_locks :: "txn_id \<Rightarrow> Manager \<Rightarrow> mgr_error option \<times> Manager" where
  "release_locks i m =
     (case ReleaseAllLocks i (LockAcq m) of None \<Rightarrow> (Some LockPanic, m) | Some ls \<Rightarrow> (None, m\<lparr>LockAcq := ls\<rparr>))"

definition end_txn :: "txn_id \<Rightarrow> txn_status \<Rightarrow> Manager \<Rightarrow> Manager" where
  "end_txn i s m =
     (let m1 = (upd_txn i (setStatus s) m)\<lparr>txns := removeAll i (txns m)\<rparr>
      in if s = TxnCommitted then m1\<lparr>committed := List.insert i (committed m)\<rparr>
         else m1\<lparr>aborted := List.insert i (aborted m)\<rparr>)"

definition commit_ssi_abort :: "env \<Rightarrow> txn_id \<Rightarrow> Transaction \<Rightarrow> Manager \<Rightarrow> Manager" where
  "commit_ssi_abort e i t m =
     (let m1 = upd_txn i closeAbort (end_txn i TxnAborted m);
          m2 = m1\<lparr>m_SSITracker := Cleanup (m_SSITracker m1) i\<rparr>
      in applyMVCCUndo e t m2)"

definition commit_finish :: "env \<Rightarrow> txn_id \<Rightarrow> Transaction \<Rightarrow> Manager \<Rightarrow> mgr_error option \<times> Manager" where
  "commit_finish e i t m =
     (case writer_Commit e i (LastWALLSN t) (m_WAL m) of
        None \<Rightarrow> (Some Hang, m)
      | Some w \<Rightarrow>
          (let m1 = end_txn i TxnCommitted (m\<lparr>m_WAL := w\<rparr>);
               m2 = (if t_Protocol t = ProtocolMVCC \<and> t_Isolation t = Serializable
                     then m1\<lparr>m_SSITracker := Cleanup (m_SSITracker m1) i\<rparr> else m1)
           in if t_Protocol t = Protocol2PL then release_locks i m2 else (None, m2)))"

text \<open>\<open>None\<close> is a nil error.\<close>

definition Commit :: "env \<Rightarrow> txn_id \<Rightarrow> Manager \<Rightarrow> mgr_error option \<times> Manager" where
  "Commit e i m =
     (case GetTxn m i of
        None \<Rightarrow>
          (if i \<in> set (aborted m) then Some (TxnErr NewTxnAbortedError)
           else if i \<in> set (committed m) then None
           else Some (TxnErr (NewTxnNotFoundError i)), m)
      | Some t \<Rightarrow>
          if GetStatus t \<noteq> TxnActive then
            (if GetStatus t = TxnAborted then Some (TxnErr NewTxnAbortedError) else None, m)
          else if t_Protocol t = ProtocolMVCC \<and> t_Isolation t = Serializable \<and> CheckCommit (m_SSITracker m) i then
            (Some (TxnErr NewSerializationFailure), commit_ssi_abort e i t m)
          else commit_finish e i t m)"

definition Abort :: "env \<Rightarrow> txn_id \<Rightarrow> Manager \<Rightarrow> mgr_error option \<times> Manager" where
  "Abort e i m =
     (case GetTxn m i of
        None \<Rightarrow> (if i \<in> set (committed m) then Some (TxnErr (NewTxnCommittedError i)) else None, m)
      | Some t \<Rightarrow>
          if GetStatus t \<noteq> TxnActive then
            (if GetStatus t = TxnCommitted then Some (TxnErr (NewTxnCommittedError i)) else None, m)
          else
            let m1 = upd_txn i closeAbort (end_txn i TxnAborted m);
                (lastCLR, err, m2) =
                  (if t_Protocol t = Protocol2PL then
                     (let (l, m') = applyUndoLog e t m1 in (l, release_locks i m'))
                   else (LSNInvalid, None, applyMVCCUndo e t m1));
                prev = (if lastCLR \<noteq> LSNInvalid then lastCLR else LastWALLSN t);
                m3 = m2\<lparr>m_WAL := snd (writer_Abort e i prev (m_WAL m2))\<rparr>;
                m4 = (if t_Protocol t = ProtocolMVCC \<and> t_Isolation t = Serializable
                      then m3\<lparr>m_SSITracker := Cleanup (m_SSITracker m3) i\<rparr> else m3)
            in if err \<noteq> None then (err, m2) else (None, m4))"

section \<open>Savepoints\<close>

definition CreateSavepoint :: "txn_id \<Rightarrow> gostring \<Rightarrow> Manager \<Rightarrow> mgr_error option \<times> Manager" where
  "CreateSavepoint i name m =
     (case GetTxn m i of
        None \<Rightarrow> (Some (TxnErr (NewTxnNotFoundError i)), m)
      | Some t \<Rightarrow>
          (None, upd_txn i (\<lambda>t. t\<lparr>Savepoints := Savepoints t @
             [\<lparr>sp_Name = name, UndoPosition = UndoLog_Len (t_UndoLog t)\<rparr>]\<rparr>) m))"

definition RollbackToSavepoint :: "env \<Rightarrow> txn_id \<Rightarrow> gostring \<Rightarrow> Manager \<Rightarrow> mgr_error option \<times> Manager" where
  "RollbackToSavepoint e i name m =
     (case GetTxn m i of
        None \<Rightarrow> (Some (TxnErr (NewTxnNotFoundError i)), m)
      | Some t \<Rightarrow>
          (case find (\<lambda>sp. sp_Name sp = name) (rev (Savepoints t)) of
             None \<Rightarrow> (Some (TxnErr (txn_error ErrSavepointNotFound)), m)
           | Some sp \<Rightarrow>
               (let entries = EntriesFrom (t_UndoLog t) (UndoPosition sp);
                    m1 = (if t_Protocol t = Protocol2PL then snd (applyUndoEntries e entries i m) else m)
                in (None, upd_txn i (\<lambda>t. t\<lparr>t_UndoLog := TruncateTo (t_UndoLog t) (UndoPosition sp)\<rparr>) m1))))"

fun remove_last :: "('a \<Rightarrow> bool) \<Rightarrow> 'a list \<Rightarrow> 'a list option" where
  "remove_last P [] = None"
| "remove_last P (x # xs) =
     (case remove_last P xs of
        Some ys \<Rightarrow> Some (x # ys)
      | None \<Rightarrow> if P x then Some xs else None)"

definition ReleaseSavepoint :: "txn_id \<Rightarrow> gostring \<Rightarrow> Manager \<Rightarrow> mgr_error option \<times> Manager" where
  "ReleaseSavepoint i name m =
     (case GetTxn m i of
        None \<Rightarrow> (Some (TxnErr (NewTxnNotFoundError i)), m)
      | Some t \<Rightarrow>
          (case remove_last (\<lambda>sp. sp_Name sp = name) (Savepoints t) of
             None \<Rightarrow> (Some (TxnErr (txn_error ErrSavepointNotFound)), m)
           | Some sps \<Rightarrow> (None, upd_txn i (\<lambda>t. t\<lparr>Savepoints := sps\<rparr>) m)))"

section \<open>Reset and history pruning\<close>

definition reset_one :: "env \<Rightarrow> txn_id \<Rightarrow> mgr_error option \<times> Manager \<Rightarrow> mgr_error option \<times> Manager" where
  "reset_one e i st =
     (let (err, m) = st
      in case (err, objs m i) of
           (Some _, _) \<Rightarrow> st
         | (None, None) \<Rightarrow> (Some NilPointer, m)
         | (None, Some t) \<Rightarrow>
             (let m1 = upd_txn i (\<lambda>t. closeAbort (setStatus TxnAborted t)) m;
                  (err1, m2) = (if t_Protocol t = Protocol2PL then release_locks i (snd (applyUndoLog e t m1)) else (None, m1));
                  m3 = (if t_Protocol t = ProtocolMVCC then applyMVCCUndo e t m2 else m2);
                  m4 = (if t_Protocol t = ProtocolMVCC \<and> t_Isolation t = Serializable
                        then m3\<lparr>m_SSITracker := Cleanup (m_SSITracker m3) i\<rparr> else m3)
              in (err1, if err1 \<noteq> None then m2
                        else m4\<lparr>aborted := List.insert i (aborted m4), txns := removeAll i (txns m4)\<rparr>)))"

definition reseed_table :: "txn_id \<Rightarrow> Catalog \<Rightarrow> gostring \<Rightarrow> Store \<Rightarrow> Store" where
  "reseed_table seedID c name s =
     (case Lookup c name of None \<Rightarrow> s | Some t \<Rightarrow> SeedMVCCStore s name (Scan t None) seedID)"

definition Reset :: "env \<Rightarrow> (nat \<Rightarrow> u64) \<Rightarrow> Manager \<Rightarrow> mgr_error option \<times> Manager" where
  "Reset e price m =
     (let (err, m1) = fold (reset_one e) (txns m) (None, m)
      in if err \<noteq> None then (err, m1)
         else let c = SeedCatalog price (m_Catalog m1);
                  seedID = nextID m1 + 1
              in (None, m1\<lparr>opEpoch := opEpoch m1 + 1,
                           MVCCStore := fold (reseed_table seedID c) (List_tables c) (Clear (MVCCStore m1)),
                           m_SSITracker := Ssi_Reset (m_SSITracker m1),
                           m_Catalog := c,
                           nextID := seedID,
                           committed := List.insert seedID (committed m1)\<rparr>))"

abbreviation (input) MaxHistoryRetained :: nat where "MaxHistoryRetained \<equiv> 65536"

definition PruneHistory :: "Manager \<Rightarrow> nat \<times> Manager" where
  "PruneHistory m =
     (let oldest0 = oldestActiveTxnIDLocked m;
          oldest = (if oldest0 = 0 then nextID m else oldest0);
          com = filter (\<lambda>i. \<not> i < oldest) (committed m);
          abo = filter (\<lambda>i. \<not> i < oldest) (aborted m);
          removed = (length (committed m) - length com) + (length (aborted m) - length abo);
          excess = length com - MaxHistoryRetained;
          dropped = take excess (sort com)
      in (removed + length dropped,
          m\<lparr>committed := filter (\<lambda>i. i \<notin> set dropped) com, aborted := abo\<rparr>))"

text \<open>One round of the vacuum with the manager as its transaction status source
  (\<^verbatim>\<open>Vacuum.RunOnce\<close>).\<close>

definition RunOnce :: "Vacuum \<times> Manager \<Rightarrow> Vacuum \<times> Manager" where
  "RunOnce vm =
     (let (v, m) = vm;
          (v1, s) = pruneVersions (OldestActiveTxnID m) (VacuumChecker m) (v, MVCCStore m)
      in (v1, snd (PruneHistory (m\<lparr>MVCCStore := s\<rparr>))))"

section \<open>Multi-version reads and writes\<close>

definition getSnapshot :: "txn_id \<Rightarrow> Transaction \<Rightarrow> Manager \<Rightarrow> Snapshot \<times> Manager" where
  "getSnapshot i t m =
     (if t_Isolation t = ReadCommitted then
        (let snap = takeSnapshot m in (snap, upd_txn i (setCurrentStatementSnapshot snap) m))
      else case t_Snapshot t of
             Some snap \<Rightarrow> (snap, m)
           | None \<Rightarrow> (let snap = takeSnapshot m in (snap, upd_txn i (\<lambda>t. t\<lparr>t_Snapshot := Some snap\<rparr>) m)))"

definition full_key :: "gostring \<Rightarrow> gostring \<Rightarrow> gostring" where
  "full_key table key = table @ '':'' @ key"

definition ssi_read :: "txn_id \<Rightarrow> Transaction \<Rightarrow> gostring \<Rightarrow> gostring \<Rightarrow> Manager \<Rightarrow> Manager" where
  "ssi_read i t table key m =
     (if t_Isolation t = Serializable
      then upd_txn i (addSIRead (full_key table key))
             (m\<lparr>m_SSITracker := RecordRead (m_SSITracker m) i (full_key table key)\<rparr>)
      else m)"

text \<open>A read returns the values and whether the row was found.\<close>

definition MVCCRead :: "env \<Rightarrow> txn_id \<Rightarrow> gostring \<Rightarrow> gostring \<Rightarrow> Manager \<Rightarrow> (mgr_error + values \<times> bool) \<times> Manager" where
  "MVCCRead e i table key m =
     (case objs m i of
        None \<Rightarrow> (Inl NilPointer, m)
      | Some t \<Rightarrow>
          if \<not> Txn_IsActive t then (Inl (TxnErr NewTxnAbortedError), m)
          else let (snap, m1) = getSnapshot i t m
               in case GetChain (MVCCStore m1) table key of
                    None \<Rightarrow> (Inr (None, False), m1)
                  | Some chain \<Rightarrow>
                      if e_reset e then (Inl (TxnErr NewTxnAbortedError), m1)
                      else case FindVisible chain (\<lambda>v. IsVisible v (t_ID t) snap (VacuumChecker m1)) of
                             None \<Rightarrow> (Inr (None, False), m1)
                           | Some v \<Rightarrow> (Inr (v_data v, True), upd_txn i (addRead key) (ssi_read i t table key m1)))"

text \<open>The loop of \<^verbatim>\<open>MVCCWrite\<close> that locks a live chain. \<open>reaps\<close> tells for each attempt whether the vacuum
  tombstones the chain, if it is empty, before the lock is taken. \<open>None\<close>: the loop ends without
  the lock, and the deferred unlock is fatal.\<close>

fun lock_live_chain ::
  "nat \<Rightarrow> bool list \<Rightarrow> gostring \<Rightarrow> gostring \<Rightarrow> VersionChain \<Rightarrow> Store \<Rightarrow> (VersionChain \<times> Store) option"
where
  "lock_live_chain 0 reaps table key chain s = None"
| "lock_live_chain (Suc n) reaps table key chain s =
     (let reaped = (reaps \<noteq> [] \<and> hd reaps \<and> c_versions chain = []);
          chain1 = (if reaped then chain\<lparr>tombstoned := True\<rparr> else chain);
          s1 = (if reaped then EvictChain s table key else s)
      in if \<not> tombstoned chain1 then Some (chain1, s1)
         else let s2 = EvictChain s1 table key;
                  (chain2, s3) = GetOrCreateChain s2 table key
              in lock_live_chain n (tl reaps) table key chain2 s3)"

text \<open>Logging a write. A nil byte slice stands for no image. \<open>None\<close> is the panic of the value
  encoder.\<close>

definition image_bytes :: "Value list option \<Rightarrow> bytes option" where
  "image_bytes img = (case img of None \<Rightarrow> Some [] | Some vs \<Rightarrow> EncodeValues vs)"

definition image_of :: "values \<Rightarrow> Value list" where
  "image_of v = (case v of None \<Rightarrow> [] | Some vs \<Rightarrow> vs)"

definition log_write ::
  "env \<Rightarrow> txn_id \<Rightarrow> UndoOpType \<Rightarrow> gostring \<Rightarrow> gostring \<Rightarrow> Value list option \<Rightarrow> Value list option \<Rightarrow> Manager \<Rightarrow>
   (lsn \<times> Manager) option"
where
  "log_write e i op table key before after m =
     (if m_WAL m = WalNil then Some (LSNInvalid, m)
      else case (image_bytes before, image_bytes after, objs m i) of
             (Some b, Some a, Some t) \<Rightarrow>
               (let (l, w) = writer_Write e (t_ID t) (LastWALLSN t) (undo_code op) table key b a (m_WAL m)
                in case l of
                     None \<Rightarrow> Some (LSNInvalid, m)
                   | Some l \<Rightarrow> Some (l, upd_txn i (\<lambda>t. t\<lparr>LastWALLSN := l\<rparr>) (m\<lparr>m_WAL := w\<rparr>)))
           | _ \<Rightarrow> None)"

text \<open>The three cases of the \<^verbatim>\<open>switch\<close>, on the locked chain: the new chain and the manager with the
  write logged and entered in the undo log; or the error and the chain as the error leaves it: an
  update marks the old version before it encodes the images for the log.\<close>

definition new_version :: "txn_id \<Rightarrow> values \<Rightarrow> lsn \<Rightarrow> version" where
  "new_version i vals l = \<lparr>XMin = i, XMax = 0, v_data = vals, v_lsn = l\<rparr>"

definition mvcc_insert ::
  "env \<Rightarrow> txn_id \<Rightarrow> gostring \<Rightarrow> gostring \<Rightarrow> values \<Rightarrow> VersionChain \<Rightarrow> Manager \<Rightarrow>
   mgr_error \<times> VersionChain + VersionChain \<times> Manager"
where
  "mvcc_insert e i table key vals chain m =
     (case log_write e i UndoInsert table key None vals m of
        None \<Rightarrow> Inl (EncodePanic, chain)
      | Some (l, m1) \<Rightarrow>
          Inr (Prepend chain (new_version i vals l), upd_txn i (log_undo UndoInsert table key None l) m1))"

definition mvcc_update ::
  "env \<Rightarrow> txn_id \<Rightarrow> Snapshot \<Rightarrow> gostring \<Rightarrow> gostring \<Rightarrow> values \<Rightarrow> VersionChain \<Rightarrow> Manager \<Rightarrow>
   mgr_error \<times> VersionChain + VersionChain \<times> Manager"
where
  "mvcc_update e i snap table key vals chain m =
     (let vis = (\<lambda>v. IsVisible v i snap (VacuumChecker m))
      in case find vis (c_versions chain) of
           None \<Rightarrow> Inl (TxnErr NewRowNotFoundError, chain)
         | Some visible \<Rightarrow>
             let marked = chain\<lparr>c_versions := mark_first vis i (c_versions chain)\<rparr>
             in (case log_write e i UndoUpdate table key (Some (image_of (v_data visible))) vals m of
                None \<Rightarrow> Inl (EncodePanic, marked)
              | Some (l, m1) \<Rightarrow>
                  Inr (Prepend marked (new_version i vals l),
                       upd_txn i (log_undo UndoUpdate table key (v_data visible) l) m1)))"

definition mvcc_delete ::
  "env \<Rightarrow> txn_id \<Rightarrow> Snapshot \<Rightarrow> gostring \<Rightarrow> gostring \<Rightarrow> VersionChain \<Rightarrow> Manager \<Rightarrow>
   mgr_error \<times> VersionChain + VersionChain \<times> Manager"
where
  "mvcc_delete e i snap table key chain m =
     (let vis = (\<lambda>v. IsVisible v i snap (VacuumChecker m))
      in case find vis (c_versions chain) of
           None \<Rightarrow> Inl (TxnErr NewRowNotFoundError, chain)
         | Some visible \<Rightarrow>
             (case log_write e i UndoDelete table key (Some (image_of (v_data visible))) None m of
                None \<Rightarrow> Inl (EncodePanic, chain)
              | Some (l, m1) \<Rightarrow>
                  Inr (chain\<lparr>c_versions := mark_first vis i (c_versions chain)\<rparr>,
                       upd_txn i (log_undo UndoDelete table key (v_data visible) l) m1)))"

text \<open>The bookkeeping after a successful write: the SSI tracker and the write set.\<close>

definition ssi_write :: "txn_id \<Rightarrow> Transaction \<Rightarrow> gostring \<Rightarrow> gostring \<Rightarrow> Manager \<Rightarrow> Manager" where
  "ssi_write i t table key m =
     (if t_Isolation t = Serializable then
        (let active = (\<lambda>r. case objs m r of Some x \<Rightarrow> Txn_IsActive x | None \<Rightarrow> False);
             (tr, ins, out) = Ssi.RecordWrite active (m_SSITracker m) i (full_key table key);
             m1 = fold (\<lambda>r m. upd_txn r SetInConflict m) ins (m\<lparr>m_SSITracker := tr\<rparr>)
         in if out then upd_txn i SetOutConflict m1 else m1)
      else m)"

definition MVCCWrite ::
  "env \<Rightarrow> bool list \<Rightarrow> txn_id \<Rightarrow> gostring \<Rightarrow> gostring \<Rightarrow> values \<Rightarrow> UndoOpType \<Rightarrow> Manager \<Rightarrow> (mgr_error + unit) \<times> Manager"
where
  "MVCCWrite e reaps i table key vals op m =
     (case objs m i of
        None \<Rightarrow> (Inl NilPointer, m)
      | Some t \<Rightarrow>
          if \<not> Txn_IsActive t then (Inl (TxnErr NewTxnAbortedError), m)
          else
            let (snap, m1) = getSnapshot i t m;
                (chain0, s0) = GetOrCreateChain (MVCCStore m1) table key
            in case lock_live_chain 4 reaps table key chain0 s0 of
                 None \<Rightarrow> (Inl UnlockPanic, m1)
               | Some (chain, s) \<Rightarrow>
                   (let m2 = m1\<lparr>MVCCStore := s\<rparr>
                    in if e_reset e then (Inl (TxnErr NewTxnAbortedError), m2)
                       else case CheckWriteConflict (t_ID t) chain snap (VacuumChecker m2) of
                              Some x \<Rightarrow> (Inl (TxnErr (NewWriteConflictError x)), m2)
                            | None \<Rightarrow>
                                (case (case op of
                                         UndoInsert \<Rightarrow> mvcc_insert e i table key vals chain m2
                                       | UndoUpdate \<Rightarrow> mvcc_update e i snap table key vals chain m2
                                       | UndoDelete \<Rightarrow> mvcc_delete e i snap table key chain m2) of
                                   Inl (err, chain') \<Rightarrow> (Inl err, m2\<lparr>MVCCStore := put_chain table key chain' s\<rparr>)
                                 | Inr (chain', m3) \<Rightarrow>
                                     (Inr (), upd_txn i (addWrite key)
                                        (ssi_write i t table key (m3\<lparr>MVCCStore := put_chain table key chain' (MVCCStore m3)\<rparr>))))))"

text \<open>The scan of a table: every visible row is recorded as read, and returned if it passes the filter.\<close>

fun scan_chains ::
  "txn_id \<Rightarrow> Transaction \<Rightarrow> Snapshot \<Rightarrow> gostring \<Rightarrow> (Row \<Rightarrow> bool) option \<Rightarrow> (gostring \<times> VersionChain) list \<Rightarrow>
   Row list \<times> Manager \<Rightarrow> Row list \<times> Manager"
where
  "scan_chains i t snap table flt [] st = st"
| "scan_chains i t snap table flt ((key, chain) # cs) (rows, m) =
     (case FindVisible chain (\<lambda>v. IsVisible v (t_ID t) snap (VacuumChecker m)) of
        None \<Rightarrow> scan_chains i t snap table flt cs (rows, m)
      | Some v \<Rightarrow>
          (let row = \<lparr>row_key = key, row_values = v_data v\<rparr>;
               rows' = (if (case flt of None \<Rightarrow> True | Some f \<Rightarrow> f row) then rows @ [row] else rows)
           in scan_chains i t snap table flt cs (rows', ssi_read i t table key m)))"

definition MVCCScan ::
  "env \<Rightarrow> txn_id \<Rightarrow> gostring \<Rightarrow> (Row \<Rightarrow> bool) option \<Rightarrow> Manager \<Rightarrow> (mgr_error + Row list) \<times> Manager"
where
  "MVCCScan e i table flt m =
     (case objs m i of
        None \<Rightarrow> (Inl NilPointer, m)
      | Some t \<Rightarrow>
          if \<not> Txn_IsActive t then (Inl (TxnErr NewTxnAbortedError), m)
          else let (snap, m1) = getSnapshot i t m;
                   (rows, m2) = scan_chains i t snap table flt (ForEachChainInTable (MVCCStore m1) table) ([], m1)
               in if e_reset e then (Inl (TxnErr NewTxnAbortedError), m2) else (Inr rows, m2))"

end
