(* ===== verification/Txn_Mvcc.thy ===== *)
theory Txn_Mvcc
  imports Txn_Manager
begin

text \<open>
  Isolation of the multi-version operations of the transaction manager: the invariant that
  begin, read, write, commit and abort keep, and what follows from it for the values a
  transaction reads.
\<close>

section \<open>The parts of the state the invariant is about\<close>

definition status_of :: "Manager \<Rightarrow> txn_id \<Rightarrow> txn_status option" where
  "status_of m i = map_option t_Status (objs m i)"

text \<open>The snapshot that a transaction reads with as long as it lives.\<close>

definition snap_of :: "Manager \<Rightarrow> txn_id \<Rightarrow> Snapshot option" where
  "snap_of m i = Option.bind (objs m i) (\<lambda>t. if t_Isolation t = ReadCommitted then None else t_Snapshot t)"

text \<open>The undo log, as far as it speaks of version chains.\<close>

definition undo_of :: "Manager \<Rightarrow> txn_id \<Rightarrow> UndoEntry list" where
  "undo_of m i =
     (case objs m i of None \<Rightarrow> [] | Some t \<Rightarrow> if t_Protocol t = ProtocolMVCC then t_UndoLog t else [])"

definition proto_of :: "Manager \<Rightarrow> txn_id \<Rightarrow> ConcurrencyProtocol option" where
  "proto_of m i = map_option t_Protocol (objs m i)"

definition ids_ok :: "Manager \<Rightarrow> bool" where
  "ids_ok m \<longleftrightarrow> (\<forall>i t. objs m i = Some t \<longrightarrow> t_ID t = i)"

definition same_core :: "Manager \<Rightarrow> Manager \<Rightarrow> bool" where
  "same_core m m' \<longleftrightarrow> txns m' = txns m \<and> committed m' = committed m \<and> aborted m' = aborted m \<and> nextID m' = nextID m \<and>
     MVCCStore m' = MVCCStore m \<and> status_of m' = status_of m \<and> snap_of m' = snap_of m \<and> undo_of m' = undo_of m \<and>
     proto_of m' = proto_of m \<and> (ids_ok m \<longrightarrow> ids_ok m')"

lemma same_core_refl [simp]: "same_core m m"
  by (simp add: same_core_def)

lemma same_core_trans: "same_core m m' \<Longrightarrow> same_core m' m'' \<Longrightarrow> same_core m m''"
  by (simp add: same_core_def)

lemma upd_txn_simps [simp]:
  "txns (upd_txn i f m) = txns m" "committed (upd_txn i f m) = committed m" "aborted (upd_txn i f m) = aborted m"
  "nextID (upd_txn i f m) = nextID m" "MVCCStore (upd_txn i f m) = MVCCStore m" "m_WAL (upd_txn i f m) = m_WAL m"
  "m_Catalog (upd_txn i f m) = m_Catalog m" "LockAcq (upd_txn i f m) = LockAcq m" "m_SSITracker (upd_txn i f m) = m_SSITracker m"
  "MaxActive (upd_txn i f m) = MaxActive m" "objs (upd_txn i f m) = (objs m)(i := map_option f (objs m i))"
  by (simp_all add: upd_txn_def)

lemma same_core_upd:
  assumes "\<And>t. t_ID (f t) = t_ID t \<and> t_Status (f t) = t_Status t \<and> t_Snapshot (f t) = t_Snapshot t \<and> t_UndoLog (f t) = t_UndoLog t \<and>
    t_Protocol (f t) = t_Protocol t \<and> t_Isolation (f t) = t_Isolation t"
  shows "same_core m (upd_txn i f m)"
  using assms
  by (auto simp: same_core_def status_of_def snap_of_def undo_of_def proto_of_def ids_ok_def fun_eq_iff split: option.splits)

text \<open>Every step that leaves the core alone, in a form that chains.\<close>

named_theorems same_core_intros \<open>introduction rules for states with the same core\<close>

lemma same_core_flags [same_core_intros]:
  "same_core m m' \<Longrightarrow> same_core m (upd_txn i (addRead k) m')" "same_core m m' \<Longrightarrow> same_core m (upd_txn i (addWrite k) m')"
  "same_core m m' \<Longrightarrow> same_core m (upd_txn i (addSIRead k) m')" "same_core m m' \<Longrightarrow> same_core m (upd_txn i SetInConflict m')"
  "same_core m m' \<Longrightarrow> same_core m (upd_txn i SetOutConflict m')" "same_core m m' \<Longrightarrow> same_core m (upd_txn i closeAbort m')"
  "same_core m m' \<Longrightarrow> same_core m (upd_txn i (setCurrentStatementSnapshot s) m')"
  "same_core m m' \<Longrightarrow> same_core m (upd_txn i (LastWALLSN_update (\<lambda>_. l)) m')"
  by (erule same_core_trans, rule same_core_upd,
      simp add: addRead_def addWrite_def addSIRead_def SetInConflict_def SetOutConflict_def closeAbort_def
        setCurrentStatementSnapshot_def)+

lemma same_core_fields [same_core_intros]:
  "same_core m m' \<Longrightarrow> same_core m (m'\<lparr>m_SSITracker := x\<rparr>)" "same_core m m' \<Longrightarrow> same_core m (m'\<lparr>m_WAL := w\<rparr>)"
  "same_core m m' \<Longrightarrow> same_core m (m'\<lparr>m_Catalog := c\<rparr>)" "same_core m m' \<Longrightarrow> same_core m (m'\<lparr>LockAcq := l\<rparr>)"
  by (erule same_core_trans, simp add: same_core_def status_of_def [abs_def] snap_of_def [abs_def] undo_of_def [abs_def] proto_of_def [abs_def] ids_ok_def)+

lemma same_core_ssi_read [same_core_intros]: "same_core m m' \<Longrightarrow> same_core m (ssi_read i t table key m')"
  unfolding ssi_read_def by (auto intro: same_core_intros)

lemma same_core_fold [same_core_intros]:
  "same_core m m' \<Longrightarrow> same_core m (fold (\<lambda>r. upd_txn r SetInConflict) is m')"
proof (induction "is" arbitrary: m')
  case (Cons i "is")
  from Cons.IH [OF same_core_flags(4) [OF Cons.prems]] show ?case by simp
qed simp

lemma same_core_ssi_write [same_core_intros]: "same_core m m' \<Longrightarrow> same_core m (ssi_write i t table key m')"
  unfolding ssi_write_def Let_def by (auto split: prod.splits intro: same_core_intros)

lemma same_core_log_write: "log_write e i op table key b a m = Some (l, m') \<Longrightarrow> same_core m m'"
  by (auto simp: log_write_def Let_def split: if_splits option.splits prod.splits
      intro: same_core_refl same_core_intros)

section \<open>Snapshots\<close>

lemma snapshot_loop_spec:
  "snapshot_loop is act xmin first = (act', xmin', first') \<Longrightarrow>
     act' = act @ is \<and> (first' \<longleftrightarrow> first \<and> is = []) \<and> (\<not> first \<longrightarrow> xmin' \<le> xmin) \<and> (\<forall>i \<in> set is. xmin' \<le> i) \<and>
     (\<not> first' \<longrightarrow> xmin' = xmin \<and> \<not> first \<or> xmin' \<in> set is)"
proof (induction "is" arbitrary: act xmin first)
  case (Cons i "is")
  show ?case
  proof (cases "first \<or> i < xmin")
    case True
    with Cons.prems Cons.IH [of "act @ [i]" i False] show ?thesis by auto
  next
    case False
    with Cons.prems Cons.IH [of "act @ [i]" xmin first] show ?thesis by (auto simp: not_less dest: order_trans)
  qed
qed simp

lemma takeSnapshot_simps:
  "snap_active (takeSnapshot m) = txns m" "Xmax (takeSnapshot m) = nextID m + 1"
  "txns m = [] \<Longrightarrow> Xmin (takeSnapshot m) = nextID m + 1"
  "i \<in> set (txns m) \<Longrightarrow> Xmin (takeSnapshot m) \<le> i"
  "txns m \<noteq> [] \<Longrightarrow> Xmin (takeSnapshot m) \<in> set (txns m)"
proof -
  obtain a x f where run: "snapshot_loop (txns m) [] 0 True = (a, x, f)" by (rule prod_cases3)
  note spec = snapshot_loop_spec [OF this]
  show "snap_active (takeSnapshot m) = txns m" "Xmax (takeSnapshot m) = nextID m + 1"
    "txns m = [] \<Longrightarrow> Xmin (takeSnapshot m) = nextID m + 1"
    "i \<in> set (txns m) \<Longrightarrow> Xmin (takeSnapshot m) \<le> i"
    "txns m \<noteq> [] \<Longrightarrow> Xmin (takeSnapshot m) \<in> set (txns m)"
    using spec by (auto simp: takeSnapshot_def run Let_def)
qed

text \<open>The smallest active identifier, the horizon of the vacuum.\<close>

lemma oldest_loop_spec:
  "is \<noteq> [] \<or> \<not> first \<Longrightarrow> oldest_loop is first o' \<in> set is \<union> (if first then {} else {o'}) \<and>
     (\<forall>i \<in> set is. oldest_loop is first o' \<le> i) \<and> (\<not> first \<longrightarrow> oldest_loop is first o' \<le> o')"
proof (induction "is" arbitrary: first o')
  case (Cons i "is")
  show ?case
  proof (cases "first \<or> i < o'")
    case True
    with Cons.IH [of False i] show ?thesis by auto
  next
    case False
    with Cons.IH [of False o'] show ?thesis by (auto simp: not_less dest: order_trans)
  qed
qed auto

lemma OldestActive_le: "i \<in> set (txns m) \<Longrightarrow> OldestActiveTxnID m \<le> i \<and> OldestActiveTxnID m \<in> set (txns m)"
  using oldest_loop_spec [of "txns m" True 0] by (cases "txns m") (auto simp: OldestActiveTxnID_def oldestActiveTxnIDLocked_def)

section \<open>The invariant\<close>

text \<open>What the transactions and their snapshots satisfy: identifiers are below the counter, each is
  active, committed or aborted and only one of these, and every other active transaction is
  concurrent with the snapshot of an active transaction.\<close>

definition snap_inv :: "Manager \<Rightarrow> txn_id \<Rightarrow> Snapshot \<Rightarrow> bool" where
  "snap_inv m i s \<longleftrightarrow> snapshot_ok s \<and> Xmax s \<le> nextID m + 1 \<and> (\<forall>j \<in> set (txns m). j \<noteq> i \<longrightarrow> concurrent s j)"

definition txns_inv :: "Manager \<Rightarrow> bool" where
  "txns_inv m \<longleftrightarrow> ids_ok m \<and> distinct (txns m) \<and> (\<forall>i. i \<in> set (txns m) \<longleftrightarrow> status_of m i = Some TxnActive) \<and>
     set (txns m) \<inter> set (committed m) = {} \<and> set (txns m) \<inter> set (aborted m) = {} \<and> set (committed m) \<inter> set (aborted m) = {} \<and>
     (\<forall>i \<in> set (txns m) \<union> set (committed m) \<union> set (aborted m). i \<le> nextID m) \<and>
     0 \<in> set (committed m) \<and> nextID m < - 1 \<and> (\<forall>i. nextID m < i \<longrightarrow> objs m i = None) \<and>
     (\<forall>i \<in> set (txns m). \<forall>s. snap_of m i = Some s \<longrightarrow> snap_inv m i s)"

text \<open>What the version chains satisfy: the transactions they name are active or committed, and a
  transaction that is still active has every row it touched in its undo log.\<close>

definition logged :: "Manager \<Rightarrow> txn_id \<Rightarrow> gostring \<Rightarrow> gostring \<Rightarrow> bool" where
  "logged m i table key \<longleftrightarrow> (\<exists>u \<in> set (undo_of m i). u_Table u = table \<and> u_Key u = key)"

definition owned :: "Manager \<Rightarrow> gostring \<Rightarrow> gostring \<Rightarrow> txn_id \<Rightarrow> bool" where
  "owned m table key x \<longleftrightarrow> x \<in> set (committed m) \<or> x \<in> set (txns m) \<and> logged m x table key"

definition chains_inv :: "Manager \<Rightarrow> bool" where
  "chains_inv m \<longleftrightarrow> store_ok (MVCCStore m) \<and>
     (\<forall>table key c. GetChain (MVCCStore m) table key = Some c \<longrightarrow> \<not> tombstoned c) \<and>
     (\<forall>table key. \<forall>x \<in> chain_ids (versions (MVCCStore m) table key). owned m table key x)"

definition mvcc_inv :: "Manager \<Rightarrow> bool" where
  "mvcc_inv m \<longleftrightarrow> txns_inv m \<and> chains_inv m"

lemma txns_inv_cong: 
  assumes "same_core m m'" and "\<And>i. objs m i = None \<Longrightarrow> objs m' i = None" 
  shows "txns_inv m \<Longrightarrow> txns_inv m'"
  using assms unfolding txns_inv_def snap_inv_def same_core_def by auto

lemma same_core_objs: "same_core m m' \<Longrightarrow> objs m' i = None \<longleftrightarrow> objs m i = None"
  unfolding same_core_def status_of_def by (metis map_option_is_None)

lemma chains_inv_owned:
  "chains_inv m \<Longrightarrow> MVCCStore m' = MVCCStore m \<Longrightarrow> (\<And>table key x. owned m table key x \<Longrightarrow> owned m' table key x) \<Longrightarrow>
     chains_inv m'"
  by (auto simp: chains_inv_def)

lemma mvcc_inv_core: "same_core m m' \<Longrightarrow> mvcc_inv m \<Longrightarrow> mvcc_inv m'"
  using txns_inv_cong [of m m'] same_core_objs [of m m'] unfolding mvcc_inv_def chains_inv_def owned_def same_core_def logged_def
  by auto

lemma takeSnapshot_inv:
  assumes "txns_inv m"
  shows "snap_inv m i (takeSnapshot m)"
proof -
  have nx: "nextID m < nextID m + 1" using assms by (intro word_less_Suc) (simp add: txns_inv_def)
  have le: "j < nextID m + 1" if "j \<in> set (txns m)" for j
    using assms that nx by (auto simp: txns_inv_def intro: le_less_trans)
  have "Xmin (takeSnapshot m) \<le> nextID m + 1"
    using takeSnapshot_simps(3) [of m] takeSnapshot_simps(5) [of m] le by (cases "txns m") (auto intro: less_imp_le)
  then show ?thesis
    using le takeSnapshot_simps by (auto simp: snap_inv_def snapshot_ok_def concurrent_def)
qed

section \<open>Locking a live chain\<close>

definition live_store :: "Store \<Rightarrow> bool" where
  "live_store s \<longleftrightarrow> store_ok s \<and> (\<forall>table key c. GetChain s table key = Some c \<longrightarrow> \<not> tombstoned c)"

lemma EvictChain_spec:
  assumes "live_store s"
  shows "GetChain (EvictChain s table key) t k = (if t = table \<and> k = key then None else GetChain s t k)"
    and "live_store (EvictChain s table key)"
proof -
  show get: "GetChain (EvictChain s table key) t k = (if t = table \<and> k = key then None else GetChain s t k)" for t k
    by (auto simp: EvictChain_def GetChain_def gomap_simps split: option.splits)
  have "store_ok (EvictChain s table key)"
    using assms by (cases "go_get s table")
      (auto simp: live_store_def EvictChain_def intro!: store_ok_put distinct_go_del dest: store_ok_table)
  with get assms show "live_store (EvictChain s table key)" by (auto simp: live_store_def)
qed

lemma GetOrCreateChain_live:
  assumes "live_store s" and "GetOrCreateChain s table key = (c, s')"
  shows "live_store s' \<and> GetChain s' table key = Some c \<and> c_versions c = versions s table key \<and> versions s' = versions s"
proof -
  have "\<forall>c. GetChain s table key = Some c \<longrightarrow> \<not> tombstoned c" using assms(1) by (simp add: live_store_def)
  from GetOrCreateChain_spec [OF assms(2) this] assms(1) show ?thesis
    by (auto simp: live_store_def fun_eq_iff split: if_splits)
qed

text \<open>Whatever the vacuum reaps meanwhile, the loop ends with the row's live chain, unless it gives up.\<close>

lemma lock_live_chain_spec:
  assumes "live_store s" and "GetChain s table key = Some chain" and "lock_live_chain n reaps table key chain s = Some (c, s')"
  shows "live_store s' \<and> GetChain s' table key = Some c \<and> c_versions c = versions s table key \<and> versions s' = versions s"
  using assms
proof (induction n arbitrary: reaps chain s)
  case (Suc n)
  show ?case
  proof (cases "reaps \<noteq> [] \<and> hd reaps \<and> c_versions chain = []")
    case False
    with Suc.prems show ?thesis by (auto simp: versions_def live_store_def Let_def)
  next
    case True
    let ?s = "EvictChain (EvictChain s table key) table key"
    obtain c2 s3 where get: "GetOrCreateChain ?s table key = (c2, s3)" by fastforce
    have live: "live_store ?s" using EvictChain_spec(2) Suc.prems(1) by blast
    have empty: "versions ?s = versions s"
      using True Suc.prems(2) EvictChain_spec [OF Suc.prems(1)] EvictChain_spec(1) [OF EvictChain_spec(2) [OF Suc.prems(1)]]
      by (auto simp: versions_def fun_eq_iff)
    note new = GetOrCreateChain_live [OF live get]
    have "lock_live_chain n (tl reaps) table key c2 s3 = Some (c, s')"
      using Suc.prems(3) True get by (simp add: Let_def)
    with Suc.IH [of s3 c2 "tl reaps"] new empty show ?thesis by auto
  qed
qed simp

lemma chains_inv_live: "chains_inv m \<Longrightarrow> live_store (MVCCStore m)"
  by (simp add: chains_inv_def live_store_def)

lemma lock_chain_spec:
  assumes "chains_inv m" and "GetOrCreateChain (MVCCStore m) table key = (chain0, s0)"
    and "lock_live_chain n reaps table key chain0 s0 = Some (chain, s)"
  shows "live_store s" and "GetChain s table key = Some chain" and "c_versions chain = versions (MVCCStore m) table key"
    and "versions s = versions (MVCCStore m)" and "\<not> tombstoned chain"
  using lock_live_chain_spec [OF _ _ assms(3)] GetOrCreateChain_live [OF chains_inv_live [OF assms(1)] assms(2)]
  by (auto simp: live_store_def)

lemma chains_inv_store:
  assumes "chains_inv m" and "live_store s" and "versions s = versions (MVCCStore m)"
  shows "chains_inv (m\<lparr>MVCCStore := s\<rparr>)"
  using assms by (auto simp: chains_inv_def live_store_def owned_def logged_def undo_of_def)

section \<open>Reading\<close>

lemma VacuumChecker_store [simp]:
  "VacuumChecker (m\<lparr>MVCCStore := s\<rparr>) = VacuumChecker m" "VacuumChecker (upd_txn i f m) = VacuumChecker m"
  by (simp_all add: VacuumChecker_def Mgr_IsCommitted_def [abs_def] Mgr_IsAborted_def [abs_def] Mgr_TxnStatus_def [abs_def])

lemma VacuumChecker_simps [simp]:
  "IsCommitted (VacuumChecker m) x \<longleftrightarrow> x \<in> set (committed m)" "IsAborted (VacuumChecker m) x \<longleftrightarrow> x \<in> set (aborted m)"
  by (simp_all add: VacuumChecker_def Mgr_IsCommitted_def Mgr_IsAborted_def)

text \<open>What a read returns, from the versions of the row.\<close>

lemma MVCCRead_result:
  assumes "objs m j = Some t" "Txn_IsActive t" "t_ID t = j" "getSnapshot j t m = (s, m1)" "\<not> e_reset e"
  shows "fst (MVCCRead e j table key m) = Inr
    (case find (\<lambda>v. IsVisible v j s (VacuumChecker m)) (versions (MVCCStore m) table key) of
       None \<Rightarrow> (None, False) | Some v \<Rightarrow> (v_data v, True))"
proof -
  have "VacuumChecker m1 = VacuumChecker m" "MVCCStore m1 = MVCCStore m"
    using assms(4) by (auto simp: getSnapshot_def Let_def split: if_splits option.splits)
  with assms show ?thesis by (auto simp: MVCCRead_def FindVisible_def versions_def split: option.splits)
qed

lemma getSnapshot_inv:
  assumes inv: "mvcc_inv m" and obj: "objs m i = Some t" and act: "Txn_IsActive t" and get: "getSnapshot i t m = (snap, m1)"
  shows "mvcc_inv m1" and "snap_inv m1 i snap" and "snapshot_ok snap"
    and "MVCCStore m1 = MVCCStore m" "txns m1 = txns m" "committed m1 = committed m" "aborted m1 = aborted m" "nextID m1 = nextID m"
    and "\<exists>t1. objs m1 i = Some t1 \<and> t_ID t1 = i \<and> Txn_IsActive t1 \<and> t_UndoLog t1 = t_UndoLog t \<and>
      t_Isolation t1 = t_Isolation t \<and> t_Protocol t1 = t_Protocol t"
proof -
  have tinv: "txns_inv m" and cinv: "chains_inv m" using inv by (auto simp: mvcc_inv_def)
  have i: "i \<in> set (txns m)" "t_ID t = i"
    using tinv obj act by (auto simp: txns_inv_def status_of_def ids_ok_def Txn_IsActive_def GetStatus_def)
  note new = takeSnapshot_inv [OF tinv, of i]
  have same: "MVCCStore m1 = MVCCStore m" "txns m1 = txns m" "committed m1 = committed m" "aborted m1 = aborted m" "nextID m1 = nextID m"
    using get by (auto simp: getSnapshot_def Let_def split: if_splits option.splits)
  have "mvcc_inv m1 \<and> snap_inv m i snap"
  proof (cases "t_Isolation t \<noteq> ReadCommitted \<and> t_Snapshot t = None")
    case True
    then have m1: "m1 = upd_txn i (\<lambda>t. t\<lparr>t_Snapshot := Some snap\<rparr>) m" "snap = takeSnapshot m"
      using get by (auto simp: getSnapshot_def Let_def)
    have "status_of m1 = status_of m" "undo_of m1 = undo_of m" "snap_of m1 = (snap_of m)(i \<mapsto> snap)" "ids_ok m1"
      using obj tinv True by (auto simp: m1 status_of_def undo_of_def snap_of_def fun_eq_iff txns_inv_def ids_ok_def)
    moreover have "objs m1 j = None \<longleftrightarrow> objs m j = None" for j by (simp add: m1)
    ultimately have "txns_inv m1" "chains_inv m1"
      using tinv cinv new same by (auto simp: txns_inv_def chains_inv_def owned_def logged_def snap_inv_def m1(2))
    with new m1 show ?thesis by (simp add: mvcc_inv_def)
  next
    case False
    then have "same_core m m1 \<and> (snap = takeSnapshot m \<or> snap_of m i = Some snap)"
      using get obj by (auto simp: getSnapshot_def Let_def snap_of_def split: if_splits option.splits intro: same_core_refl same_core_intros)
    moreover have "snap_inv m i snap" if "snap_of m i = Some snap"
      using tinv i that by (auto simp: txns_inv_def)
    ultimately show ?thesis using mvcc_inv_core [OF _ inv] new by blast
  qed
  with same show "mvcc_inv m1" "snap_inv m1 i snap" "snapshot_ok snap" "MVCCStore m1 = MVCCStore m" "txns m1 = txns m"
    "committed m1 = committed m" "aborted m1 = aborted m" "nextID m1 = nextID m"
    by (auto simp: snap_inv_def)
  show "\<exists>t1. objs m1 i = Some t1 \<and> t_ID t1 = i \<and> Txn_IsActive t1 \<and> t_UndoLog t1 = t_UndoLog t \<and>
      t_Isolation t1 = t_Isolation t \<and> t_Protocol t1 = t_Protocol t"
    using get obj act i by (auto simp: getSnapshot_def Let_def setCurrentStatementSnapshot_def Txn_IsActive_def GetStatus_def
        split: if_splits option.splits)
qed

lemma MVCCRead_inv:
  assumes "mvcc_inv m" and "MVCCRead e i table key m = (r, m')"
  shows "mvcc_inv m'"
proof (cases "objs m i")
  case None
  with assms show ?thesis by (simp add: MVCCRead_def)
next
  case (Some t)
  show ?thesis
  proof (cases "Txn_IsActive t")
    case False
    with assms Some show ?thesis by (simp add: MVCCRead_def)
  next
    case True
    obtain snap m1 where get: "getSnapshot i t m = (snap, m1)" by fastforce
    have "same_core m1 m'"
      using assms(2) Some True get
      by (auto simp: MVCCRead_def split: option.splits if_splits intro: same_core_refl same_core_intros)
    then show ?thesis using getSnapshot_inv(1) [OF assms(1) Some True get] mvcc_inv_core by blast
  qed
qed

section \<open>Beginning\<close>

lemma Begin_fresh:
  assumes "mvcc_inv m" and "nextID m + 1 < - 1"
  shows "nextID m < nextID m + 1" and "nextID m + 1 \<notin> set (txns m) \<union> set (committed m) \<union> set (aborted m)"
    and "objs m (nextID m + 1) = None"
proof -
  have less: "nextID m < nextID m + 1" using assms(1) by (intro word_less_Suc) (simp add: mvcc_inv_def txns_inv_def)
  then show "nextID m < nextID m + 1" "objs m (nextID m + 1) = None"
    using assms(1) by (auto simp: mvcc_inv_def txns_inv_def)
  show "nextID m + 1 \<notin> set (txns m) \<union> set (committed m) \<union> set (aborted m)"
    using assms(1) less unfolding mvcc_inv_def txns_inv_def by (metis leD)
qed

text \<open>The state after entering the new transaction, as far as the invariant is concerned.\<close>

lemma enter_txn_core:
  assumes "objs m i = None" and "m' = enter_txn e i protocol iso_level m"
  shows "txns m' = List.insert i (txns m)" "committed m' = committed m" "aborted m' = aborted m" "nextID m' = nextID m"
    "MVCCStore m' = MVCCStore m" "status_of m' = (status_of m)(i \<mapsto> TxnActive)" "undo_of m' = undo_of m"
    "snap_of m' = (snap_of m)(i := if protocol = ProtocolMVCC \<and> iso_level \<noteq> ReadCommitted then Some (takeSnapshot m) else None)"
    "ids_ok m \<Longrightarrow> ids_ok m'" "j \<noteq> i \<Longrightarrow> objs m' j = objs m j"
  using assms
  by (auto simp: enter_txn_def Let_def status_of_def undo_of_def snap_of_def ids_ok_def fun_eq_iff NewTransaction_def NewUndoLog_def
      split: prod.splits option.splits)

lemma Begin_inv:
  assumes inv: "mvcc_inv m" and guard: "nextID m + 1 < - 1" and b: "Begin e protocol iso_level m = (r, m')"
  shows "mvcc_inv m'"
proof (cases "MaxActive m > 0 \<and> int (length (txns m)) \<ge> MaxActive m")
  case True
  with b inv show ?thesis by (simp add: Begin_def)
next
  case False
  let ?i = "nextID m + 1"
  let ?m1 = "m\<lparr>nextID := ?i\<rparr>"
  note fresh = Begin_fresh [OF inv guard]
  have m': "m' = enter_txn e ?i protocol iso_level ?m1" using False b by (auto simp: Begin_def nextTxnID_def)
  have "objs ?m1 ?i = None" using fresh(3) by simp
  note core = enter_txn_core [OF this m']
  have same: "status_of ?m1 = status_of m" "undo_of ?m1 = undo_of m" "snap_of ?m1 = snap_of m" "ids_ok ?m1 = ids_ok m"
    by (simp_all add: status_of_def [abs_def] undo_of_def [abs_def] snap_of_def [abs_def] ids_ok_def)
  have tinv: "txns_inv m" and cinv: "chains_inv m" using inv by (auto simp: mvcc_inv_def)
  have ids: "\<forall>j \<in> set (txns m). j < ?i" "?i < ?i + 1"
    using tinv fresh(1) word_less_Suc [OF guard] by (auto simp: txns_inv_def intro: le_less_trans)
  have old: "snap_inv m' j s" if "snap_of m j = Some s" "j \<in> set (txns m)" for j s
  proof -
    have "snap_inv m j s" using tinv that by (auto simp: txns_inv_def)
    with ids show ?thesis by (auto simp: snap_inv_def core concurrent_def)
  qed
  have xmin: "Xmin (takeSnapshot ?m1) \<le> ?i + 1"
    using takeSnapshot_simps(3,5) [where m = ?m1] ids by (cases "txns m = []") (auto intro: less_imp_le order_trans)
  have new: "snap_inv m' ?i (takeSnapshot ?m1)"
    using ids xmin takeSnapshot_simps(1,2,4) [where m = ?m1]
    by (auto simp: snap_inv_def core concurrent_def snapshot_ok_def intro: less_trans)
  have none: "objs m' j = None" if "?i < j" for j
    using that fresh(1) tinv core(10) [of j] by (auto simp: txns_inv_def)
  have snaps: "\<forall>j \<in> set (txns m'). \<forall>s. snap_of m' j = Some s \<longrightarrow> snap_inv m' j s"
    using old new by (auto simp: core same split: if_splits)
  have le: "\<forall>j \<in> set (txns m') \<union> set (committed m') \<union> set (aborted m'). j \<le> nextID m'"
    using tinv less_imp_le [OF fresh(1)] by (auto simp: txns_inv_def core intro: order_trans)
  have act: "\<forall>j. j \<in> set (txns m') \<longleftrightarrow> status_of m' j = Some TxnActive"
    using tinv by (simp add: txns_inv_def core same)
  have disj: "set (txns m') \<inter> set (committed m') = {}" "set (txns m') \<inter> set (aborted m') = {}" "set (committed m') \<inter> set (aborted m') = {}"
    "0 \<in> set (committed m')" "distinct (txns m')" "ids_ok m'" "nextID m' < - 1"
    using tinv fresh(2) guard core(9) by (simp_all add: txns_inv_def core same)
  have "txns_inv m'" unfolding txns_inv_def using snaps le act disj none core(4) by simp
  moreover have "chains_inv m'"
    by (rule chains_inv_owned [OF cinv]) (auto simp: owned_def core same logged_def)
  ultimately show ?thesis by (simp add: mvcc_inv_def)
qed

section \<open>Writing\<close>

lemma chain_ids_simps [simp]:
  "chain_ids [] = {}" "chain_ids (v # vs) = {XMin v, XMax v} \<union> chain_ids vs"
  by (auto simp: chain_ids_def)

lemma chain_ids_mark_first: "chain_ids (mark_first P i vs) \<subseteq> insert i (chain_ids vs)"
  by (induction vs) auto

text \<open>What a write does to the chain it has locked: at most the creator's version on top, and
  its mark on an older version.\<close>

definition row_write :: "env \<Rightarrow> txn_id \<Rightarrow> Snapshot \<Rightarrow> gostring \<Rightarrow> gostring \<Rightarrow> values \<Rightarrow> UndoOpType \<Rightarrow> VersionChain \<Rightarrow> Manager \<Rightarrow>
   mgr_error \<times> VersionChain + VersionChain \<times> Manager"
where
  "row_write e i snap table key vals op chain m =
     (case op of
        UndoInsert \<Rightarrow> mvcc_insert e i table key vals chain m
      | UndoUpdate \<Rightarrow> mvcc_update e i snap table key vals chain m
      | UndoDelete \<Rightarrow> mvcc_delete e i snap table key chain m)"

lemma row_write_Inr:
  assumes "row_write e i snap table key vals op chain m = Inr (chain', m')"
  shows "tombstoned chain' = tombstoned chain"
    and "chain_ids (c_versions chain') \<subseteq> {i, 0} \<union> chain_ids (c_versions chain)"
    and "\<exists>l b m1. same_core m m1 \<and> m' = upd_txn i (log_undo op table key b l) m1"
proof -
  show "tombstoned chain' = tombstoned chain" "chain_ids (c_versions chain') \<subseteq> {i, 0} \<union> chain_ids (c_versions chain)"
    using assms chain_ids_mark_first
    by (fastforce simp: row_write_def mvcc_insert_def mvcc_update_def mvcc_delete_def Let_def Prepend_def new_version_def
        split: UndoOpType.splits option.splits prod.splits)+
  show "\<exists>l b m1. same_core m m1 \<and> m' = upd_txn i (log_undo op table key b l) m1"
    using assms
    by (auto simp: row_write_def mvcc_insert_def mvcc_update_def mvcc_delete_def Let_def
        split: UndoOpType.splits option.splits dest!: same_core_log_write)
qed

lemma row_write_Inl:
  assumes "row_write e i snap table key vals op chain m = Inl (err, chain')" and "err \<noteq> EncodePanic"
  shows "chain' = chain"
  using assms by (auto simp: row_write_def mvcc_insert_def mvcc_update_def mvcc_delete_def Let_def
      split: UndoOpType.splits option.splits)

lemma MVCCWrite_locked:
  assumes "objs m i = Some t" "Txn_IsActive t" "t_ID t = i" "getSnapshot i t m = (snap, m1)"
    and "GetOrCreateChain (MVCCStore m1) table key = (c0, s0)" "lock_live_chain 4 reaps table key c0 s0 = Some (chain, s)"
  shows "MVCCWrite e reaps i table key vals op m =
     (if e_reset e then (Inl (TxnErr NewTxnAbortedError), m1\<lparr>MVCCStore := s\<rparr>)
      else case CheckWriteConflict i chain snap (VacuumChecker m1) of
             Some x \<Rightarrow> (Inl (TxnErr (NewWriteConflictError x)), m1\<lparr>MVCCStore := s\<rparr>)
           | None \<Rightarrow>
               (case row_write e i snap table key vals op chain (m1\<lparr>MVCCStore := s\<rparr>) of
                  Inl (err, chain') \<Rightarrow> (Inl err, m1\<lparr>MVCCStore := put_chain table key chain' s\<rparr>)
                | Inr (chain', m3) \<Rightarrow>
                    (Inr (), upd_txn i (addWrite key)
                       (ssi_write i t table key (m3\<lparr>MVCCStore := put_chain table key chain' (MVCCStore m3)\<rparr>)))))"
  using assms by (simp add: MVCCWrite_def row_write_def Let_def split: option.splits sum.splits)

text \<open>The writes that reach the row, and those that fail before, as one case distinction.\<close>

lemma MVCCWrite_cases:
  assumes inv: "mvcc_inv m" and w: "MVCCWrite e reaps i table key vals op m = (r, m')" and ok: "r \<noteq> Inl EncodePanic"
  obtains (fail) "m' = m" "r \<noteq> Inr ()"
  | (refused) t snap m1 s where "objs m i = Some t" "Txn_IsActive t" "getSnapshot i t m = (snap, m1)"
      "live_store s" "versions s = versions (MVCCStore m)" "m' = m1\<lparr>MVCCStore := s\<rparr> \<or> m' = m1"
      "r \<noteq> Inr ()"
  | (written) t snap m1 s chain chain' m3 where "objs m i = Some t" "Txn_IsActive t" "getSnapshot i t m = (snap, m1)"
      "live_store s" "versions s = versions (MVCCStore m)" "GetChain s table key = Some chain" "\<not> e_reset e"
      "CheckWriteConflict i chain snap (VacuumChecker m1) = None"
      "row_write e i snap table key vals op chain (m1\<lparr>MVCCStore := s\<rparr>) = Inr (chain', m3)"
      "same_core (m3\<lparr>MVCCStore := put_chain table key chain' (MVCCStore m3)\<rparr>) m'" "r = Inr ()"
proof (cases "\<exists>t. objs m i = Some t \<and> Txn_IsActive t")
  case False
  with w have "m' = m" "r \<noteq> Inr ()" by (auto simp: MVCCWrite_def split: option.splits)
  then show ?thesis by (rule fail)
next
  case True
  then obtain t where t: "objs m i = Some t" "Txn_IsActive t" by blast
  obtain snap m1 where get: "getSnapshot i t m = (snap, m1)" by fastforce
  obtain c0 s0 where c0: "GetOrCreateChain (MVCCStore m1) table key = (c0, s0)" by fastforce
  note m1 = getSnapshot_inv [OF inv t get]
  have id: "t_ID t = i" using inv t(1) by (auto simp: mvcc_inv_def txns_inv_def ids_ok_def)
  show ?thesis
  proof (cases "lock_live_chain 4 reaps table key c0 s0")
    case None
    with w t get c0 have "m' = m1" "r \<noteq> Inr ()" by (auto simp: MVCCWrite_def)
    moreover have "live_store (MVCCStore m)" using inv by (simp add: mvcc_inv_def chains_inv_live)
    ultimately show ?thesis using refused [OF t get] by blast
  next
    case (Some cs)
    obtain chain s where cs: "cs = (chain, s)" by fastforce
    have "chains_inv m1" using m1(1) by (simp add: mvcc_inv_def)
    note lk = lock_chain_spec [OF this c0 Some [unfolded cs]]
    note W = w [unfolded MVCCWrite_locked [OF t id get c0 Some [unfolded cs]]]
    consider (error) "m' = m1\<lparr>MVCCStore := s\<rparr>" "r \<noteq> Inr ()"
      | (inl) err chain' where "row_write e i snap table key vals op chain (m1\<lparr>MVCCStore := s\<rparr>) = Inl (err, chain')"
          "m' = m1\<lparr>MVCCStore := put_chain table key chain' s\<rparr>" "r = Inl err"
      | (inr) chain' m3 where "\<not> e_reset e" "CheckWriteConflict i chain snap (VacuumChecker m1) = None"
          "row_write e i snap table key vals op chain (m1\<lparr>MVCCStore := s\<rparr>) = Inr (chain', m3)" "r = Inr ()"
          "m' = upd_txn i (addWrite key) (ssi_write i t table key (m3\<lparr>MVCCStore := put_chain table key chain' (MVCCStore m3)\<rparr>))"
      using W by (auto split: if_splits option.splits sum.splits)
    then show ?thesis
    proof cases
      case error
      then show ?thesis using refused [OF t get lk(1)] lk(4) m1(4) by simp
    next
      case inl
      with ok row_write_Inl [OF inl(1)] have "chain' = chain" by auto
      with lk have "live_store (put_chain table key chain' s)" "versions (put_chain table key chain' s) = versions (MVCCStore m)"
        by (auto simp: live_store_def store_ok_put_chain GetChain_put_chain versions_put_chain fun_eq_iff m1(4))
      with inl show ?thesis using refused [OF t get] by simp
    next
      case inr
      then show ?thesis
        using written [OF t get lk(1) _ lk(2) _ _ inr(3)] lk(4) m1(4) by (auto intro: same_core_intros same_core_refl)
    qed
  qed
qed

lemma mvcc_inv_store:
  assumes "mvcc_inv m" "live_store s" "versions s = versions (MVCCStore m)"
  shows "mvcc_inv (m\<lparr>MVCCStore := s\<rparr>)"
proof -
  have "txns_inv (m\<lparr>MVCCStore := s\<rparr>) \<longleftrightarrow> txns_inv m"
    by (simp add: txns_inv_def ids_ok_def status_of_def snap_of_def snap_inv_def)
  with assms chains_inv_store show ?thesis by (simp add: mvcc_inv_def)
qed

text \<open>A successful write leaves the row to the writer: it is in its undo log.\<close>

lemma row_written_inv:
  assumes inv: "mvcc_inv m" and t: "objs m i = Some t" "Txn_IsActive t" "t_Protocol t = ProtocolMVCC"
    and chain: "GetChain (MVCCStore m) table key = Some chain"
    and w: "row_write e i snap table key vals op chain m = Inr (chain', m3)"
  shows "mvcc_inv (m3\<lparr>MVCCStore := put_chain table key chain' (MVCCStore m3)\<rparr>)" (is "mvcc_inv ?m")
proof -
  obtain l b m1 where m3: "same_core m m1" "m3 = upd_txn i (log_undo op table key b l) m1"
    using row_write_Inr(3) [OF w] by blast
  have inv1: "txns_inv m1" "chains_inv m1" and store: "MVCCStore m1 = MVCCStore m"
    using mvcc_inv_core [OF m3(1) inv] m3(1) by (auto simp: mvcc_inv_def same_core_def)
  have tt: "txns_inv m" using inv by (simp add: mvcc_inv_def)
  then have i: "i \<in> set (txns m)" using t by (auto simp: txns_inv_def status_of_def Txn_IsActive_def GetStatus_def)
  have "proto_of m1 i = proto_of m i" using m3(1) by (simp add: same_core_def)
  then obtain t1 where t1: "objs m1 i = Some t1" "t_Protocol t1 = ProtocolMVCC" using t by (auto simp: proto_of_def)
  have m1: "txns m1 = txns m" "committed m1 = committed m" "aborted m1 = aborted m" "nextID m1 = nextID m"
    using m3(1) by (simp_all add: same_core_def)
  have fields: "txns ?m = txns m" "committed ?m = committed m" "aborted ?m = aborted m" "nextID ?m = nextID m"
    by (simp_all add: m3(2) m1)
  have ids: "ids_ok ?m \<longleftrightarrow> ids_ok m1" using t1 by (auto simp: m3(2) ids_ok_def log_undo_def)
  have core: "status_of ?m = status_of m1" "snap_of ?m = snap_of m1"
      "undo_of ?m = (undo_of m1)(i := undo_of m1 i @ [\<lparr>u_Op = op, u_Table = table, u_Key = key, BeforeImage = b, WALWriteLSN = l\<rparr>])"
    using t1 by (simp_all add: m3(2) status_of_def snap_of_def undo_of_def fun_eq_iff log_undo_def AppendWithLSN_def)
  have objs: "objs ?m j = None \<longleftrightarrow> objs m1 j = None" for j by (simp add: m3(2))
  have "txns_inv ?m"
    using inv1(1) unfolding txns_inv_def snap_inv_def core(1,2) ids fields m1 objs by simp
  moreover have "chains_inv ?m"
  proof -
    have own: "owned ?m ta k x" if "owned m1 ta k x" for ta k x
      using that by (auto simp: owned_def logged_def core(3) fields m1)
    have 0: "owned ?m ta k 0" for ta k using tt by (simp add: owned_def fields txns_inv_def)
    have me: "owned ?m table key i" using i by (simp add: owned_def logged_def core(3) fields)
    have "owned ?m ta k x" if "x \<in> chain_ids (versions (MVCCStore ?m) ta k)" for ta k x
    proof (cases "ta = table \<and> k = key")
      case True
      with that row_write_Inr(2) [OF w] have "x \<in> {i, 0} \<union> chain_ids (versions (MVCCStore m1) table key)"
        by (auto simp: GetChain_put_chain m3(2) store versions_def chain)
      with True me 0 own inv1(2) show ?thesis by (auto simp: chains_inv_def)
    next
      case False
      with that inv1(2) own show ?thesis by (auto simp: chains_inv_def versions_put_chain m3(2))
    qed
    moreover have "live_store (MVCCStore ?m)"
      using chains_inv_live [OF inv1(2)] row_write_Inr(1) [OF w] chain
      by (auto simp: live_store_def store_ok_put_chain GetChain_put_chain m3(2) store)
    ultimately show ?thesis by (auto simp: chains_inv_def live_store_def)
  qed
  ultimately show ?thesis by (simp add: mvcc_inv_def)
qed

lemma MVCCWrite_inv:
  assumes inv: "mvcc_inv m" and w: "MVCCWrite e reaps i table key vals op m = (r, m')" and ok: "r \<noteq> Inl EncodePanic"
    and proto: "proto_of m i \<noteq> Some Protocol2PL"
  shows "mvcc_inv m'"
proof (rule MVCCWrite_cases [OF inv w ok])
  fix t snap m1 s
  assume t: "objs m i = Some t" "Txn_IsActive t" "getSnapshot i t m = (snap, m1)"
    and s: "live_store s" "versions s = versions (MVCCStore m)" "m' = m1\<lparr>MVCCStore := s\<rparr> \<or> m' = m1"
  note m1 = getSnapshot_inv(1,4) [OF inv t]
  from s(3) mvcc_inv_store [OF m1(1) s(1)] s(2) m1 show "mvcc_inv m'" by auto
next
  fix t snap m1 s chain chain' m3
  assume t: "objs m i = Some t" "Txn_IsActive t" "getSnapshot i t m = (snap, m1)"
    and s: "live_store s" "versions s = versions (MVCCStore m)" "GetChain s table key = Some chain"
    and row: "row_write e i snap table key vals op chain (m1\<lparr>MVCCStore := s\<rparr>) = Inr (chain', m3)"
    and m': "same_core (m3\<lparr>MVCCStore := put_chain table key chain' (MVCCStore m3)\<rparr>) m'"
  note m1 = getSnapshot_inv [OF inv t]
  have inv1: "mvcc_inv (m1\<lparr>MVCCStore := s\<rparr>)" using mvcc_inv_store [OF m1(1) s(1)] s(2) m1(4) by simp
  have "t_Protocol t = ProtocolMVCC" using proto t(1) by (cases "t_Protocol t") (auto simp: proto_of_def)
  with m1(9) obtain t1 where "objs m1 i = Some t1" "Txn_IsActive t1" "t_Protocol t1 = ProtocolMVCC" by auto
  then have "mvcc_inv (m3\<lparr>MVCCStore := put_chain table key chain' (MVCCStore m3)\<rparr>)"
    using s(3) by (intro row_written_inv [OF inv1 _ _ _ _ row]) simp_all
  then show "mvcc_inv m'" using mvcc_inv_core [OF m'] by blast
qed (use inv in auto)

section \<open>Ending\<close>

lemma end_txn_simps [simp]:
  "MVCCStore (end_txn i s m) = MVCCStore m" "nextID (end_txn i s m) = nextID m" "txns (end_txn i s m) = removeAll i (txns m)"
  "committed (end_txn i s m) = (if s = TxnCommitted then List.insert i (committed m) else committed m)"
  "aborted (end_txn i s m) = (if s = TxnCommitted then aborted m else List.insert i (aborted m))"
  "objs (end_txn i s m) = (objs m)(i := map_option (setStatus s) (objs m i))"
  by (simp_all add: end_txn_def Let_def)

lemma end_txn_core:
  assumes "objs m i = Some t"
  shows "status_of (end_txn i s m) = (status_of m)(i \<mapsto> s)" "snap_of (end_txn i s m) = snap_of m"
    "undo_of (end_txn i s m) = undo_of m" "ids_ok (end_txn i s m) \<longleftrightarrow> ids_ok m"
  using assms by (auto simp: status_of_def snap_of_def undo_of_def ids_ok_def setStatus_def fun_eq_iff)

lemma end_txn_inv:
  assumes inv: "txns_inv m" and t: "objs m i = Some t" and i: "i \<in> set (txns m)" and s: "s \<noteq> TxnActive"
  shows "txns_inv (end_txn i s m)"
proof -
  have new: "i \<notin> set (committed m)" "i \<notin> set (aborted m)" "i \<le> nextID m" using inv i by (auto simp: txns_inv_def)
  have act: "j \<in> set (txns m) - {i} \<longleftrightarrow> ((status_of m)(i \<mapsto> s)) j = Some TxnActive" for j
    using inv s by (auto simp: txns_inv_def)
  have snap: "snap_inv (end_txn i s m) j sn" if "snap_inv m j sn" for j sn using that by (auto simp: snap_inv_def)
  show ?thesis
    using inv new act snap t unfolding txns_inv_def end_txn_core [OF t] by (auto simp: distinct_removeAll)
qed

lemma commit_inv:
  assumes inv: "mvcc_inv m" and t: "objs m i = Some t" and i: "i \<in> set (txns m)"
  shows "mvcc_inv (end_txn i TxnCommitted m)"
proof -
  have "chains_inv m" using inv by (simp add: mvcc_inv_def)
  then have "chains_inv (end_txn i TxnCommitted m)"
    by (rule chains_inv_owned) (auto simp: owned_def logged_def end_txn_core [OF t])
  with end_txn_inv [OF _ t i] inv show ?thesis by (simp add: mvcc_inv_def)
qed

text \<open>What the undo of a multi-version transaction leaves of a row.\<close>

definition undone :: "txn_id \<Rightarrow> version list \<Rightarrow> version list" where
  "undone i vs = map (\<lambda>v. if XMax v = i then v\<lparr>XMax := 0\<rparr> else v) (filter (\<lambda>v. XMin v \<noteq> i) vs)"

lemma undone_ids: "i \<noteq> 0 \<Longrightarrow> chain_ids (undone i vs) \<subseteq> insert 0 (chain_ids vs) - {i}"
  by (induction vs) (auto simp: undone_def)

lemma undone_other: "i \<notin> chain_ids vs \<Longrightarrow> undone i vs = vs"
  by (induction vs) (auto simp: undone_def)

lemma mvcc_undo_loop_spec:
  "live_store s \<Longrightarrow> live_store (mvcc_undo_loop i us seen s) \<and>
     versions (mvcc_undo_loop i us seen s) table key =
       (if (table, key) \<in> (\<lambda>u. (u_Table u, u_Key u)) ` set us - set seen then undone i (versions s table key) else versions s table key)"
proof (induction us arbitrary: seen s)
  case (Cons u us)
  let ?tk = "(u_Table u, u_Key u)"
  show ?case
  proof (cases "?tk \<in> set seen \<or> GetChain s (u_Table u) (u_Key u) = None")
    case True
    have [simp]: "undone i (versions s ta k) = versions s ta k" if "GetChain s ta k = None" for ta k
      using that by (simp add: versions_def undone_def)
    show ?thesis
      using True Cons.prems Cons.IH [of s seen] Cons.IH [of s "?tk # seen"] by (cases "?tk \<in> set seen") auto
  next
    case False
    then obtain c where c: "GetChain s (u_Table u) (u_Key u) = Some c" "?tk \<notin> set seen" by auto
    let ?s = "put_chain (u_Table u) (u_Key u) (ClearXMax (RemoveByXMin c i) i) s"
    have loop: "mvcc_undo_loop i (u # us) seen s = mvcc_undo_loop i us (?tk # seen) ?s" using c by (simp add: Let_def)
    have live: "live_store ?s"
      using Cons.prems c by (auto simp: live_store_def store_ok_put_chain GetChain_put_chain ClearXMax_def RemoveByXMin_def)
    have vs: "versions ?s table key = (if ?tk = (table, key) then undone i (versions s table key) else versions s table key)"
      using c by (auto simp: GetChain_put_chain undone_def ClearXMax_def RemoveByXMin_def versions_def)
    note IH = Cons.IH [OF live, of "?tk # seen", folded loop, unfolded vs]
    show ?thesis
    proof (cases "?tk = (table, key)")
      case True
      with IH c(2) show ?thesis by simp
    next
      case False
      then have "(table, key) \<in> (\<lambda>u. (u_Table u, u_Key u)) ` set (u # us) - set seen \<longleftrightarrow>
          (table, key) \<in> (\<lambda>u. (u_Table u, u_Key u)) ` set us - set (?tk # seen)" by auto
      with IH False show ?thesis by (simp only: if_False)
    qed
  qed
qed simp

lemma applyMVCCUndo_spec:
  assumes inv: "chains_inv m" and t: "objs m i = Some t" "t_ID t = i" "t_Protocol t = ProtocolMVCC" and i: "i \<notin> set (committed m)"
    and e: "\<not> e_reset e" and m': "m' = applyMVCCUndo e t m'' " and store: "MVCCStore m'' = MVCCStore m"
  shows "live_store (MVCCStore m')" and "versions (MVCCStore m') table key = undone i (versions (MVCCStore m) table key)"
proof -
  let ?us = "t_UndoLog t"
  note spec = mvcc_undo_loop_spec [OF chains_inv_live [OF inv], of i ?us "[]"]
  have eq: "MVCCStore m' = mvcc_undo_loop i ?us [] (MVCCStore m)"
    using e t store by (simp add: m' applyMVCCUndo_def UndoLog_All_def)
  then show "live_store (MVCCStore m')" using spec by simp
  have "undone i (versions (MVCCStore m) table key) = versions (MVCCStore m) table key"
    if "(table, key) \<notin> (\<lambda>u. (u_Table u, u_Key u)) ` set ?us"
  proof (rule undone_other)
    have "\<not> owned m table key i" using that t i by (auto simp: owned_def logged_def undo_of_def)
    then show "i \<notin> chain_ids (versions (MVCCStore m) table key)" using inv by (auto simp: chains_inv_def)
  qed
  then show "versions (MVCCStore m') table key = undone i (versions (MVCCStore m) table key)"
    using spec by (simp add: eq)
qed

text \<open>The abort of a multi-version transaction, on both paths that abort one.\<close>

lemma abort_inv:
  assumes inv: "mvcc_inv m" and t: "objs m i = Some t" "i \<in> set (txns m)"
    and m1: "same_core (end_txn i TxnAborted m) m1"
    and m': "m' = (if t_Protocol t = ProtocolMVCC then m1\<lparr>MVCCStore := s\<rparr> else m1)"
    and s: "live_store s" "\<And>table key. versions s table key = undone i (versions (MVCCStore m) table key)"
  shows "mvcc_inv m'"
proof -
  let ?m = "end_txn i TxnAborted m"
  have tinv: "txns_inv m" and cinv: "chains_inv m" using inv by (auto simp: mvcc_inv_def)
  have i: "i \<notin> set (committed m)" "i \<noteq> 0" using tinv t by (auto simp: txns_inv_def)
  have "txns_inv m1"
    using txns_inv_cong [OF m1] same_core_objs [OF m1] end_txn_inv [OF tinv t] by simp
  then have 1: "txns_inv m'" by (auto simp: m' txns_inv_def ids_ok_def status_of_def snap_of_def snap_inv_def)
  have own: "owned m' table key x" if "owned m table key x" "x \<noteq> i" for table key x
  proof -
    have "undo_of m' = undo_of m" "txns m' = removeAll i (txns m)" "committed m' = committed m"
      using m1 by (auto simp: same_core_def m' end_txn_core [OF t(1)] undo_of_def [of "m1\<lparr>MVCCStore := s\<rparr>"] undo_of_def [of m1] fun_eq_iff)
    with that show ?thesis by (auto simp: owned_def logged_def)
  qed
  have "x \<noteq> i \<and> owned m' table key x" if "x \<in> chain_ids (versions (MVCCStore m') table key)" for table key x
  proof (cases "t_Protocol t = ProtocolMVCC")
    case True
    with that s(2) undone_ids [OF i(2)] have "x \<noteq> i" "x = 0 \<or> x \<in> chain_ids (versions (MVCCStore m) table key)" by (auto simp: m')
    moreover have "owned m table key 0" using tinv by (simp add: owned_def txns_inv_def)
    ultimately show ?thesis using cinv own by (auto simp: chains_inv_def)
  next
    case False
    with that m1 have "x \<in> chain_ids (versions (MVCCStore m) table key)" by (simp add: m' same_core_def)
    then have "owned m table key x" using cinv by (auto simp: chains_inv_def)
    moreover have "\<not> owned m table key i" using False t i by (simp add: owned_def logged_def undo_of_def)
    ultimately show ?thesis using own by auto
  qed
  moreover have "live_store (MVCCStore m')"
    using s(1) m1 chains_inv_live [OF cinv] by (simp add: m' same_core_def)
  ultimately show ?thesis using 1 by (auto simp: mvcc_inv_def chains_inv_def live_store_def)
qed

lemma GetTxn_active:
  assumes "mvcc_inv m" and "GetTxn m i = Some t"
  shows "objs m i = Some t" "i \<in> set (txns m)" "t_ID t = i" "GetStatus t = TxnActive"
  using assms by (auto simp: GetTxn_def mvcc_inv_def txns_inv_def ids_ok_def status_of_def GetStatus_def split: if_splits)

lemma release_locks_core: "release_locks i m = (err, m') \<Longrightarrow> same_core m m'"
  by (auto simp: release_locks_def split: option.splits intro: same_core_refl same_core_intros)

lemma undo_entries_loop_core: "undo_entries_loop e i us l m = (l', m') \<Longrightarrow> same_core m m'"
proof (induction us arbitrary: l m)
  case (Cons u us)
  obtain l1 w where step: "undo_entries_loop e i us l1 (m\<lparr>m_WAL := w, m_Catalog := undo_action u (m_Catalog m)\<rparr>) = (l', m')"
    using Cons.prems by (auto simp: Let_def split: prod.splits)
  have "same_core m (m\<lparr>m_WAL := w, m_Catalog := undo_action u (m_Catalog m)\<rparr>)"
    by (intro same_core_intros same_core_refl)
  then show ?case using Cons.IH [OF step] same_core_trans by blast
qed simp

text \<open>The undo of the two kinds of transactions, in one form.\<close>

lemma abort_undo_inv:
  assumes inv: "mvcc_inv m" and t: "GetTxn m i = Some t" and e: "\<not> e_reset e"
    and m1: "same_core (end_txn i TxnAborted m) m1"
    and m': "if t_Protocol t = ProtocolMVCC then m' = applyMVCCUndo e t m1 else same_core m1 m'"
  shows "mvcc_inv m'"
proof -
  note a = GetTxn_active [OF inv t]
  have cinv: "chains_inv m" and i: "i \<notin> set (committed m)"
    using inv a by (auto simp: mvcc_inv_def txns_inv_def)
  have store: "MVCCStore m1 = MVCCStore m" using m1 by (simp add: same_core_def)
  show ?thesis
  proof (cases "t_Protocol t")
    case ProtocolMVCC
    then have eq: "m' = applyMVCCUndo e t m1" using m' by simp
    note spec = applyMVCCUndo_spec [OF cinv a(1,3) ProtocolMVCC i e eq store]
    have "m' = (if t_Protocol t = ProtocolMVCC then m1\<lparr>MVCCStore := MVCCStore m'\<rparr> else m1)"
      using e ProtocolMVCC by (simp add: eq applyMVCCUndo_def)
    from abort_inv [OF inv a(1,2) m1 this spec] show ?thesis .
  next
    case Protocol2PL
    have core: "same_core (end_txn i TxnAborted m) m'" using m' m1 Protocol2PL by (auto intro: same_core_trans)
    have none: "\<not> owned m table key i" for table key
      using a i Protocol2PL by (simp add: owned_def logged_def undo_of_def)
    have "undone i (versions (MVCCStore m) table key) = versions (MVCCStore m) table key" for table key
      using cinv none [of table key] unfolding chains_inv_def by (intro undone_other notI) blast
    then show ?thesis
      using abort_inv [OF inv a(1,2) core, of m' "MVCCStore m"] Protocol2PL chains_inv_live [OF cinv] by simp
  qed
qed

text \<open>What \<^verbatim>\<open>Abort\<close> and \<^verbatim>\<open>Commit\<close> of an active transaction come down to.\<close>

definition rolled_back :: "env \<Rightarrow> txn_id \<Rightarrow> Transaction \<Rightarrow> Manager \<Rightarrow> Manager \<Rightarrow> bool" where
  "rolled_back e i t m m' \<longleftrightarrow>
     (\<exists>m1 m2. same_core (end_txn i TxnAborted m) m1 \<and> same_core m2 m' \<and>
        (if t_Protocol t = ProtocolMVCC then m2 = applyMVCCUndo e t m1 else same_core m1 m2))"

lemma rolled_back_inv:
  assumes "mvcc_inv m" and "GetTxn m i = Some t" and "\<not> e_reset e" and "rolled_back e i t m m'"
  shows "mvcc_inv m'"
  using abort_undo_inv [OF assms(1-3)] assms(4) mvcc_inv_core unfolding rolled_back_def by blast

lemma Abort_active:
  assumes inv: "mvcc_inv m" and t: "GetTxn m i = Some t" and ab: "Abort e i m = (r, m')"
  shows "rolled_back e i t m m'"
proof -
  note a = GetTxn_active [OF inv t]
  let ?m1 = "upd_txn i closeAbort (end_txn i TxnAborted m)"
  obtain l err m2 where undo: "(if t_Protocol t = Protocol2PL then (let (l, m') = applyUndoLog e t ?m1 in (l, release_locks i m'))
      else (LSNInvalid, None, applyMVCCUndo e t ?m1)) = (l, err, m2)" by (rule prod_cases3)
  have "same_core (end_txn i TxnAborted m) ?m1" by (intro same_core_intros same_core_refl)
  moreover have "if t_Protocol t = ProtocolMVCC then m2 = applyMVCCUndo e t ?m1 else same_core ?m1 m2"
    using undo by (cases "t_Protocol t")
      (auto simp: Let_def applyUndoLog_def applyUndoEntries_def split: prod.splits
        dest!: undo_entries_loop_core release_locks_core intro: same_core_trans)
  moreover have "same_core m2 m'"
    using ab t a(4) undo by (auto simp: Abort_def Let_def split: if_splits intro: same_core_intros same_core_refl)
  ultimately show ?thesis unfolding rolled_back_def by blast
qed

definition pivots :: "Manager \<Rightarrow> txn_id \<Rightarrow> Transaction \<Rightarrow> bool" where
  "pivots m i t \<longleftrightarrow> t_Protocol t = ProtocolMVCC \<and> t_Isolation t = Serializable \<and> CheckCommit (m_SSITracker m) i"

lemma Commit_active:
  assumes inv: "mvcc_inv m" and t: "GetTxn m i = Some t" and co: "Commit e i m = (r, m')"
  shows "pivots m i t \<Longrightarrow> r = Some (TxnErr NewSerializationFailure) \<and> rolled_back e i t m m'"
    and "\<not> pivots m i t \<Longrightarrow> same_core m m' \<and> r = Some Hang \<or> (\<exists>w. same_core (end_txn i TxnCommitted (m\<lparr>m_WAL := w\<rparr>)) m')"
proof -
  note a = GetTxn_active [OF inv t]
  show "r = Some (TxnErr NewSerializationFailure) \<and> rolled_back e i t m m'" if p: "pivots m i t"
  proof -
    let ?m1 = "upd_txn i closeAbort (end_txn i TxnAborted m)"
    have "m' = applyMVCCUndo e t (?m1\<lparr>m_SSITracker := Cleanup (m_SSITracker ?m1) i\<rparr>)"
      "r = Some (TxnErr NewSerializationFailure)"
      using co t a(4) p by (simp_all add: Commit_def commit_ssi_abort_def pivots_def Let_def)
    moreover have "same_core (end_txn i TxnAborted m) (?m1\<lparr>m_SSITracker := Cleanup (m_SSITracker ?m1) i\<rparr>)"
      by (intro same_core_intros same_core_refl)
    ultimately show ?thesis using p unfolding rolled_back_def pivots_def by (metis same_core_refl)
  qed
  assume "\<not> pivots m i t"
  then have "commit_finish e i t m = (r, m')" using co t a(4) by (auto simp: Commit_def pivots_def)
  then show "same_core m m' \<and> r = Some Hang \<or> (\<exists>w. same_core (end_txn i TxnCommitted (m\<lparr>m_WAL := w\<rparr>)) m')"
    by (auto simp: commit_finish_def Let_def split: option.splits if_splits dest!: release_locks_core
        intro: same_core_intros same_core_refl same_core_trans)
qed

lemma Abort_inv:
  assumes "mvcc_inv m" and "Abort e i m = (r, m')" and "\<not> e_reset e"
  shows "mvcc_inv m'"
proof (cases "GetTxn m i")
  case None
  with assms show ?thesis by (simp add: Abort_def)
next
  case (Some t)
  then show ?thesis using rolled_back_inv Abort_active assms by blast
qed

lemma Commit_inv:
  assumes inv: "mvcc_inv m" and co: "Commit e i m = (r, m')" and e: "\<not> e_reset e"
  shows "mvcc_inv m'"
proof (cases "GetTxn m i")
  case None
  with co inv show ?thesis by (simp add: Commit_def)
next
  case (Some t)
  note a = GetTxn_active [OF inv Some]
  show ?thesis
  proof (cases "pivots m i t")
    case True
    with Commit_active(1) [OF inv Some co] rolled_back_inv [OF inv Some e] show ?thesis by blast
  next
    case False
    have "mvcc_inv (end_txn i TxnCommitted (m\<lparr>m_WAL := w\<rparr>))" for w
      using a by (intro commit_inv [OF mvcc_inv_core [OF _ inv]]) (auto intro: same_core_intros same_core_refl)
    with Commit_active(2) [OF inv Some co False] inv mvcc_inv_core show ?thesis by blast
  qed
qed

section \<open>Runs\<close>

lemma scan_chains_core: "same_core m (snd (scan_chains i t snap table flt cs (rows, m)))"
proof (induction cs arbitrary: rows m)
  case (Cons c cs)
  obtain key chain where c: "c = (key, chain)" by fastforce
  have "same_core m (ssi_read i t table key m)" by (intro same_core_intros same_core_refl)
  then show ?case
    using Cons.IH [of m rows] Cons.IH [of "ssi_read i t table key m"]
    by (auto simp: c Let_def split: option.splits intro: same_core_trans)
qed simp

lemma MVCCScan_inv:
  assumes inv: "mvcc_inv m" and s: "MVCCScan e i table flt m = (r, m')"
  shows "mvcc_inv m'"
proof (cases "\<exists>t. objs m i = Some t \<and> Txn_IsActive t")
  case False
  with inv s show ?thesis by (auto simp: MVCCScan_def split: option.splits)
next
  case True
  then obtain t where t: "objs m i = Some t" "Txn_IsActive t" by blast
  obtain snap m1 where get: "getSnapshot i t m = (snap, m1)" by fastforce
  obtain rows m2 where run: "scan_chains i t snap table flt (ForEachChainInTable (MVCCStore m1) table) ([], m1) = (rows, m2)"
    by fastforce
  have "m' = m2" using s t get run by (auto simp: MVCCScan_def split: if_splits)
  with scan_chains_core [of m1 i t snap table flt "ForEachChainInTable (MVCCStore m1) table" "[]"] run
  have "same_core m1 m'" by simp
  then show ?thesis using getSnapshot_inv(1) [OF inv t get] mvcc_inv_core by blast
qed

lemma savepoint_core:
  "CreateSavepoint i name m = (r, m') \<Longrightarrow> same_core m m'" "ReleaseSavepoint i name m = (r, m') \<Longrightarrow> same_core m m'"
  by (auto simp: CreateSavepoint_def ReleaseSavepoint_def split: option.splits intro!: same_core_upd same_core_refl)

text \<open>The operations of clients on a manager whose multi-version transactions are driven through
  the multi-version operations, in any order. Left out are the vacuum, \<^verbatim>\<open>Reset\<close>, the rollback of a
  multi-version transaction to a savepoint, and a write whose values the log encoder refuses.\<close>

datatype mvcc_op =
    OpBegin ConcurrencyProtocol IsolationLevel
  | OpRead txn_id gostring gostring
  | OpScan txn_id gostring
  | OpWrite txn_id gostring gostring UndoOpType
  | OpSavepoint txn_id
  | OpCommit txn_id
  | OpAbort txn_id

inductive mvcc_step :: "mvcc_op \<Rightarrow> Manager \<Rightarrow> Manager \<Rightarrow> bool" where
  step_begin: "Begin e protocol iso_level m = (r, m') \<Longrightarrow> nextID m + 1 < - 1 \<Longrightarrow> mvcc_step (OpBegin protocol iso_level) m m'"
| step_read: "MVCCRead e i table key m = (r, m') \<Longrightarrow> mvcc_step (OpRead i table key) m m'"
| step_scan: "MVCCScan e i table flt m = (r, m') \<Longrightarrow> mvcc_step (OpScan i table) m m'"
| step_write: "MVCCWrite e reaps i table key vals op m = (r, m') \<Longrightarrow> r \<noteq> Inl EncodePanic \<Longrightarrow>
    proto_of m i \<noteq> Some Protocol2PL \<Longrightarrow> mvcc_step (OpWrite i table key op) m m'"
| step_create: "CreateSavepoint i name m = (r, m') \<Longrightarrow> mvcc_step (OpSavepoint i) m m'"
| step_release: "ReleaseSavepoint i name m = (r, m') \<Longrightarrow> mvcc_step (OpSavepoint i) m m'"
| step_commit: "Commit e i m = (r, m') \<Longrightarrow> \<not> e_reset e \<Longrightarrow> mvcc_step (OpCommit i) m m'"
| step_abort: "Abort e i m = (r, m') \<Longrightarrow> \<not> e_reset e \<Longrightarrow> mvcc_step (OpAbort i) m m'"

inductive mvcc_run :: "mvcc_op list \<Rightarrow> Manager \<Rightarrow> Manager \<Rightarrow> bool" where
  run_none: "mvcc_run [] m m"
| run_step: "mvcc_step op m m' \<Longrightarrow> mvcc_run ops m' m'' \<Longrightarrow> mvcc_run (op # ops) m m''"

inductive_simps mvcc_run_simps [simp]: "mvcc_run [] m m'" "mvcc_run (op # ops) m m'"

lemma mvcc_step_inv: "mvcc_step op m m' \<Longrightarrow> mvcc_inv m \<Longrightarrow> mvcc_inv m'"
proof (induction rule: mvcc_step.induct)
  case step_begin
  then show ?case using Begin_inv by blast
next
  case step_read
  then show ?case using MVCCRead_inv by blast
next
  case step_scan
  then show ?case using MVCCScan_inv by blast
next
  case step_write
  then show ?case using MVCCWrite_inv by blast
next
  case step_create
  then show ?case using savepoint_core(1) mvcc_inv_core by blast
next
  case step_release
  then show ?case using savepoint_core(2) mvcc_inv_core by blast
next
  case step_commit
  then show ?case using Commit_inv by blast
next
  case step_abort
  then show ?case using Abort_inv by blast
qed

lemma mvcc_run_inv: "mvcc_run ops m m' \<Longrightarrow> mvcc_inv m \<Longrightarrow> mvcc_inv m'"
  by (induction rule: mvcc_run.induct) (auto dest: mvcc_step_inv)

end
