(* ===== verification/Server_Start.thy ===== *)
theory Server_Start
  imports Txn_Mvcc
begin

text \<open>
  The start of the server (\<^verbatim>\<open>cmd/server/main.go\<close>): the manager is created on the seeded catalog,
  the recovered log is applied to it, and the version store is filled from the catalog.
\<close>

section \<open>Wiring\<close>

definition apply_recovery :: "RecoveryResult \<Rightarrow> Manager \<Rightarrow> Manager" where
  "apply_recovery rec m =
     fold MarkAborted (Aborted rec)
       (fold MarkCommitted (Committed rec)
          (m\<lparr>m_Catalog := ApplyRedoOps applier_SetRow applier_DeleteRow (RedoOps rec) (m_Catalog m)\<rparr>))"

definition start_manager :: "int \<Rightarrow> WALWriter \<Rightarrow> RecoveryResult option \<Rightarrow> Catalog \<Rightarrow> Manager" where
  "start_manager maxActive w walRec c =
     (let m = (NewManager c)\<lparr>MaxActive := maxActive, m_WAL := w\<rparr>;
          m1 = (case walRec of None \<Rightarrow> m | Some rec \<Rightarrow> apply_recovery rec m);
          m2 = m1\<lparr>MVCCStore := fold (reseed_table 0 (m_Catalog m1)) (List_tables (m_Catalog m1)) (MVCCStore m1)\<rparr>
      in MarkCommitted 0 m2)"

section \<open>The version store after the start\<close>

definition seed_version :: "txn_id \<Rightarrow> Row \<Rightarrow> version" where
  "seed_version x row = \<lparr>XMin = x, XMax = 0, v_data = row_values row, v_lsn = 0\<rparr>"

lemma SeedMVCCStore_spec:
  assumes "live_store s"
  shows "live_store (SeedMVCCStore s t rows x) \<and>
    versions (SeedMVCCStore s t rows x) t' k =
      (if t' = t then rev (map (seed_version x) (filter (\<lambda>r. row_key r = k) rows)) else []) @ versions s t' k"
  using assms
proof (induction rows arbitrary: s)
  case (Cons row rows)
  obtain c s1 where get: "GetOrCreateChain s t (row_key row) = (c, s1)" by fastforce
  note new = GetOrCreateChain_live [OF Cons.prems get]
  let ?s = "put_chain t (row_key row) (Prepend c (seed_version x row)) s1"
  have "live_store ?s"
    using new by (auto simp: live_store_def store_ok_put_chain GetChain_put_chain Prepend_def)
  moreover have "SeedMVCCStore s t (row # rows) x = SeedMVCCStore ?s t rows x" by (simp add: get seed_version_def)
  moreover have "versions ?s t' k = (if t' = t \<and> k = row_key row then [seed_version x row] else []) @ versions s t' k"
    using new by (simp add: versions_put_chain Prepend_def)
  ultimately show ?case using Cons.IH [of ?s] by auto
qed simp

lemma reseed_spec:
  assumes "live_store s" and "distinct names"
  shows "live_store (fold (reseed_table x c) names s) \<and>
    versions (fold (reseed_table x c) names s) t k =
      (case Lookup c t of
         Some tb \<Rightarrow> if t \<in> set names then rev (map (seed_version x) (filter (\<lambda>r. row_key r = k) (Scan tb None))) else []
       | None \<Rightarrow> []) @ versions s t k"
  using assms
proof (induction names arbitrary: s)
  case (Cons n names)
  have "live_store (reseed_table x c n s)"
    using SeedMVCCStore_spec Cons.prems(1) by (auto simp: reseed_table_def split: option.splits)
  moreover have "versions (reseed_table x c n s) t k = (case Lookup c t of
         Some tb \<Rightarrow> if t = n then rev (map (seed_version x) (filter (\<lambda>r. row_key r = k) (Scan tb None))) else []
       | None \<Rightarrow> []) @ versions s t k"
    using SeedMVCCStore_spec Cons.prems(1) by (auto simp: reseed_table_def split: option.splits)
  ultimately show ?case using Cons.IH [of "reseed_table x c n s"] Cons.prems(2) by (auto split: option.splits)
qed (auto split: option.splits)

lemma scan_key:
  assumes "rows_ok tb"
  shows "filter (\<lambda>r. row_key r = k) (Scan tb None) =
    (case row_at tb k of None \<Rightarrow> [] | Some v \<Rightarrow> [\<lparr>row_key = k, row_values = v\<rparr>])"
proof -
  have "distinct (map fst xs) \<Longrightarrow> filter (\<lambda>r. row_key r = k) (map (\<lambda>(k, v). \<lparr>row_key = k, row_values = v\<rparr>) xs) =
      (case map_of xs k of None \<Rightarrow> [] | Some v \<Rightarrow> [\<lparr>row_key = k, row_values = v\<rparr>])" for xs :: "(RowKey \<times> values) list"
    by (induction xs) (auto split: option.splits dest: map_of_SomeD, (force dest: map_of_SomeD)+)
  with assms show ?thesis by (simp add: rows_ok_def Scan_def row_at_def)
qed

text \<open>A catalog as the server builds it: one table for each name, one row for each key.\<close>

definition server_catalog :: "Catalog \<Rightarrow> bool" where
  "server_catalog c \<longleftrightarrow> catalog_ok c \<and> distinct (go_keys c)"

lemma server_catalog_redo:
  "server_catalog c \<Longrightarrow> server_catalog (ApplyRedoOps applier_SetRow applier_DeleteRow ops c)"
proof (induction ops arbitrary: c)
  case (Cons op ops)
  have "server_catalog (applier_SetRow t k v c)" "server_catalog (applier_DeleteRow t k c)" for t k v
    using Cons.prems catalog_applier.set_ok [of c t k v] catalog_applier.del_ok [of c t k]
    by (auto simp: server_catalog_def applier_SetRow_def applier_DeleteRow_def store_table_def distinct_go_put
        split: option.splits sum.splits)
  then show ?case using Cons by simp
qed simp

lemma Mark_simps [simp]:
  "MVCCStore (fold MarkCommitted xs m) = MVCCStore m" "m_Catalog (fold MarkCommitted xs m) = m_Catalog m"
  "txns (fold MarkCommitted xs m) = txns m" "nextID (fold MarkCommitted xs m) = nextID m" "objs (fold MarkCommitted xs m) = objs m"
  "aborted (fold MarkCommitted xs m) = aborted m" "MaxActive (fold MarkCommitted xs m) = MaxActive m"
  "set (committed (fold MarkCommitted xs m)) = set xs \<union> set (committed m)"
  "MVCCStore (fold MarkAborted xs m) = MVCCStore m" "m_Catalog (fold MarkAborted xs m) = m_Catalog m"
  "txns (fold MarkAborted xs m) = txns m" "nextID (fold MarkAborted xs m) = nextID m" "objs (fold MarkAborted xs m) = objs m"
  "committed (fold MarkAborted xs m) = committed m" "MaxActive (fold MarkAborted xs m) = MaxActive m"
  "set (aborted (fold MarkAborted xs m)) = set xs \<union> set (aborted m)"
  by (induction xs arbitrary: m; auto simp: MarkCommitted_def MarkAborted_def)+

text \<open>The state the server starts with: no transaction, and each row in one version of the seed
  transaction.\<close>

lemma live_NewStore [simp]: "live_store NewStore" "versions NewStore t k = []"
  by (simp_all add: live_store_def NewStore_def store_ok_def GetChain_def versions_def)

lemma start_state:
  assumes "server_catalog c" and "m = start_manager mx w rec c"
    and "c' = (case rec of None \<Rightarrow> c | Some r \<Rightarrow> ApplyRedoOps applier_SetRow applier_DeleteRow (RedoOps r) c)"
  shows "txns m = []" "objs m = Map.empty" "nextID m = 0" "MaxActive m = mx" "m_Catalog m = c'" "live_store (MVCCStore m)"
    "set (committed m) = insert 0 (case rec of None \<Rightarrow> {} | Some r \<Rightarrow> set (Committed r))"
    "set (aborted m) = (case rec of None \<Rightarrow> {} | Some r \<Rightarrow> set (Aborted r))"
    "versions (MVCCStore m) t k =
      (case db c' t k of None \<Rightarrow> [] | Some v \<Rightarrow> [\<lparr>XMin = 0, XMax = 0, v_data = v, v_lsn = 0\<rparr>])"
proof -
  have c': "server_catalog c'" using assms(1) server_catalog_redo by (auto simp: assms(3) split: option.splits)
  then have names: "distinct (List_tables c')" "set (List_tables c') = {n. Lookup c' n \<noteq> None}"
    by (auto simp: List_tables_def server_catalog_def Lookup_def map_of_eq_None_iff)
  show flds: "txns m = []" "objs m = Map.empty" "nextID m = 0" "MaxActive m = mx" "m_Catalog m = c'"
    "set (committed m) = insert 0 (case rec of None \<Rightarrow> {} | Some r \<Rightarrow> set (Committed r))"
    "set (aborted m) = (case rec of None \<Rightarrow> {} | Some r \<Rightarrow> set (Aborted r))"
    by (auto simp: assms(2,3) start_manager_def apply_recovery_def Let_def NewManager_def MarkCommitted_def split: option.splits)
  have store: "MVCCStore m = fold (reseed_table 0 c') (List_tables c') NewStore"
    by (auto simp: assms(2,3) start_manager_def apply_recovery_def Let_def NewManager_def MarkCommitted_def split: option.splits)
  note spec = reseed_spec [OF live_NewStore(1) names(1), of 0 c', folded store]
  show "live_store (MVCCStore m)" using spec by blast
  show "versions (MVCCStore m) t k =
      (case db c' t k of None \<Rightarrow> [] | Some v \<Rightarrow> [\<lparr>XMin = 0, XMax = 0, v_data = v, v_lsn = 0\<rparr>])"
  proof (cases "Lookup c' t")
    case None
    with spec show ?thesis by (simp add: db_def)
  next
    case (Some tb)
    then have "rows_ok tb" using c' by (auto simp: server_catalog_def catalog_ok_def)
    with Some spec names(2) scan_key show ?thesis by (auto simp: db_def seed_version_def split: option.splits)
  qed
qed

lemma start_inv:
  assumes "server_catalog c"
  shows "mvcc_inv (start_manager mx w None c)"
proof -
  note st = start_state [OF assms refl refl, of mx w None]
  have "txns_inv (start_manager mx w None c)"
    using st word_gt_0 [of "- 1 :: u64"] by (simp add: txns_inv_def ids_ok_def status_of_def)
  moreover have "chains_inv (start_manager mx w None c)"
    using st by (auto simp: chains_inv_def live_store_def owned_def split: option.splits)
  ultimately show ?thesis by (simp add: mvcc_inv_def)
qed

section \<open>What clients find after a restart\<close>

text \<open>The first transaction after the start, and its snapshot.\<close>

lemma first_txn:
  assumes "txns m = []" "objs m = Map.empty" "nextID m = 0" and "Begin e ProtocolMVCC iso_level m = (Inr i, m1)"
  shows "i = 1" "\<exists>t. objs m1 1 = Some t \<and> Txn_IsActive t \<and> t_ID t = 1 \<and> Xmin (fst (getSnapshot 1 t m1)) \<noteq> 0"
    "MVCCStore m1 = MVCCStore m" "aborted m1 = aborted m"
proof -
  let ?m = "m\<lparr>nextID := 1\<rparr>"
  have i: "i = 1" and m1: "m1 = enter_txn e 1 ProtocolMVCC iso_level ?m"
    using assms(3,4) by (auto simp: Begin_def nextTxnID_def split: if_splits)
  have "objs ?m 1 = None" using assms(2) by simp
  note core = enter_txn_core [OF this m1]
  show "i = 1" "MVCCStore m1 = MVCCStore m" "aborted m1 = aborted m" using i core by simp_all
  have now: "Xmin (takeSnapshot ?m) = 2" "Xmin (takeSnapshot m1) = 1"
    using takeSnapshot_simps(3) [of ?m] takeSnapshot_simps(5) [of m1] core(1) assms(1) by auto
  obtain l w where wr: "writer_Begin e 1 (m_WAL m) = (l, w)" by fastforce
  have "\<exists>t. objs m1 1 = Some t \<and> t_Status t = TxnActive \<and> t_ID t = 1 \<and> t_Isolation t = iso_level \<and>
      t_Snapshot t = (if iso_level \<noteq> ReadCommitted then Some (takeSnapshot ?m) else None)"
    by (cases l) (simp_all add: m1 enter_txn_def Let_def NewTransaction_def wr)
  then obtain t where t: "objs m1 1 = Some t" "t_Status t = TxnActive" "t_ID t = 1" "t_Isolation t = iso_level"
    "t_Snapshot t = (if iso_level \<noteq> ReadCommitted then Some (takeSnapshot ?m) else None)" by blast
  then have "Xmin (fst (getSnapshot 1 t m1)) \<noteq> 0"
    by (cases "iso_level = ReadCommitted") (simp_all add: getSnapshot_def Let_def now)
  with t(1-3) show "\<exists>t. objs m1 1 = Some t \<and> Txn_IsActive t \<and> t_ID t = 1 \<and> Xmin (fst (getSnapshot 1 t m1)) \<noteq> 0"
    by (intro exI [of _ t]) (simp add: Txn_IsActive_def GetStatus_def)
qed

lemma first_read:
  assumes m: "server_catalog c" "m = start_manager mx w rec c"
    and c': "c' = (case rec of None \<Rightarrow> c | Some r \<Rightarrow> ApplyRedoOps applier_SetRow applier_DeleteRow (RedoOps r) c)"
    and "0 \<notin> set (aborted m)" and b: "Begin e ProtocolMVCC iso_level m = (Inr i, m1)" and e: "\<not> e_reset e'"
  shows "fst (MVCCRead e' i table key m1) = Inr (case db c' table key of None \<Rightarrow> (None, False) | Some v \<Rightarrow> (v, True))"
proof -
  note st = start_state [OF m c'] and ft = first_txn [OF start_state(1-3) [OF m c'] b]
  obtain t where t: "objs m1 1 = Some t" "Txn_IsActive t" "t_ID t = 1" "Xmin (fst (getSnapshot 1 t m1)) \<noteq> 0"
    using ft(2) by blast
  obtain s m2 where get: "getSnapshot 1 t m1 = (s, m2)" by fastforce
  have "0 < Xmin s" using t(4) get by (simp add: word_gt_0)
  then have "IsVisible \<lparr>XMin = 0, XMax = 0, v_data = v, v_lsn = 0\<rparr> 1 s (VacuumChecker m1)" for v
    using assms(4) ft(4) by (simp add: IsVisible_def)
  then show ?thesis
    unfolding ft(1) MVCCRead_result [OF t(1-3) get e] ft(3) st(9) by (auto split: option.splits)
qed

text \<open>C5. End to end over one restart: the first transaction that begins on the restarted server, at any
  isolation level, reads in every row exactly what replaying the committed writes of the log in log
  order gives, and finds no trace of aborted or unfinished transactions. The log is one of a single
  life of the server without checkpoints (\<open>log_ok\<close>), no identifier in it is 0, and each committed write
  names a table of the catalog and an after-image that decodes. The replay has every logged write of
  a committed transaction, also one that was rolled back to a savepoint.\<close>

theorem restart_serves_committed:
  assumes "log_ok (scan_records g b)" and "server_catalog c"
    and "\<forall>rec \<in> set (committed_writes (scan_records g b)). redoable {n. Lookup c n \<noteq> None} (redo_of rec)"
    and "\<forall>rec \<in> set (scan_records g b). TxnID rec \<noteq> 0"
    and "Begin e ProtocolMVCC iso_level (start_manager mx w (Some (RunRecovery g (Some b))) c) = (Inr i, m1)"
    and "\<not> e_reset e'"
  shows "fst (MVCCRead e' i table key m1) =
    Inr (case fold redo_effect (map redo_of (committed_writes (scan_records g b))) (db c) table key of
           None \<Rightarrow> (None, False) | Some v \<Rightarrow> (v, True))"
proof -
  let ?r = "RunRecovery g (Some b)"
  let ?c = "ApplyRedoOps applier_SetRow applier_DeleteRow (RedoOps ?r) c"
  note spec = recovery_spec [OF assms(1) refl]
  have "0 \<notin> set (aborted (start_manager mx w (Some ?r) c))"
    using assms(4) by (simp add: start_state(8) [OF assms(2) refl refl] spec(2)) (auto simp: ended_def)
  moreover have "?c = (case Some ?r of None \<Rightarrow> c | Some r \<Rightarrow> ApplyRedoOps applier_SetRow applier_DeleteRow (RedoOps r) c)"
    by simp
  ultimately have "fst (MVCCRead e' i table key m1) =
      Inr (case db ?c table key of None \<Rightarrow> (None, False) | Some v \<Rightarrow> (v, True))"
    using first_read [OF assms(2) refl _ _ assms(5,6)] by blast
  moreover have "db ?c = fold redo_effect (map redo_of (committed_writes (scan_records g b))) (db c)"
    unfolding spec(4) using assms(2,3) by (intro catalog_applier.redo_replays) (auto simp: server_catalog_def)
  ultimately show ?thesis by simp
qed

definition sample_env :: env where
  "sample_env = \<lparr>e_gob = plain_gob, e_disk = [], e_now = 0, e_reset = False, e_undone = 0\<rparr>"

theorem restart_serves_committed_witness:
  "fst (MVCCRead sample_env 1 ''t'' ''k'' (snd (Begin sample_env ProtocolMVCC Serializable
     (start_manager 0 NoopWriter (Some (RunRecovery plain_gob (Some (encode_all plain_gob sample_log)))) sample_catalog)))) =
   Inr (Some [], True)"
proof -
  have look: "Lookup sample_catalog n = (if n = ''t'' then Some (NewTable ''t'' []) else None)" for n
    by (simp add: sample_catalog_def Lookup_def Register_def NewCatalog_def NewTable_def TableName_def)
  then have cat: "server_catalog sample_catalog" "{n. Lookup sample_catalog n \<noteq> None} = {''t''}" "db sample_catalog = (\<lambda>n. Map.empty)"
    by (auto simp: server_catalog_def catalog_ok_def rows_ok_def NewTable_def db_def row_at_def fun_eq_iff)
      (simp add: sample_catalog_def Register_def NewCatalog_def)
  have dec: "DecodeValues [0, 0] = Inr []" by code_simp
  have "redoable {''t''} (redo_of (sample_log ! 2))"
    by (simp add: redoable_def redo_of_def sample_log_def zero_record_def dec)
  then have redo: "\<forall>rec \<in> set (committed_writes (scan_records plain_gob (encode_all plain_gob sample_log))).
      redoable {n. Lookup sample_catalog n \<noteq> None} (redo_of rec)"
    by (simp only: sample_log_scan sample_committed_writes cat) simp
  have ids: "\<forall>rec \<in> set (scan_records plain_gob (encode_all plain_gob sample_log)). TxnID rec \<noteq> 0"
    by (simp add: sample_log_scan) (simp add: sample_log_def zero_record_def)
  let ?m = "start_manager 0 NoopWriter (Some (RunRecovery plain_gob (Some (encode_all plain_gob sample_log)))) sample_catalog"
  have b: "Begin sample_env ProtocolMVCC Serializable ?m = (Inr 1, snd (Begin sample_env ProtocolMVCC Serializable ?m))"
    using start_state(3,4) [OF cat(1) refl refl] by (simp add: Begin_def nextTxnID_def)
  have "\<not> e_reset sample_env" by (simp add: sample_env_def)
  from restart_serves_committed [OF _ cat(1) redo ids b this, of "''t''" "''k''"] sample_log_ok
  show ?thesis
    by (simp add: sample_log_scan sample_committed_writes cat(3) redo_effect_def redo_of_def)
      (simp add: sample_log_def zero_record_def dec)
qed

text \<open>The counter of the manager starts at zero again after a recovery. A transaction that gets the
  number of an aborted one of the previous life commits, and its write is invisible to everyone.\<close>

definition reused_id_run :: "mgr_error option \<times> (mgr_error + values \<times> bool)" where
  "reused_id_run =
     (let m = start_manager 0 WalNil (Some \<lparr>Committed = [], Aborted = [1], RedoOps = [], UndoTxns = []\<rparr>) sample_catalog;
          m1 = snd (Begin sample_env ProtocolMVCC RepeatableRead m);
          m2 = snd (MVCCWrite sample_env [] 1 ''t'' ''k'' (Some []) UndoInsert m1);
          (r, m3) = Commit sample_env 1 m2;
          m4 = snd (Begin sample_env ProtocolMVCC RepeatableRead m3)
      in (r, fst (MVCCRead sample_env 2 ''t'' ''k'' m4)))"

lemma reused_id_hides_commit: "reused_id_run = (None, Inr (None, False))"
  by code_simp

text \<open>And when the new transaction aborts, the next recovery takes the old one for aborted too: what
  was committed under that number is not redone any more.\<close>

lemma reused_id_forgets_commit:
  assumes "scan_records g b = [zero_record\<lparr>LSN := 1, r_Type := RecordBegin, TxnID := 1\<rparr>,
      zero_record\<lparr>LSN := 2, r_Type := RecordWrite, TxnID := 1, PrevLSN := 1, r_Table := ''t'', r_Key := ''k'', After := [0, 0]\<rparr>,
      zero_record\<lparr>LSN := 3, r_Type := RecordCommit, TxnID := 1, PrevLSN := 2\<rparr>,
      zero_record\<lparr>LSN := 4, r_Type := RecordBegin, TxnID := 1\<rparr>,
      zero_record\<lparr>LSN := 5, r_Type := RecordAbort, TxnID := 1, PrevLSN := 4\<rparr>]" (is "_ = ?recs")
  shows "Committed (RunRecovery g (Some b)) = [] \<and> RedoOps (RunRecovery g (Some b)) = []"
proof -
  have cp: "FindLastCheckpoint g (Some b) = \<lparr>cp_ATT = [], cp_EndLSN = 0\<rparr>"
    by (simp add: FindLastCheckpoint_def assms checkpoint_scan_def zero_record_def)
  have recs: "readAllRecordsFrom g (Some b) 1 = ?recs"
    by (simp add: readAllRecordsFrom_def assms zero_record_def)
  have "fold analyse ?recs [] = [(1, \<lparr>lastLSN = 5, firstLSN = 1, a_status = 2\<rparr>)]"
    by (simp add: analyse_def zero_record_def gomap_simps)
  then have att: "fold analyse (readAllRecordsFrom g (Some b) 1) [] = [(1, \<lparr>lastLSN = 5, firstLSN = 1, a_status = 2\<rparr>)]"
    by (simp only: recs)
  have start: "redo_start [(1, \<lparr>lastLSN = 5, firstLSN = 1, a_status = 2\<rparr>)] = 1" by (simp add: redo_start_def)
  have "redo_ops [(1, \<lparr>lastLSN = 5, firstLSN = 1, a_status = 2\<rparr>)] ?recs = []"
    by (simp add: redo_ops_def zero_record_def)
  then have "redo_ops [(1, \<lparr>lastLSN = 5, firstLSN = 1, a_status = 2\<rparr>)] (readAllRecordsFrom g (Some b) 1) = []"
    by (simp only: recs)
  then show ?thesis by (simp add: RunRecovery_def cp att start seed_att_def Let_def)
qed

section \<open>Every reachable state\<close>

definition sample_rows :: Catalog where
  "sample_rows = Register NewCatalog (PutRow (PutRow (NewTable ''t'' []) ''a'' (Some [IntVal 7])) ''b'' (Some [IntVal 9]))"

lemma sample_rows_ok: "server_catalog sample_rows"
  by (simp add: sample_rows_def server_catalog_def catalog_ok_def Lookup_def Register_def NewCatalog_def rows_ok_def
      PutRow_def NewTable_def)

text \<open>C9. Whatever transactions clients begin, commit and abort, whatever they read, scan and write with the
  multi-version operations and whichever savepoints they set and release, from a start of the
  server without recovery on and in any order of these calls: identifiers are unique and each
  transaction is active, committed or aborted and only one of these; every other active transaction
  is concurrent with the snapshot of an active one; no chain in the store is tombstoned; and each
  version was created, and is marked deleted, by a committed transaction or by an active one that
  has the row in its undo log. Not among the calls are rounds of the vacuum, resets, the rollback of
  a multi-version transaction to a savepoint and writes of a value that the encoder panics on:
  \<open>vacuum_removes_visible_version\<close> and \<open>savepoint_not_rolled_back\<close> show what these do.\<close>

theorem reachable_mvcc_inv:
  assumes "server_catalog c" and "mvcc_run ops (start_manager mx w None c) m"
  shows "mvcc_inv m"
  using mvcc_run_inv [OF assms(2) start_inv [OF assms(1)]] .

theorem reachable_mvcc_inv_witness:
  "mvcc_inv (snd (Begin sample_env ProtocolMVCC Serializable (start_manager 5 NoopWriter None sample_rows)))"
proof (rule reachable_mvcc_inv [OF sample_rows_ok])
  let ?m = "start_manager 5 NoopWriter None sample_rows"
  have "nextID ?m = 0" using start_state(3) [OF sample_rows_ok refl refl] by simp
  then have "nextID ?m + 1 < - 1" by (simp add: word_less_nat_alt unsigned_minus_1_eq_mask mask_eq_exp_minus_1)
  then have "mvcc_step (OpBegin ProtocolMVCC Serializable) ?m (snd (Begin sample_env ProtocolMVCC Serializable ?m))"
    by (intro step_begin [of sample_env _ _ _ "fst (Begin sample_env ProtocolMVCC Serializable ?m)"]) simp_all
  then show "mvcc_run [OpBegin ProtocolMVCC Serializable] ?m (snd (Begin sample_env ProtocolMVCC Serializable ?m))"
    by simp
qed

end
