(* ===== verification/Txn_Isolation.thy ===== *)
theory Txn_Isolation
  imports Server_Start
begin

text \<open>
  What the invariant of the multi-version operations gives their clients: no dirty reads, reads of
  the newest committed version, repeatable reads, refused dirty writes and complete undo.
\<close>

section \<open>What one operation does to a row\<close>

definition row_of :: "Manager \<Rightarrow> gostring \<Rightarrow> gostring \<Rightarrow> version list" where
  "row_of m table key = versions (MVCCStore m) table key"

text \<open>A row keeps its versions, loses those of a transaction that ends, or is written by an
  active one.\<close>

definition row_change :: "mvcc_op \<Rightarrow> Manager \<Rightarrow> Manager \<Rightarrow> gostring \<Rightarrow> gostring \<Rightarrow> bool" where
  "row_change op m m' table key \<longleftrightarrow>
     row_of m' table key = row_of m table key \<or>
     (\<exists>i \<in> set (txns m) - set (txns m'). row_of m' table key = undone i (row_of m table key)) \<or>
     (\<exists>i u P d l. op = OpWrite i table key u \<and> i \<in> set (txns m) \<and>
        (row_of m' table key = new_version i d l # row_of m table key \<or>
         row_of m' table key = new_version i d l # mark_first P i (row_of m table key) \<or>
         u = UndoDelete \<and> row_of m' table key = mark_first P i (row_of m table key)))"

definition effect :: "mvcc_op \<Rightarrow> Manager \<Rightarrow> Manager \<Rightarrow> bool" where
  "effect op m m' \<longleftrightarrow>
     set (committed m) \<subseteq> set (committed m') \<and> set (committed m') \<subseteq> set (committed m) \<union> (set (txns m) - set (txns m')) \<and>
     nextID m \<le> nextID m' \<and> set (txns m') \<subseteq> set (txns m) \<union> {x. nextID m < x} \<and>
     (\<forall>j s. snap_of m j = Some s \<longrightarrow> snap_of m' j = Some s) \<and>
     (\<forall>table key. row_change op m m' table key)"

lemma effect_core: "effect op m m1 \<Longrightarrow> same_core m1 m' \<Longrightarrow> effect op m m'"
  by (simp add: effect_def same_core_def row_change_def row_of_def)

lemma effect_refl [simp]: "effect op m m"
  by (simp add: effect_def row_change_def)

lemma effect_same_core: "same_core m m' \<Longrightarrow> effect op m m'"
  using effect_core effect_refl by blast

lemma effect_rows:
  assumes "txns m' = txns m" "committed m' = committed m" "nextID m' = nextID m" "\<And>j s. snap_of m j = Some s \<Longrightarrow> snap_of m' j = Some s"
    and "\<And>table key. row_change op m m' table key"
  shows "effect op m m'"
  using assms by (simp add: effect_def)

lemma getSnapshot_effect:
  assumes inv: "mvcc_inv m" and t: "objs m i = Some t" "Txn_IsActive t" and get: "getSnapshot i t m = (snap, m1)"
  shows "effect op m m1"
proof (rule effect_rows)
  show "snap_of m1 j = Some s" if "snap_of m j = Some s" for j s
    using get t that by (auto simp: getSnapshot_def Let_def snap_of_def setCurrentStatementSnapshot_def split: if_splits option.splits)
qed (use getSnapshot_inv [OF inv t get] in \<open>auto simp: row_change_def row_of_def\<close>)

lemma row_write_change:
  assumes "row_write e i snap table key vals u chain m = Inr (chain', m')"
  shows "(\<exists>P d l. c_versions chain' = new_version i d l # c_versions chain \<or>
      c_versions chain' = new_version i d l # mark_first P i (c_versions chain) \<or>
      u = UndoDelete \<and> c_versions chain' = mark_first P i (c_versions chain))"
  using assms
  by (auto simp: row_write_def mvcc_insert_def mvcc_update_def mvcc_delete_def Let_def Prepend_def
      split: UndoOpType.splits option.splits) blast+

lemma MVCCWrite_effect:
  assumes inv: "mvcc_inv m" and w: "MVCCWrite e reaps i table key vals u m = (r, m')" and ok: "r \<noteq> Inl EncodePanic"
  shows "effect (OpWrite i table key u) m m'"
proof (rule MVCCWrite_cases [OF inv w ok])
  fix t snap m1 s
  assume t: "objs m i = Some t" "Txn_IsActive t" "getSnapshot i t m = (snap, m1)"
    and s: "versions s = versions (MVCCStore m)" "m' = m1\<lparr>MVCCStore := s\<rparr> \<or> m' = m1"
  note m1 = getSnapshot_inv [OF inv t] and ef = getSnapshot_effect [OF inv t, of "OpWrite i table key u"]
  from s(2) show "effect (OpWrite i table key u) m m'"
  proof
    assume "m' = m1\<lparr>MVCCStore := s\<rparr>"
    with ef s(1) m1(4) show ?thesis by (simp add: effect_def row_change_def row_of_def snap_of_def)
  qed (use ef in simp)
next
  fix t snap m1 s chain chain' m3
  assume t: "objs m i = Some t" "Txn_IsActive t" "getSnapshot i t m = (snap, m1)"
    and s: "live_store s" "versions s = versions (MVCCStore m)" "GetChain s table key = Some chain"
    and row: "row_write e i snap table key vals u chain (m1\<lparr>MVCCStore := s\<rparr>) = Inr (chain', m3)"
    and m': "same_core (m3\<lparr>MVCCStore := put_chain table key chain' (MVCCStore m3)\<rparr>) m'"
  note m1 = getSnapshot_inv [OF inv t] and ef = getSnapshot_effect [OF inv t, of "OpWrite i table key u"]
  let ?m = "m3\<lparr>MVCCStore := put_chain table key chain' (MVCCStore m3)\<rparr>"
  obtain l b m2 where m3: "same_core (m1\<lparr>MVCCStore := s\<rparr>) m2" "m3 = upd_txn i (log_undo u table key b l) m2"
    using row_write_Inr(3) [OF row] by blast
  have i: "i \<in> set (txns m)" using inv t by (auto simp: mvcc_inv_def txns_inv_def status_of_def Txn_IsActive_def GetStatus_def)
  have snap3: "snap_of ?m j = snap_of m1 j" for j
  proof -
    have "snap_of ?m j = snap_of m2 j" by (cases "objs m2 i") (auto simp: snap_of_def m3(2) log_undo_def)
    also have "\<dots> = snap_of (m1\<lparr>MVCCStore := s\<rparr>) j" using m3(1) by (simp add: same_core_def)
    finally show ?thesis by (simp add: snap_of_def)
  qed
  have flds: "txns ?m = txns m" "committed ?m = committed m" "nextID ?m = nextID m" "MVCCStore m2 = s" "MVCCStore m3 = s"
    using m3 m1(5,6,8) by (auto simp: same_core_def)
  have "versions s table key = c_versions chain" using s(3) by (simp add: versions_def)
  with s(2) have vs: "c_versions chain = row_of m table key" by (simp add: row_of_def)
  have "effect (OpWrite i table key u) m ?m"
  proof (rule effect_rows [OF flds(1-3)])
    show "snap_of ?m j = Some sn" if "snap_of m j = Some sn" for j sn
      using ef that by (simp add: snap3 effect_def)
    fix ta k
    show "row_change (OpWrite i table key u) m ?m ta k"
      using row_write_change [OF row] i flds(5) s(2) vs
      by (cases "ta = table \<and> k = key") (auto simp: row_change_def row_of_def versions_put_chain)
  qed
  then show "effect (OpWrite i table key u) m m'" using effect_core m' by blast
qed simp

lemma rolled_back_effect:
  assumes inv: "mvcc_inv m" and t: "GetTxn m i = Some t" and e: "\<not> e_reset e" and rb: "rolled_back e i t m m'"
  shows "row_of m' table key = undone i (row_of m table key)" and "effect op m m'"
proof -
  note a = GetTxn_active [OF inv t]
  obtain m1 m2 where m1: "same_core (end_txn i TxnAborted m) m1" and m': "same_core m2 m'"
    and m2: "if t_Protocol t = ProtocolMVCC then m2 = applyMVCCUndo e t m1 else same_core m1 m2"
    using rb unfolding rolled_back_def by blast
  have cinv: "chains_inv m" and i: "i \<notin> set (committed m)"
    using inv a by (auto simp: mvcc_inv_def txns_inv_def)
  have store: "MVCCStore m1 = MVCCStore m" "MVCCStore m' = MVCCStore m2" using m1 m' by (simp_all add: same_core_def)
  show rows: "row_of m' ta k = undone i (row_of m ta k)" for ta k
  proof (cases "t_Protocol t")
    case ProtocolMVCC
    then have "m2 = applyMVCCUndo e t m1" using m2 by simp
    from applyMVCCUndo_spec(2) [OF cinv a(1,3) ProtocolMVCC i e this store(1)] show ?thesis by (simp add: row_of_def store(2))
  next
    case Protocol2PL
    then have "MVCCStore m' = MVCCStore m" using m2 store by (simp add: same_core_def)
    moreover have "\<not> owned m ta k i" using a i Protocol2PL by (simp add: owned_def logged_def undo_of_def)
    ultimately show ?thesis using cinv undone_other [of i "row_of m ta k"] unfolding chains_inv_def row_of_def by metis
  qed
  have "committed m2 = committed m1" "txns m2 = txns m1" "nextID m2 = nextID m1" "snap_of m2 = snap_of m1"
    using m2 by (auto simp: applyMVCCUndo_def Let_def same_core_def snap_of_def fun_eq_iff split: if_splits)
  then have flds: "committed m' = committed m" "txns m' = removeAll i (txns m)" "nextID m' = nextID m" "snap_of m' = snap_of m"
    using m1 m' by (auto simp: same_core_def end_txn_core [OF a(1)])
  then show "effect op m m'"
    using rows a(2) by (auto simp: effect_def row_change_def)
qed

lemma end_txn_effect: "objs m i = Some t \<Longrightarrow> i \<in> set (txns m) \<Longrightarrow> effect op m (end_txn i TxnCommitted (m\<lparr>m_WAL := w\<rparr>))"
  by (auto simp: effect_def row_change_def row_of_def snap_of_def setStatus_def split: option.splits)

lemma Begin_effect:
  assumes "mvcc_inv m" and "Begin e protocol iso_level m = (r, m')" and "nextID m + 1 < - 1"
  shows "effect op m m'"
proof (cases "MaxActive m > 0 \<and> int (length (txns m)) \<ge> MaxActive m")
  case True
  with assms show ?thesis by (simp add: Begin_def)
next
  case False
  let ?i = "nextID m + 1"
  note fresh = Begin_fresh [OF assms(1,3)]
  have m': "m' = enter_txn e ?i protocol iso_level (m\<lparr>nextID := ?i\<rparr>)"
    using False assms(2) by (auto simp: Begin_def nextTxnID_def)
  have "objs (m\<lparr>nextID := ?i\<rparr>) ?i = None" using fresh(3) by simp
  note core = enter_txn_core [OF this m']
  have "snap_of m ?i = None" using fresh(3) by (simp add: snap_of_def)
  then show ?thesis using core fresh(1) by (auto simp: effect_def row_change_def row_of_def snap_of_def)
qed

lemma MVCCRead_effect:
  assumes "mvcc_inv m" and "MVCCRead e i table key m = (r, m')"
  shows "effect op m m'"
proof (cases "\<exists>t. objs m i = Some t \<and> Txn_IsActive t")
  case True
  then obtain t where t: "objs m i = Some t" "Txn_IsActive t" by blast
  obtain snap m1 where get: "getSnapshot i t m = (snap, m1)" by fastforce
  have "same_core m1 m'"
    using assms(2) t get
    by (auto simp: MVCCRead_def split: option.splits if_splits intro: same_core_refl same_core_intros)
  with getSnapshot_effect [OF assms(1) t get] effect_core show ?thesis by blast
qed (use assms in \<open>auto simp: MVCCRead_def split: option.splits\<close>)

lemma MVCCScan_effect:
  assumes "mvcc_inv m" and "MVCCScan e i table flt m = (r, m')"
  shows "effect op m m'"
proof (cases "\<exists>t. objs m i = Some t \<and> Txn_IsActive t")
  case True
  then obtain t where t: "objs m i = Some t" "Txn_IsActive t" by blast
  obtain snap m1 where get: "getSnapshot i t m = (snap, m1)" by fastforce
  have "same_core m1 m'"
    using assms(2) t get
      scan_chains_core [of m1 i t snap table flt "ForEachChainInTable (MVCCStore m1) table" "[]"]
    by (auto simp: MVCCScan_def split: if_splits prod.splits)
  with getSnapshot_effect [OF assms(1) t get] effect_core show ?thesis by blast
qed (use assms in \<open>auto simp: MVCCScan_def split: option.splits\<close>)

lemma Commit_effect:
  assumes "mvcc_inv m" and "Commit e i m = (r, m')" and "\<not> e_reset e"
  shows "effect op m m'"
proof (cases "GetTxn m i")
  case None
  with assms show ?thesis by (simp add: Commit_def)
next
  case (Some t)
  note a = GetTxn_active [OF assms(1) Some] and co = Commit_active [OF assms(1) Some assms(2)]
  show ?thesis
  proof (cases "pivots m i t")
    case True
    with co(1) rolled_back_effect(2) [OF assms(1) Some assms(3)] show ?thesis by blast
  next
    case False
    with co(2) end_txn_effect [OF a(1,2)] effect_core effect_same_core show ?thesis by blast
  qed
qed

lemma Abort_effect:
  assumes "mvcc_inv m" and "Abort e i m = (r, m')" and "\<not> e_reset e"
  shows "effect op m m'"
proof (cases "GetTxn m i")
  case None
  with assms show ?thesis by (simp add: Abort_def)
next
  case (Some t)
  then show ?thesis using rolled_back_effect(2) Abort_active assms by blast
qed

lemma step_effect: "mvcc_step op m m' \<Longrightarrow> mvcc_inv m \<Longrightarrow> effect op m m'"
proof (induction rule: mvcc_step.induct)
  case step_create
  then show ?case using savepoint_core(1) effect_same_core by blast
next
  case step_release
  then show ?case using savepoint_core(2) effect_same_core by blast
qed (blast intro: Begin_effect MVCCRead_effect MVCCScan_effect MVCCWrite_effect Commit_effect Abort_effect)+

section \<open>What a reader sees\<close>

lemma sees_eq: "sees s (VacuumChecker m) j x \<longleftrightarrow> x = j \<or> x \<in> set (committed m) \<and> \<not> concurrent s x"
  by (simp add: sees_def)

lemma row_ids:
  assumes "mvcc_inv m" and "x \<in> chain_ids (row_of m table key)"
  shows "x \<in> set (committed m) \<and> x \<notin> set (txns m) \<or> x \<in> set (txns m) \<and> x \<notin> set (committed m)"
proof -
  have "owned m table key x" using assms unfolding mvcc_inv_def chains_inv_def row_of_def by blast
  moreover have "set (txns m) \<inter> set (committed m) = {}" using assms(1) by (simp add: mvcc_inv_def txns_inv_def)
  ultimately show ?thesis unfolding owned_def by blast
qed

lemma row_settled:
  assumes inv: "mvcc_inv m" and snap: "snap_inv m j s"
  shows "settled s (VacuumChecker m) j (chain_ids (row_of m table key))"
proof -
  have "x \<in> set (committed m) \<longleftrightarrow> x \<notin> set (aborted m)"
    if x: "x \<in> chain_ids (row_of m table key)" "x \<noteq> j" "\<not> concurrent s x" for x
  proof -
    have "x \<notin> set (txns m)" using snap x by (auto simp: snap_inv_def)
    with row_ids [OF inv x(1)] have "x \<in> set (committed m)" by blast
    then show ?thesis using inv by (auto simp: mvcc_inv_def txns_inv_def)
  qed
  then show ?thesis by (simp add: settled_def)
qed

lemma row_visible:
  assumes inv: "mvcc_inv m" and snap: "snap_inv m j s" and v: "v \<in> set (row_of m table key)"
  shows "IsVisible v j s (VacuumChecker m) \<longleftrightarrow>
    sees s (VacuumChecker m) j (XMin v) \<and> (XMax v = 0 \<or> \<not> sees s (VacuumChecker m) j (XMax v))"
proof -
  have "settled s (VacuumChecker m) j {XMin v, XMax v}"
    using row_settled [OF inv snap, of table key] v by (auto simp: chain_ids_def elim: settled_mono)
  moreover have "snapshot_ok s" using snap by (simp add: snap_inv_def)
  ultimately show ?thesis using IsVisible_sees by blast
qed

text \<open>On a row without deletions a read returns the newest version whose creator the reader sees.\<close>

lemma read_view:
  assumes inv: "mvcc_inv m" and snap: "snap_inv m j s" and st: "stacked {} (row_of m table key)"
  shows "map_option v_data (find (\<lambda>v. IsVisible v j s (VacuumChecker m)) (row_of m table key)) =
     (case view s (VacuumChecker m) j (row_of m table key) of [] \<Rightarrow> None | (x, d) # _ \<Rightarrow> Some d)"
proof -
  have "snapshot_ok s" using snap by (simp add: snap_inv_def)
  from find_visible_stacked [OF this st row_settled [OF inv snap]] show ?thesis by (simp add: find_sees_view)
qed

lemma stacked_new: "stacked {} vs \<Longrightarrow> stacked {} (new_version i d l # vs)"
  by (auto simp: new_version_def elim: stacked_mono)

lemma stacked_update: "stacked {} vs \<Longrightarrow> stacked {} (new_version i d l # mark_first P i vs)"
  by (auto simp: new_version_def intro: stacked_mark_first elim: stacked_mono)

lemma stacked_undone: "stacked {} vs \<Longrightarrow> stacked {} (undone i vs)"
  using stacked_undo [of "{}" vs i] by (simp add: undone_def)

lemma row_change_stacked:
  assumes "row_change op m m' table key" and "stacked {} (row_of m table key)" and "\<And>i. op \<noteq> OpWrite i table key UndoDelete"
  shows "stacked {} (row_of m' table key)"
  using assms
  by (auto simp: row_change_def simp del: stacked.simps intro: stacked_new stacked_update stacked_undone)

text \<open>The other transactions' operations do not change what an active transaction with a snapshot
  sees of such a row.\<close>

lemma step_view:
  assumes inv: "mvcc_inv m" and ef: "effect op m m'" and j: "j \<in> set (txns m)" "j \<in> set (txns m')" and snap: "snap_inv m j s"
    and op: "\<And>u. op \<noteq> OpWrite j table key u"
  shows "view s (VacuumChecker m') j (row_of m' table key) = view s (VacuumChecker m) j (row_of m table key)"
proof -
  have other: "\<not> sees s (VacuumChecker m) j i" if "i \<in> set (txns m)" "i \<noteq> j" for i
    using snap that by (auto simp: sees_eq snap_inv_def)
  have "sees s (VacuumChecker m') j x \<longleftrightarrow> sees s (VacuumChecker m) j x" for x
    using ef snap j by (auto simp: sees_eq effect_def snap_inv_def)
  then have same: "view s (VacuumChecker m') j vs = view s (VacuumChecker m) j vs" for vs by (auto intro: view_cong)
  have new: "view s (VacuumChecker m) j (new_version i d l # vs) = view s (VacuumChecker m) j vs"
    if "i \<in> set (txns m)" "i \<noteq> j" for i d l vs
    using other [OF that] by (intro view_Cons_unseen) (simp add: new_version_def)
  have "row_change op m m' table key" using ef by (simp add: effect_def)
  then show ?thesis unfolding row_change_def
  proof (elim disjE bexE exE conjE)
    fix i assume i: "i \<in> set (txns m) - set (txns m')" and eq: "row_of m' table key = undone i (row_of m table key)"
    then have "\<not> sees s (VacuumChecker m) j i" using j(2) by (intro other) auto
    then show ?thesis by (simp add: same eq undone_def view_remove_unseen)
  next
    fix i u P d l assume "op = OpWrite i table key u" "i \<in> set (txns m)" "row_of m' table key = new_version i d l # row_of m table key"
    then show ?thesis using new op by (metis same)
  next
    fix i u P d l assume "op = OpWrite i table key u" "i \<in> set (txns m)"
      "row_of m' table key = new_version i d l # mark_first P i (row_of m table key)"
    then show ?thesis using new op by (metis same view_mark_first)
  next
    fix i u P d l assume "row_of m' table key = mark_first P i (row_of m table key)"
    then show ?thesis by (simp add: same)
  qed (simp add: same)
qed

text \<open>The operations of a run that leave a row to a reader: no deletion of the row, and no write
  of the row by the reader.\<close>

definition leaves_row :: "txn_id \<Rightarrow> gostring \<Rightarrow> gostring \<Rightarrow> mvcc_op \<Rightarrow> bool" where
  "leaves_row j table key op \<longleftrightarrow> (\<forall>i u. op = OpWrite i table key u \<longrightarrow> u \<noteq> UndoDelete \<and> i \<noteq> j)"

lemma run_keeps_active:
  assumes "mvcc_run ops m m'" and "mvcc_inv m" and "j \<le> nextID m" and "j \<in> set (txns m')"
  shows "j \<in> set (txns m)"
  using assms
proof (induction rule: mvcc_run.induct)
  case (run_step op m m' ops m'')
  note ef = step_effect [OF run_step.hyps(1) run_step.prems(1)]
  have "j \<in> set (txns m')"
    using run_step.IH mvcc_step_inv [OF run_step.hyps(1) run_step.prems(1)] run_step.prems(2,3) ef by (auto simp: effect_def)
  then show ?case using ef run_step.prems(2) by (auto simp: effect_def)
qed simp

lemma run_view:
  assumes "mvcc_run ops m m'" and "mvcc_inv m" and "j \<in> set (txns m)" "j \<in> set (txns m')" and "snap_of m j = Some s"
    and "list_all (leaves_row j table key) ops" and "stacked {} (row_of m table key)"
  shows "snap_of m' j = Some s \<and> stacked {} (row_of m' table key) \<and>
    view s (VacuumChecker m') j (row_of m' table key) = view s (VacuumChecker m) j (row_of m table key)"
  using assms
proof (induction rule: mvcc_run.induct)
  case (run_step op m m' ops m'')
  note inv = run_step.prems(1) and inv' = mvcc_step_inv [OF run_step.hyps(1) run_step.prems(1)]
  note ef = step_effect [OF run_step.hyps(1) inv]
  have le: "j \<le> nextID m" and snap: "snap_inv m j s" using inv run_step.prems(2,4) by (auto simp: mvcc_inv_def txns_inv_def)
  have j: "j \<in> set (txns m')"
    using run_keeps_active [OF run_step.hyps(2) inv' _ run_step.prems(3)] ef le by (auto simp: effect_def)
  have op: "leaves_row j table key op" and ops: "list_all (leaves_row j table key) ops" using run_step.prems(5) by simp_all
  have st: "stacked {} (row_of m' table key)"
    using row_change_stacked [of op m m' table key] ef op run_step.prems(6) by (auto simp: effect_def leaves_row_def)
  have vw: "view s (VacuumChecker m') j (row_of m' table key) = view s (VacuumChecker m) j (row_of m table key)"
    using op by (intro step_view [OF inv ef run_step.prems(2) j snap]) (auto simp: leaves_row_def)
  have sn: "snap_of m' j = Some s" using ef run_step.prems(4) by (auto simp: effect_def)
  show ?case using run_step.IH [OF inv' j run_step.prems(3) sn ops st] vw by simp
qed simp

section \<open>Reads\<close>

lemma getSnapshot_cases:
  assumes "mvcc_inv m" and "j \<in> set (txns m)" and "objs m j = Some t"
  obtains s m1 where "getSnapshot j t m = (s, m1)" "snap_inv m j s" "t_ID t = j" "Txn_IsActive t"
    "snap_of m j \<noteq> None \<Longrightarrow> snap_of m j = Some s" "t_Isolation t = ReadCommitted \<Longrightarrow> s = takeSnapshot m"
proof -
  obtain s m1 where get: "getSnapshot j t m = (s, m1)" by fastforce
  have t: "t_ID t = j" "Txn_IsActive t"
    using assms by (auto simp: mvcc_inv_def txns_inv_def ids_ok_def status_of_def Txn_IsActive_def GetStatus_def)
  note g = getSnapshot_inv [OF assms(1,3) t(2) get]
  have "snap_inv m j s" using g(2,5,8) by (simp add: snap_inv_def)
  moreover have "snap_of m j = Some s" if "snap_of m j \<noteq> None"
    using that assms(3) get by (auto simp: snap_of_def getSnapshot_def Let_def split: if_splits option.splits)
  moreover have "s = takeSnapshot m" if "t_Isolation t = ReadCommitted" using that get by (auto simp: getSnapshot_def Let_def)
  ultimately show ?thesis using that get t by blast
qed

lemma active_obj: "mvcc_inv m \<Longrightarrow> j \<in> set (txns m) \<Longrightarrow> \<exists>t. objs m j = Some t"
  by (auto simp: mvcc_inv_def txns_inv_def status_of_def)

text \<open>C10. No dirty reads, at any isolation level and in any state in which the manager still knows how the
  creators below the reader's snapshot ended: a value that a read returns is that of a version of
  the row, and its creator is the reader itself or a transaction that has committed. (The vacuum
  makes the manager forget outcomes: \<open>aborted_write_read\<close> is a read without this condition.)\<close>

theorem MVCCRead_no_dirty_read:
  assumes t: "objs m j = Some t" and known: "\<forall>v \<in> set (versions (MVCCStore m) table key).
      XMin v < Xmin (fst (getSnapshot j t m)) \<longrightarrow> Mgr_IsCommitted m (XMin v) \<or> Mgr_IsAborted m (XMin v)"
    and read: "fst (MVCCRead e j table key m) = Inr (d, True)"
  shows "\<exists>v \<in> set (versions (MVCCStore m) table key). v_data v = d \<and> (XMin v = t_ID t \<or> Mgr_IsCommitted m (XMin v))"
proof -
  obtain s m1 where get: "getSnapshot j t m = (s, m1)" by fastforce
  have m1: "VacuumChecker m1 = VacuumChecker m" "MVCCStore m1 = MVCCStore m"
    using get by (auto simp: getSnapshot_def Let_def split: if_splits option.splits)
  from read t get obtain c v where c: "GetChain (MVCCStore m) table key = Some c"
    and v: "find (\<lambda>v. IsVisible v (t_ID t) s (VacuumChecker m)) (c_versions c) = Some v" "v_data v = d"
    by (auto simp: MVCCRead_def FindVisible_def m1 split: option.splits if_splits)
  then have "v \<in> set (versions (MVCCStore m) table key)" and "IsVisible v (t_ID t) s (VacuumChecker m)"
    by (auto simp: find_Some_iff versions_def)
  with known v(2) show ?thesis
    by (auto simp: get IsVisible_def Let_def Mgr_IsCommitted_def Mgr_IsAborted_def split: if_splits)
qed

text \<open>C21. Read committed, in a state that satisfies the invariant of the multi-version operations: a read
  returns the newest version of the row that was created by the reader or a transaction that has
  committed by now and was not deleted by such a transaction, and misses only if there is none.\<close>

theorem ReadCommitted_reads_newest:
  assumes inv: "mvcc_inv m" and j: "j \<in> set (txns m)" and t: "objs m j = Some t" "t_Isolation t = ReadCommitted"
    and e: "\<not> e_reset e"
  shows "fst (MVCCRead e j table key m) = Inr
    (case find (\<lambda>v. (XMin v = j \<or> Mgr_IsCommitted m (XMin v)) \<and> (XMax v = 0 \<or> \<not> (XMax v = j \<or> Mgr_IsCommitted m (XMax v))))
       (versions (MVCCStore m) table key) of
       None \<Rightarrow> (None, False) | Some v \<Rightarrow> (v_data v, True))"
proof -
  obtain s m1 where get: "getSnapshot j t m = (s, m1)" "snap_inv m j s" "t_ID t = j" "Txn_IsActive t" and s: "s = takeSnapshot m"
    by (rule getSnapshot_cases [OF inv j t(1)]) (use t(2) in blast)
  have "\<not> concurrent s x" if "x \<in> set (committed m)" for x
  proof -
    have "x \<notin> set (txns m)" "x \<le> nextID m" "nextID m < nextID m + 1"
      using inv that by (auto simp: mvcc_inv_def txns_inv_def intro: word_less_Suc)
    then show ?thesis by (simp add: s concurrent_def takeSnapshot_simps not_le)
  qed
  then have "sees s (VacuumChecker m) j x \<longleftrightarrow> x = j \<or> Mgr_IsCommitted m x" for x by (auto simp: sees_eq Mgr_IsCommitted_def)
  then have "find (\<lambda>v. IsVisible v j s (VacuumChecker m)) (versions (MVCCStore m) table key) =
      find (\<lambda>v. (XMin v = j \<or> Mgr_IsCommitted m (XMin v)) \<and> (XMax v = 0 \<or> \<not> (XMax v = j \<or> Mgr_IsCommitted m (XMax v))))
        (versions (MVCCStore m) table key)"
    by (intro find_cong [OF refl]) (simp add: row_visible [OF inv get(2), unfolded row_of_def])
  then show ?thesis unfolding MVCCRead_result [OF t(1) get(4,3,1) e] by simp
qed

text \<open>A transaction that keeps its snapshot reads with it.\<close>

lemma snapshot_read:
  assumes inv: "mvcc_inv m" and j: "j \<in> set (txns m)" and s: "snap_of m j = Some s" and e: "\<not> e_reset e"
  shows "snap_inv m j s" and "fst (MVCCRead e j table key m) = Inr
    (case map_option v_data (find (\<lambda>v. IsVisible v j s (VacuumChecker m)) (row_of m table key)) of
       None \<Rightarrow> (None, False) | Some d \<Rightarrow> (d, True))"
proof -
  obtain t where t: "objs m j = Some t" using active_obj [OF inv j] by blast
  obtain m1 where get: "getSnapshot j t m = (s, m1)" "snap_inv m j s" "t_ID t = j" "Txn_IsActive t"
    by (rule getSnapshot_cases [OF inv j t]) (use s in auto)
  show "snap_inv m j s" by (rule get(2))
  show "fst (MVCCRead e j table key m) = Inr
    (case map_option v_data (find (\<lambda>v. IsVisible v j s (VacuumChecker m)) (row_of m table key)) of
       None \<Rightarrow> (None, False) | Some d \<Rightarrow> (d, True))"
    unfolding MVCCRead_result [OF t get(4,3,1) e] by (simp add: row_of_def split: option.splits)
qed


section \<open>Rollback\<close>

lemma find_undone:
  assumes "\<forall>v \<in> set vs. P v \<longleftrightarrow> seen (XMin v) \<and> (XMax v = 0 \<or> \<not> seen (XMax v))"
    and "\<forall>v \<in> set (undone i vs). Q v \<longleftrightarrow> seen (XMin v) \<and> (XMax v = 0 \<or> \<not> seen (XMax v))" and "\<not> seen i"
  shows "map_option v_data (find Q (undone i vs)) = map_option v_data (find P vs)"
  using assms(1,2) by (induction vs) (auto simp: undone_def assms(3))

lemma rolled_back_core:
  assumes "rolled_back e i t m m'"
  shows "txns m' = removeAll i (txns m)" "committed m' = committed m" "aborted m' = List.insert i (aborted m)"
proof -
  obtain m1 m2 where m1: "same_core (end_txn i TxnAborted m) m1" and m': "same_core m2 m'"
    and m2: "m2 = applyMVCCUndo e t m1 \<or> same_core m1 m2"
    using assms unfolding rolled_back_def by (metis (full_types))
  have "txns m2 = txns m1 \<and> committed m2 = committed m1 \<and> aborted m2 = aborted m1"
    using m2 by (auto simp: applyMVCCUndo_def Let_def same_core_def)
  with m1 m' show "txns m' = removeAll i (txns m)" "committed m' = committed m" "aborted m' = List.insert i (aborted m)"
    by (simp_all add: same_core_def)
qed

lemma rolled_back_reads:
  assumes inv: "mvcc_inv m" and t: "GetTxn m i = Some t" and e: "\<not> e_reset e" and rb: "rolled_back e i t m m'"
    and j: "j \<in> set (txns m)" "j \<noteq> i" and s: "snap_of m j = Some s" and e': "\<not> e_reset e'"
  shows "fst (MVCCRead e' j table key m') = fst (MVCCRead e' j table key m)"
proof -
  have inv': "mvcc_inv m'" using rolled_back_inv [OF inv t e rb] .
  note ef = rolled_back_effect [OF inv t e rb]
  have s': "snap_of m' j = Some s" using ef(2) s by (auto simp: effect_def)
  note core = rolled_back_core [OF rb]
  then have j': "j \<in> set (txns m')" using j by simp
  note si = snapshot_read(1) [OF inv j(1) s e'] and si' = snapshot_read(1) [OF inv' j' s' e']
  have vis: "\<forall>v \<in> set (row_of m table key). IsVisible v j s (VacuumChecker m) \<longleftrightarrow>
      sees s (VacuumChecker m) j (XMin v) \<and> (XMax v = 0 \<or> \<not> sees s (VacuumChecker m) j (XMax v))"
    if "mvcc_inv m" "snap_inv m j s" for m
    using row_visible [OF that] by blast
  have "sees s (VacuumChecker m') j = sees s (VacuumChecker m) j" by (simp add: sees_eq fun_eq_iff core)
  moreover have "\<not> sees s (VacuumChecker m) j i" using si GetTxn_active(2) [OF inv t] j(2) by (auto simp: sees_eq snap_inv_def)
  ultimately have "map_option v_data (find (\<lambda>v. IsVisible v j s (VacuumChecker m')) (row_of m' table key)) =
      map_option v_data (find (\<lambda>v. IsVisible v j s (VacuumChecker m)) (row_of m table key))"
    using vis [OF inv si] vis [OF inv' si'] find_undone [of "row_of m table key" _ "sees s (VacuumChecker m) j" i]
    by (simp add: ef(1))
  then show ?thesis unfolding snapshot_read(2) [OF inv j(1) s e'] snapshot_read(2) [OF inv' j' s' e'] by simp
qed

lemma rolled_back_rows:
  assumes inv: "mvcc_inv m" and t: "GetTxn m i = Some t" and e: "\<not> e_reset e" and rb: "rolled_back e i t m m'"
    and v: "v \<in> set (versions (MVCCStore m') table key)"
  shows "XMin v \<noteq> i \<and> XMax v \<noteq> i"
proof -
  have "i \<noteq> 0" using inv GetTxn_active(2) [OF inv t] by (auto simp: mvcc_inv_def txns_inv_def)
  then show ?thesis
    using undone_ids [of i "row_of m table key"] v rolled_back_effect(1) [OF inv t e rb, of table key]
    by (auto simp: row_of_def chain_ids_def)
qed

text \<open>C11. \<^verbatim>\<open>Abort\<close> of an active transaction leaves no trace, in a state that satisfies the invariant of the
  multi-version operations, so that the transaction has not been rolled back to a savepoint before
  (\<open>savepoint_not_rolled_back\<close> is what happens then), and without a concurrent reset: no version of
  any row names it any more, and every other transaction with a snapshot reads in every row what it
  read before.\<close>

theorem Abort_leaves_no_trace:
  assumes inv: "mvcc_inv m" and t: "GetTxn m i = Some t" and ab: "Abort e i m = (r, m')" and e: "\<not> e_reset e"
  shows "(\<forall>table key. \<forall>v \<in> set (versions (MVCCStore m') table key). XMin v \<noteq> i \<and> XMax v \<noteq> i) \<and>
    (\<forall>j e' table key. j \<in> set (txns m) \<and> j \<noteq> i \<and> snap_of m j \<noteq> None \<and> \<not> e_reset e' \<longrightarrow>
       fst (MVCCRead e' j table key m') = fst (MVCCRead e' j table key m))"
proof -
  note rb = Abort_active [OF inv t ab]
  show ?thesis using rolled_back_rows [OF inv t e rb] rolled_back_reads [OF inv t e rb] by blast
qed

text \<open>C13. A serializable transaction that has become the pivot of two read-write conflicts cannot commit:
  \<^verbatim>\<open>Commit\<close> reports a serialization failure, the transaction is aborted, and its writes are gone. This
  is in a state that satisfies the invariant of the multi-version operations, so that the
  transaction has not been rolled back to a savepoint before, and without a concurrent reset.\<close>

theorem Commit_of_pivot_rolls_back:
  assumes inv: "mvcc_inv m" and t: "GetTxn m i = Some t" "t_Protocol t = ProtocolMVCC" "t_Isolation t = Serializable"
    and pivot: "CheckCommit (m_SSITracker m) i" and co: "Commit e i m = (r, m')" and e: "\<not> e_reset e"
  shows "r = Some (TxnErr NewSerializationFailure) \<and> Mgr_IsAborted m' i \<and> \<not> Mgr_IsCommitted m' i \<and> GetTxn m' i = None \<and>
    (\<forall>table key. \<forall>v \<in> set (versions (MVCCStore m') table key). XMin v \<noteq> i \<and> XMax v \<noteq> i)"
proof -
  have r: "r = Some (TxnErr NewSerializationFailure)" and rb: "rolled_back e i t m m'"
    using Commit_active(1) [OF inv t(1) co] t pivot by (auto simp: pivots_def)
  have "i \<notin> set (committed m)" using inv GetTxn_active(2) [OF inv t(1)] by (auto simp: mvcc_inv_def txns_inv_def)
  with rolled_back_core [OF rb] show ?thesis
    using r rolled_back_rows [OF inv t(1) e rb] by (simp add: Mgr_IsAborted_def Mgr_IsCommitted_def GetTxn_def)
qed

section \<open>Writes\<close>

lemma conflict_walk_Some: "conflict_walk i snap mgr vs = Some x \<Longrightarrow> \<exists>v \<in> set vs. XMin v = x \<and> x \<noteq> i"
  by (induction vs) (auto simp: Let_def split: if_splits prod.splits)

lemma conflict_walk_active:
  "v \<in> set vs \<Longrightarrow> XMin v \<noteq> i \<Longrightarrow> fst (TxnStatus mgr (XMin v)) \<Longrightarrow> conflict_walk i snap mgr vs \<noteq> None"
  by (induction vs) (auto simp: Let_def split: prod.splits)

lemma lock_live_chain_nonempty:
  "c_versions c \<noteq> [] \<Longrightarrow> \<not> tombstoned c \<Longrightarrow> lock_live_chain (Suc n) reaps table key c s = Some (c, s)"
  by (simp add: Let_def)

lemma conflict_walk_committed:
  "v \<in> set vs \<Longrightarrow> XMin v \<noteq> i \<Longrightarrow> snd (TxnStatus mgr (XMin v)) \<Longrightarrow> Snapshot_Contains snap (XMin v) \<Longrightarrow>
     conflict_walk i snap mgr vs \<noteq> None"
  by (induction vs) (auto simp: Let_def split: prod.splits)

text \<open>The row has a version of another transaction that is still running, or that was running when
  the writer took its snapshot and that the manager has recorded as committed since.\<close>

definition contended :: "Manager \<Rightarrow> txn_id \<Rightarrow> gostring \<Rightarrow> gostring \<Rightarrow> bool" where
  "contended m i table key \<longleftrightarrow>
     (\<exists>v \<in> set (versions (MVCCStore m) table key). XMin v \<noteq> i \<and>
        (Mgr_IsActive m (XMin v) \<or>
         Mgr_IsCommitted m (XMin v) \<and> (\<exists>s. snap_of m i = Some s \<and> Snapshot_Contains s (XMin v))))"

text \<open>C14. Dirty and stale writes are refused, in any state in which the chain of the row has not been
  tombstoned by the vacuum and without a concurrent reset: if the row has a version of another
  transaction that is still active, or that was active at the writer's snapshot and that the
  manager has recorded as committed, the write returns a write conflict with the creator of a
  version of the row, and no row changes. (A commit that the vacuum has made the manager forget is
  not noticed: \<open>forgotten_commit_overwritten\<close>.)\<close>

theorem contended_write_refused:
  assumes t: "objs m i = Some t" "Txn_IsActive t" "t_ID t = i" and con: "contended m i table key"
    and live: "\<And>c. GetChain (MVCCStore m) table key = Some c \<Longrightarrow> \<not> tombstoned c" and e: "\<not> e_reset e"
    and w: "MVCCWrite e reaps i table key vals op m = (r, m')"
  shows "(\<exists>x. r = Inl (TxnErr (NewWriteConflictError x)) \<and> x \<noteq> i \<and> x \<in> XMin ` set (versions (MVCCStore m) table key)) \<and>
    versions (MVCCStore m') = versions (MVCCStore m)"
proof -
  obtain snap m1 where get: "getSnapshot i t m = (snap, m1)" by fastforce
  have m1: "MVCCStore m1 = MVCCStore m" "VacuumChecker m1 = VacuumChecker m"
    and sn: "snap_of m i \<noteq> None \<Longrightarrow> snap_of m i = Some snap"
    using get t by (auto simp: getSnapshot_def Let_def snap_of_def split: if_splits option.splits)
  obtain c s where c: "GetOrCreateChain (MVCCStore m1) table key = (c, s)" by fastforce
  note spec = GetOrCreateChain_spec [OF c [unfolded m1]]
  have vs: "c_versions c = versions (MVCCStore m) table key" "versions s = versions (MVCCStore m)" "\<not> tombstoned c"
    using spec(1-3) live by (auto simp: fun_eq_iff)
  have "c_versions c \<noteq> []" using con by (auto simp: vs contended_def)
  then have lock: "lock_live_chain 4 reaps table key c s = Some (c, s)"
    using lock_live_chain_nonempty [of c 3 reaps table key s] vs(3) by (simp add: numeral_eq_Suc)
  have "TxnStatus (VacuumChecker m) x = (x \<in> set (txns m), x \<in> set (committed m))" for x
    by (simp add: VacuumChecker_def Mgr_TxnStatus_def)
  then have "conflict_walk i snap (VacuumChecker m) (c_versions c) \<noteq> None"
    using con sn conflict_walk_active [of _ "c_versions c" i "VacuumChecker m"]
      conflict_walk_committed [of _ "c_versions c" i "VacuumChecker m" snap]
    by (auto simp: contended_def vs Mgr_IsActive_def Mgr_IsCommitted_def)
  then obtain x where x: "CheckWriteConflict i c snap (VacuumChecker m1) = Some x" by (auto simp: CheckWriteConflict_def m1)
  then have "x \<noteq> i \<and> x \<in> XMin ` set (versions (MVCCStore m) table key)"
    using conflict_walk_Some by (fastforce simp: CheckWriteConflict_def vs)
  moreover have "r = Inl (TxnErr (NewWriteConflictError x))" "m' = m1\<lparr>MVCCStore := s\<rparr>"
    using w e x by (simp_all add: MVCCWrite_locked [OF t get c lock])
  ultimately show ?thesis using vs(2) by (intro conjI exI [of _ x]) simp_all
qed

text \<open>C22. A transaction reads its own writes: after a successful insert or update of a row it finds the
  values it wrote.\<close>

theorem read_your_writes:
  assumes inv: "mvcc_inv m" and w: "MVCCWrite e reaps i table key vals op m = (Inr (), m')" and op: "op \<noteq> UndoDelete"
    and proto: "proto_of m i \<noteq> Some Protocol2PL" and e: "\<not> e_reset e'"
  shows "fst (MVCCRead e' i table key m') = Inr (vals, True)"
proof (rule MVCCWrite_cases [OF inv w])
  fix t snap m1 s chain chain' m3
  assume t: "objs m i = Some t" "Txn_IsActive t" "getSnapshot i t m = (snap, m1)"
    and row: "row_write e i snap table key vals op chain (m1\<lparr>MVCCStore := s\<rparr>) = Inr (chain', m3)"
    and m': "same_core (m3\<lparr>MVCCStore := put_chain table key chain' (MVCCStore m3)\<rparr>) m'"
  have inv': "mvcc_inv m'" using MVCCWrite_inv [OF inv w _ proto] by simp
  have i: "i \<in> set (txns m)" using inv t by (auto simp: mvcc_inv_def txns_inv_def status_of_def Txn_IsActive_def GetStatus_def)
  have "txns m3 = txns m" using row_write_Inr(3) [OF row] getSnapshot_inv(5) [OF inv t] by (auto simp: same_core_def)
  with m' i have i': "i \<in> set (txns m')" by (simp add: same_core_def)
  obtain l vs where "c_versions chain' = new_version i vals l # vs"
    using row op by (cases op) (auto simp: row_write_def mvcc_insert_def mvcc_update_def Let_def Prepend_def split: option.splits)
  with m' have vs: "versions (MVCCStore m') table key = new_version i vals l # vs"
    by (simp add: same_core_def versions_put_chain)
  obtain t' where t': "objs m' i = Some t'" using active_obj [OF inv' i'] by blast
  obtain s' m1' where get: "getSnapshot i t' m' = (s', m1')" "t_ID t' = i" "Txn_IsActive t'"
    by (rule getSnapshot_cases [OF inv' i' t']) blast
  have "IsVisible (new_version i vals l) i s' (VacuumChecker m')" by (simp add: IsVisible_def new_version_def)
  then show ?thesis unfolding MVCCRead_result [OF t' get(3,2,1) e] vs by (simp add: new_version_def)
qed auto

section \<open>Transactions that have ended\<close>


section \<open>Instances\<close>

text \<open>A server with one row; two transactions begin, the second updates the row and commits.\<close>

definition run_start :: Manager where
  "run_start = start_manager 0 WalNil None sample_rows"

definition run_one :: "IsolationLevel \<Rightarrow> Manager" where
  "run_one l = snd (Begin sample_env ProtocolMVCC l run_start)"

definition run_two :: "IsolationLevel \<Rightarrow> Manager" where
  "run_two l = snd (Begin sample_env ProtocolMVCC l (run_one l))"

definition run_written :: "IsolationLevel \<Rightarrow> Manager" where
  "run_written l = snd (MVCCWrite sample_env [] 2 ''t'' ''a'' (Some [IntVal 8]) UndoUpdate (run_two l))"

definition run_done :: "IsolationLevel \<Rightarrow> Manager" where
  "run_done l = snd (Commit sample_env 2 (run_written l))"

lemma no_reset [simp]: "\<not> e_reset sample_env"
  by (simp add: sample_env_def)

lemma Begin_nextID: "Begin e protocol l m = (Inr i, m') \<Longrightarrow> nextID m' = nextID m + 1"
  by (auto simp: Begin_def nextTxnID_def enter_txn_def Let_def split: if_splits prod.splits)

lemma run_inv: "mvcc_inv run_start" "mvcc_inv (run_one l)" "mvcc_inv (run_two l)"
proof -
  note st = start_state(1,3,4) [OF sample_rows_ok refl refl, of 0 WalNil None]
  have start: "nextID run_start = 0" "MaxActive run_start = 0" using st by (simp_all add: run_start_def)
  show a: "mvcc_inv run_start" using start_inv [OF sample_rows_ok] by (simp add: run_start_def)
  have lt: "(1 :: u64) < - 1" "(2 :: u64) < - 1"
    by (simp_all add: word_less_nat_alt unsigned_minus_1_eq_mask mask_eq_exp_minus_1)
  have "Begin sample_env ProtocolMVCC l run_start = (Inr 1, run_one l)"
    using start by (simp add: run_one_def Begin_def nextTxnID_def)
  from Begin_nextID [OF this] Begin_inv [OF a _ this] lt start
  show b: "mvcc_inv (run_one l)" and "mvcc_inv (run_two l)"
    using Begin_inv [of "run_one l" sample_env ProtocolMVCC l _ "run_two l", OF _ _ prod.collapse [symmetric, of "Begin sample_env ProtocolMVCC l (run_one l)", folded run_two_def]]
    by auto
qed

lemma run_eval:
  "(let m = run_two RepeatableRead; w = MVCCWrite sample_env [] 2 ''t'' ''a'' (Some [IntVal 8]) UndoUpdate m; m1 = snd w;
        m2 = snd (Commit sample_env 2 m1)
    in (txns m, versions (MVCCStore m) ''t'' ''a'', proto_of m 2, snap_of m 1, fst w, txns m1,
        map XMin (versions (MVCCStore m1) ''t'' ''a''), fst (MVCCRead sample_env 1 ''t'' ''a'' m1), txns m2, committed m2, objs m2 2 = None)) =
   ([2, 1], [\<lparr>XMin = 0, XMax = 0, v_data = Some [IntVal 7], v_lsn = 0\<rparr>], Some ProtocolMVCC,
    Some \<lparr>Xmin = 2, Xmax = 2, snap_active = []\<rparr>, Inr (), [2, 1], [2, 0], Inr (Some [IntVal 7], True), [1], [2, 0], False)"
  by code_simp

lemma run_values:
  "txns (run_two RepeatableRead) = [2, 1]"
  "versions (MVCCStore (run_two RepeatableRead)) ''t'' ''a'' = [\<lparr>XMin = 0, XMax = 0, v_data = Some [IntVal 7], v_lsn = 0\<rparr>]"
  "proto_of (run_two RepeatableRead) 2 = Some ProtocolMVCC"
  "snap_of (run_two RepeatableRead) 1 = Some \<lparr>Xmin = 2, Xmax = 2, snap_active = []\<rparr>"
  "fst (MVCCWrite sample_env [] 2 ''t'' ''a'' (Some [IntVal 8]) UndoUpdate (run_two RepeatableRead)) = Inr ()"
  "txns (run_written RepeatableRead) = [2, 1]" "map XMin (versions (MVCCStore (run_written RepeatableRead)) ''t'' ''a'') = [2, 0]"
  "fst (MVCCRead sample_env 1 ''t'' ''a'' (run_written RepeatableRead)) = Inr (Some [IntVal 7], True)"
  "txns (run_done RepeatableRead) = [1]" "committed (run_done RepeatableRead) = [2, 0]" "objs (run_done RepeatableRead) 2 \<noteq> None"
  using run_eval unfolding run_written_def [symmetric] run_done_def [symmetric] Let_def prod.inject by blast+

lemma run_proto: "proto_of (run_two RepeatableRead) 2 \<noteq> Some Protocol2PL"
  by (simp add: run_values)

lemmas run_two_inv = run_inv(3) [of RepeatableRead]

lemma run_write: "MVCCWrite sample_env [] 2 ''t'' ''a'' (Some [IntVal 8]) UndoUpdate (run_two RepeatableRead) = (Inr (), run_written RepeatableRead)"
  using run_values(5) by (simp add: run_written_def prod_eq_iff)

lemma run_written_inv: "mvcc_inv (run_written RepeatableRead)"
  using MVCCWrite_inv [OF run_two_inv run_write _ run_proto] by simp

theorem read_your_writes_witness:
  "fst (MVCCRead sample_env 2 ''t'' ''a'' (run_written RepeatableRead)) = Inr (Some [IntVal 8], True)"
  by (rule read_your_writes [OF run_two_inv run_write _ run_proto]) simp_all

theorem MVCCRead_no_dirty_read_witness:
  "\<exists>v \<in> set (versions (MVCCStore (run_written RepeatableRead)) ''t'' ''a'').
     v_data v = Some [IntVal 7] \<and> (XMin v = 1 \<or> Mgr_IsCommitted (run_written RepeatableRead) (XMin v))"
proof -
  let ?m = "run_written RepeatableRead"
  have "map_option (\<lambda>t. (t_ID t, Xmin (fst (getSnapshot 1 t ?m)))) (objs ?m 1) = Some (1, 2)" "Mgr_IsCommitted ?m 0"
    by code_simp+
  then obtain t where t: "objs ?m 1 = Some t" "t_ID t = 1" "Xmin (fst (getSnapshot 1 t ?m)) = 2" "Mgr_IsCommitted ?m 0" by auto
  have "XMin v \<in> {2, 0}" if "v \<in> set (versions (MVCCStore ?m) ''t'' ''a'')" for v
    using that run_values(7) by (metis image_eqI list.set(1,2) list.set_map)
  with t have "\<forall>v \<in> set (versions (MVCCStore ?m) ''t'' ''a'').
      XMin v < Xmin (fst (getSnapshot 1 t ?m)) \<longrightarrow> Mgr_IsCommitted ?m (XMin v) \<or> Mgr_IsAborted ?m (XMin v)"
    by (metis insertE less_irrefl singletonD)
  from MVCCRead_no_dirty_read [OF t(1) this run_values(8)] show ?thesis by (simp add: t(2))
qed

theorem ReadCommitted_reads_newest_witness:
  "fst (MVCCRead sample_env 1 ''t'' ''a'' (run_two ReadCommitted)) = Inr (Some [IntVal 7], True)"
proof -
  note inv = run_inv(3) [of ReadCommitted]
  have "(let m = run_two ReadCommitted in (txns m, map_option t_Isolation (objs m 1), versions (MVCCStore m) ''t'' ''a'', Mgr_IsCommitted m 0)) =
    ([2, 1], Some ReadCommitted, [\<lparr>XMin = 0, XMax = 0, v_data = Some [IntVal 7], v_lsn = 0\<rparr>], True)"
    by code_simp
  then have vals: "txns (run_two ReadCommitted) = [2, 1]" "map_option t_Isolation (objs (run_two ReadCommitted) 1) = Some ReadCommitted"
    "versions (MVCCStore (run_two ReadCommitted)) ''t'' ''a'' = [\<lparr>XMin = 0, XMax = 0, v_data = Some [IntVal 7], v_lsn = 0\<rparr>]"
    "Mgr_IsCommitted (run_two ReadCommitted) 0"
    by (simp_all add: Let_def)
  then obtain t where t: "objs (run_two ReadCommitted) 1 = Some t" "t_Isolation t = ReadCommitted" by auto
  show ?thesis using ReadCommitted_reads_newest [OF inv _ t no_reset, of "''t''" "''a''"] vals by simp
qed


theorem contended_write_refused_witness:
  "\<exists>x. fst (MVCCWrite sample_env [] 1 ''t'' ''a'' (Some []) UndoUpdate (run_written RepeatableRead)) =
     Inl (TxnErr (NewWriteConflictError x)) \<and> x \<noteq> 1"
proof -
  let ?m = "run_written RepeatableRead"
  have vals: "1 \<in> set (txns ?m)" "2 \<in> set (txns ?m)"
    "map XMin (versions (MVCCStore ?m) ''t'' ''a'') = [2, 0]" by (simp_all add: run_values)
  then have con: "contended ?m 1 ''t'' ''a''" by (auto simp: contended_def Mgr_IsActive_def map_eq_Cons_conv)
  obtain t where t: "objs ?m 1 = Some t" using active_obj [OF run_written_inv vals(1)] by blast
  then have act: "Txn_IsActive t" "t_ID t = 1" using run_written_inv vals(1)
    by (auto simp: mvcc_inv_def txns_inv_def ids_ok_def status_of_def Txn_IsActive_def GetStatus_def)
  have "\<not> tombstoned c" if "GetChain (MVCCStore ?m) ''t'' ''a'' = Some c" for c
    using run_written_inv that by (auto simp: mvcc_inv_def chains_inv_def)
  from contended_write_refused [OF t act con this no_reset surjective_pairing [of "MVCCWrite sample_env [] 1 ''t'' ''a'' (Some []) UndoUpdate ?m"]]
  show ?thesis by blast
qed

theorem Abort_leaves_no_trace_witness:
  "2 \<notin> XMin ` set (versions (MVCCStore (snd (Abort sample_env 2 (run_written RepeatableRead)))) ''t'' ''a'') \<and>
   2 \<notin> XMax ` set (versions (MVCCStore (snd (Abort sample_env 2 (run_written RepeatableRead)))) ''t'' ''a'')"
proof -
  let ?m = "run_written RepeatableRead"
  obtain t where "GetTxn ?m 2 = Some t" using active_obj [OF run_written_inv, of 2] run_values(6) by (auto simp: GetTxn_def)
  from Abort_leaves_no_trace [OF run_written_inv this surjective_pairing [of "Abort sample_env 2 ?m"] no_reset]
  show ?thesis by (auto simp: image_iff)
qed


text \<open>Write skew: both transactions read both rows and each updates one.\<close>

definition skew_read :: Manager where
  "skew_read = snd (MVCCRead sample_env 2 ''t'' ''a'' (snd (MVCCRead sample_env 1 ''t'' ''b'' (run_two Serializable))))"

definition skew_one :: Manager where
  "skew_one = snd (MVCCWrite sample_env [] 1 ''t'' ''a'' (Some []) UndoUpdate skew_read)"

definition skew_two :: Manager where
  "skew_two = snd (MVCCWrite sample_env [] 2 ''t'' ''b'' (Some []) UndoUpdate skew_one)"

lemma skew_eval:
  "(let m = skew_read; w = MVCCWrite sample_env [] 1 ''t'' ''a'' (Some []) UndoUpdate m; m1 = snd w;
        w2 = MVCCWrite sample_env [] 2 ''t'' ''b'' (Some []) UndoUpdate m1; m2 = snd w2
    in (proto_of m 1, fst w, proto_of m1 2, fst w2, map_option (\<lambda>t. (t_Protocol t, t_Isolation t)) (GetTxn m2 1),
        CheckCommit (m_SSITracker m2) 1)) =
   (Some ProtocolMVCC, Inr (), Some ProtocolMVCC, Inr (), Some (ProtocolMVCC, Serializable), True)"
  by code_simp

lemmas skew_values = skew_eval [unfolded Let_def, folded skew_one_def, folded skew_two_def, unfolded prod.inject]

lemma skew_inv: "mvcc_inv skew_two"
proof -
  have read: "mvcc_inv (snd (MVCCRead sample_env i table key m))" if "mvcc_inv m" for i table key m
    using MVCCRead_inv [OF that surjective_pairing] .
  have "mvcc_inv skew_read" unfolding skew_read_def by (intro read run_inv)
  moreover have "MVCCWrite sample_env [] 1 ''t'' ''a'' (Some []) UndoUpdate skew_read = (Inr (), skew_one)"
    "MVCCWrite sample_env [] 2 ''t'' ''b'' (Some []) UndoUpdate skew_one = (Inr (), skew_two)"
    using skew_values unfolding skew_one_def skew_two_def by (simp_all only: prod_eq_iff fst_conv snd_conv)
  ultimately show ?thesis using MVCCWrite_inv skew_values by (metis ConcurrencyProtocol.distinct(1) option.inject sum.distinct(1))
qed

theorem Commit_of_pivot_rolls_back_witness:
  "fst (Commit sample_env 1 skew_two) = Some (TxnErr NewSerializationFailure) \<and> Mgr_IsAborted (snd (Commit sample_env 1 skew_two)) 1"
proof -
  have "map_option (\<lambda>t. (t_Protocol t, t_Isolation t)) (GetTxn skew_two 1) = Some (ProtocolMVCC, Serializable)"
    "CheckCommit (m_SSITracker skew_two) 1" using skew_values by blast+
  then obtain t where "GetTxn skew_two 1 = Some t" "t_Protocol t = ProtocolMVCC" "t_Isolation t = Serializable"
    "CheckCommit (m_SSITracker skew_two) 1" by auto
  from Commit_of_pivot_rolls_back [OF skew_inv this surjective_pairing [of "Commit sample_env 1 skew_two"] no_reset]
  show ?thesis by blast
qed

end
