(* ===== verification/Txn_Runs.thy ===== *)
theory Txn_Runs
  imports Txn_Isolation
begin

text \<open>
  Runs of the manager that the guarantees of the isolation theory do not cover: each is
  evaluated on the model and shows a behaviour that the comments of the code exclude.
\<close>

section \<open>Writes\<close>

text \<open>The conflict check looks for writers in the active set of the snapshot only. A transaction that
  began after the snapshot and has committed is not noticed: the update of the older one
  succeeds, and the other's update is lost.\<close>

lemma lost_update:
  "fst (MVCCWrite sample_env [] 1 ''t'' ''a'' (Some [IntVal 1]) UndoUpdate (run_done RepeatableRead)) = Inr ()"
  by code_simp

text \<open>The check looks at creators only, so a deletion is never a conflict. When two transactions delete
  the same row and the later one aborts, the deletion that was committed is undone too.\<close>

definition lost_delete_run :: "mgr_error option \<times> txn_id list" where
  "lost_delete_run =
     (let m = run_two RepeatableRead;
          m1 = snd (MVCCWrite sample_env [] 2 ''t'' ''a'' None UndoDelete m);
          (r, m2) = Commit sample_env 2 m1;
          m3 = snd (MVCCWrite sample_env [] 1 ''t'' ''a'' None UndoDelete m2);
          m4 = snd (Abort sample_env 1 m3)
      in (r, map XMax (versions (MVCCStore m4) ''t'' ''a'')))"

lemma lost_delete: "lost_delete_run = (None, [0])"
  by code_simp

section \<open>Savepoints\<close>

text \<open>Rolling a multi-version transaction back to a savepoint cuts its undo log and leaves the version
  chains alone: it still reads the write it has rolled back, and an abort does not find it
  any more.\<close>

definition savepoint_run :: "mgr_error option \<times> (mgr_error + values \<times> bool) \<times> txn_id list" where
  "savepoint_run =
     (let m = snd (CreateSavepoint 2 ''s'' (run_two RepeatableRead));
          m1 = snd (MVCCWrite sample_env [] 2 ''t'' ''a'' (Some [IntVal 8]) UndoUpdate m);
          (r, m2) = RollbackToSavepoint sample_env 2 ''s'' m1;
          v = fst (MVCCRead sample_env 2 ''t'' ''a'' m2);
          m3 = snd (Abort sample_env 2 m2)
      in (r, v, map XMin (versions (MVCCStore m3) ''t'' ''a'')))"

lemma savepoint_not_rolled_back: "savepoint_run = (None, Inr (Some [IntVal 8], True), [2, 0])"
  by code_simp

section \<open>The vacuum\<close>

text \<open>The horizon of the vacuum is the oldest active transaction. A version that was deleted by a
  transaction below it is removed although the snapshot of an active transaction contains
  that deleter as active: the reader loses the row.\<close>

definition vacuum_run :: "(mgr_error + values \<times> bool) \<times> (mgr_error + values \<times> bool)" where
  "vacuum_run =
     (let m = snd (MVCCWrite sample_env [] 1 ''t'' ''a'' (Some [IntVal 8]) UndoUpdate (run_two RepeatableRead));
          m1 = snd (Commit sample_env 1 m);
          m2 = m1\<lparr>MVCCStore := snd (pruneVersions (OldestActiveTxnID m1) (VacuumChecker m1) (\<lparr>pruned = 0, runs = 0\<rparr>, MVCCStore m1))\<rparr>
      in (fst (MVCCRead sample_env 2 ''t'' ''a'' m1), fst (MVCCRead sample_env 2 ''t'' ''a'' m2)))"

lemma vacuum_removes_visible_version: "vacuum_run = (Inr (Some [IntVal 7], True), Inr (None, False))"
  by code_simp

text \<open>A round with few records of ended transactions, where the cap on the history does not matter.\<close>

definition vacuumed :: "Manager \<Rightarrow> Manager" where
  "vacuumed m =
    (let oldest = (if oldestActiveTxnIDLocked m = 0 then nextID m else oldestActiveTxnIDLocked m)
     in m\<lparr>MVCCStore := snd (pruneVersions (OldestActiveTxnID m) (VacuumChecker m) (\<lparr>pruned = 0, runs = 0\<rparr>, MVCCStore m)),
          committed := filter (\<lambda>i. \<not> i < oldest) (committed m), aborted := filter (\<lambda>i. \<not> i < oldest) (aborted m)\<rparr>)"

lemma RunOnce_small:
  assumes "length (committed m) \<le> 65536"
  shows "snd (RunOnce (\<lparr>pruned = 0, runs = 0\<rparr>, m)) = vacuumed m"
proof -
  have "length (filter P (committed m)) - 65536 = 0" for P using assms length_filter_le [of P "committed m"] by linarith
  then show ?thesis
    by (simp add: vacuumed_def RunOnce_def PruneHistory_def oldestActiveTxnIDLocked_def Let_def split: prod.splits)
qed

text \<open>The history of the outcomes is cut at the oldest active transaction, although versions of the
  forgotten transactions remain. Here the transaction 1 rolls back to a savepoint, so that its version
  stays, and aborts; after a round of the vacuum the transaction 2 reads what it wrote.\<close>

definition aborted_write_state :: Manager where
  "aborted_write_state =
     (let m = snd (CreateSavepoint 1 ''s'' (run_one RepeatableRead));
          m1 = snd (MVCCWrite sample_env [] 1 ''t'' ''a'' (Some [IntVal 8]) UndoUpdate m);
          m2 = snd (RollbackToSavepoint sample_env 1 ''s'' m1);
          m3 = snd (Abort sample_env 1 m2)
      in snd (Begin sample_env ProtocolMVCC RepeatableRead m3))"

lemma aborted_write_read:
  "fst (MVCCRead sample_env 2 ''t'' ''a'' aborted_write_state) = Inr (Some [IntVal 7], True)"
  "fst (MVCCRead sample_env 2 ''t'' ''a'' (snd (RunOnce (\<lparr>pruned = 0, runs = 0\<rparr>, aborted_write_state)))) =
     Inr (Some [IntVal 8], True)"
proof -
  show "fst (MVCCRead sample_env 2 ''t'' ''a'' aborted_write_state) = Inr (Some [IntVal 7], True)" by code_simp
  have "length (committed aborted_write_state) = 1" by code_simp
  then have run: "snd (RunOnce (\<lparr>pruned = 0, runs = 0\<rparr>, aborted_write_state)) = vacuumed aborted_write_state" by (simp add: RunOnce_small)
  show "fst (MVCCRead sample_env 2 ''t'' ''a'' (snd (RunOnce (\<lparr>pruned = 0, runs = 0\<rparr>, aborted_write_state)))) =
     Inr (Some [IntVal 8], True)"
    unfolding run by code_simp
qed

text \<open>And a commit that is forgotten is no conflict: the transaction 1 was active at the snapshot of the
  transaction 2, inserts a row and commits. After a round of the vacuum the transaction 2 inserts
  the same row.\<close>

definition forgotten_commit_state :: Manager where
  "forgotten_commit_state =
     snd (Commit sample_env 1 (snd (MVCCWrite sample_env [] 1 ''t'' ''n'' (Some [IntVal 8]) UndoInsert (run_two RepeatableRead))))"

lemma forgotten_commit_overwritten:
  "fst (MVCCWrite sample_env [] 2 ''t'' ''n'' (Some [IntVal 9]) UndoInsert forgotten_commit_state) =
     Inl (TxnErr (NewWriteConflictError 1))"
  "fst (MVCCWrite sample_env [] 2 ''t'' ''n'' (Some [IntVal 9]) UndoInsert
     (snd (RunOnce (\<lparr>pruned = 0, runs = 0\<rparr>, forgotten_commit_state)))) = Inr ()"
proof -
  show "fst (MVCCWrite sample_env [] 2 ''t'' ''n'' (Some [IntVal 9]) UndoInsert forgotten_commit_state) =
     Inl (TxnErr (NewWriteConflictError 1))" by code_simp
  have "length (committed forgotten_commit_state) = 2" by code_simp
  then have run: "snd (RunOnce (\<lparr>pruned = 0, runs = 0\<rparr>, forgotten_commit_state)) = vacuumed forgotten_commit_state" by (simp add: RunOnce_small)
  show "fst (MVCCWrite sample_env [] 2 ''t'' ''n'' (Some [IntVal 9]) UndoInsert
     (snd (RunOnce (\<lparr>pruned = 0, runs = 0\<rparr>, forgotten_commit_state)))) = Inr ()"
    unfolding run by code_simp
qed

section \<open>Replicated transactions\<close>

text \<open>\<^verbatim>\<open>BeginWithID\<close> does not advance the counter: a node that has applied the begin of transaction 1
  hands the same number out again.\<close>

lemma replicated_id_reused:
  "fst (Begin sample_env ProtocolMVCC RepeatableRead (snd (BeginWithID sample_env 1 ProtocolMVCC RepeatableRead run_start))) = Inr 1"
  by code_simp

end
