(* ===== verification/Two_PL.thy ===== *)
theory Two_PL
  imports Txn_Mvcc
begin

text \<open>
  Strict two-phase locking: \<^verbatim>\<open>TwoPLRead\<close> and \<^verbatim>\<open>TwoPLWrite\<close> of \<^verbatim>\<open>internal/txn/manager.go\<close>, and the
  gap locks and the scan of \<^verbatim>\<open>internal/txn/gap_lock.go\<close>.

  These operations block in the lock manager in the middle, so each is a \<open>call\<close>: the lock
  requests it makes and the sections it runs between them, in the order of the code. A request
  that fails ends the call with the error of the lock manager. The notification of a lock timeout
  feeds a counter only and is left out.
\<close>

section \<open>Calls\<close>

datatype reply = Found "values" bool | RowList "Row list" | Completed

datatype call =
    Return "mgr_error + reply"
  | Lock ResourceID Mode call
  | Do "Manager \<Rightarrow> call \<times> Manager"

text \<open>A call that runs after another one has returned without an error.\<close>

primrec and_then :: "call \<Rightarrow> call \<Rightarrow> call" where
  "and_then (Return r) k = (case r of Inl err \<Rightarrow> Return (Inl err) | Inr _ \<Rightarrow> k)"
| "and_then (Lock r md c) k = Lock r md (and_then c k)"
| "and_then (Do f) k = Do (map_prod (\<lambda>c. and_then c k) id \<circ> f)"

definition fail :: "TxnError \<Rightarrow> call" where
  "fail err = Return (Inl (TxnErr err))"

definition with_table :: "gostring \<Rightarrow> (Table \<Rightarrow> call) \<Rightarrow> call" where
  "with_table table k =
     Do (\<lambda>m. (case Lookup (m_Catalog m) table of None \<Rightarrow> fail NewTableNotFoundError | Some t \<Rightarrow> k t, m))"

primrec lock_all :: "(ResourceID \<times> Mode) list \<Rightarrow> call \<Rightarrow> call" where
  "lock_all [] k = k"
| "lock_all (x # xs) k = Lock (fst x) (snd x) (lock_all xs k)"

section \<open>Reads and writes\<close>

definition TwoPLRead :: "Transaction \<Rightarrow> gostring \<Rightarrow> gostring \<Rightarrow> call" where
  "TwoPLRead t table key =
     lock_all
       (if t_Isolation t \<noteq> ReadUncommitted
        then [(ResourceForTable table, LockIS), (ResourceForRow table key, LockS)] else [])
       (with_table table (\<lambda>tbl. let (v, ok) = GetRow tbl key in Return (Inr (Found v ok))))"

text \<open>The part of \<^verbatim>\<open>TwoPLWrite\<close> after the locks are held.\<close>

definition write_row ::
  "env \<Rightarrow> txn_id \<Rightarrow> gostring \<Rightarrow> gostring \<Rightarrow> values \<Rightarrow> UndoOpType \<Rightarrow> Manager \<Rightarrow> (mgr_error + reply) \<times> Manager"
where
  "write_row e i table key vals op m =
     (case Lookup (m_Catalog m) table of
        None \<Rightarrow> (Inl (TxnErr NewTableNotFoundError), m)
      | Some tbl \<Rightarrow>
          (let before = fst (GetRow tbl key)
           in case log_write e i op table key (Some (image_of before)) vals m of
                None \<Rightarrow> (Inl EncodePanic, m)
              | Some (writeLSN, m1) \<Rightarrow>
                  (let m2 = upd_txn i (log_undo op table key before writeLSN) m1;
                       tbl' = (case op of UndoDelete \<Rightarrow> snd (DeleteRow tbl key) | _ \<Rightarrow> PutRow tbl key vals);
                       m3 = m2\<lparr>m_Catalog := store_table table tbl' (m_Catalog m2)\<rparr>
                   in (Inr Completed, upd_txn i (addWrite key) m3))))"

definition TwoPLWrite :: "env \<Rightarrow> Transaction \<Rightarrow> gostring \<Rightarrow> gostring \<Rightarrow> values \<Rightarrow> UndoOpType \<Rightarrow> call" where
  "TwoPLWrite e t table key vals op =
     lock_all [(ResourceForTable table, LockIX), (ResourceForRow table key, LockX)]
       (Do (\<lambda>m. map_prod Return id (write_row e (t_ID t) table key vals op m)))"

section \<open>Gap locks\<close>

definition gapInfinitySentinel :: gostring where
  "gapInfinitySentinel = replicate 4 (char_of (255 :: nat))"

text \<open>Go ranges over the runes of the string. A byte above 0x7F starts no rune below 0x80, so the
  test on runes and the test on bytes agree.\<close>

definition isGapSafeKey :: "gostring \<Rightarrow> bool" where
  "isGapSafeKey k = list_all (\<lambda>c. \<not> (of_char c < (0x20 :: nat) \<or> of_char c > (0x7E :: nat))) k"

definition inRange :: "gostring \<Rightarrow> gostring \<Rightarrow> gostring \<Rightarrow> bool" where
  "inRange lo hi k = ((lo = [] \<or> k \<ge> lo) \<and> (hi = [] \<or> k \<le> hi))"

text \<open>The loop of \<^verbatim>\<open>LockForRangeScan\<close>: the requests it makes, and the final value of \<^verbatim>\<open>prev\<close>.\<close>

fun range_locks ::
  "gostring \<Rightarrow> gostring \<Rightarrow> gostring \<Rightarrow> gostring \<Rightarrow> gostring list \<Rightarrow> (ResourceID \<times> Mode) list \<times> gostring"
where
  "range_locks table lo hi prev [] = ([], prev)"
| "range_locks table lo hi prev (k # ks) =
     (if \<not> inRange lo hi k then range_locks table lo hi (if lo \<noteq> [] \<and> k < lo then k else prev) ks
      else let (rs, p) = range_locks table lo hi k ks
           in ((ResourceForGap table prev k, LockS) # (ResourceForRow table k, LockS) # rs, p))"

definition trailingGapHi :: "gostring \<Rightarrow> gostring list \<Rightarrow> gostring" where
  "trailingGapHi hi sortedKeys =
     (if hi = [] then gapInfinitySentinel
      else case find (\<lambda>k. k > hi) sortedKeys of Some k \<Rightarrow> k | None \<Rightarrow> gapInfinitySentinel)"

definition scan_locks :: "gostring \<Rightarrow> gostring \<Rightarrow> gostring \<Rightarrow> gostring list \<Rightarrow> (ResourceID \<times> Mode) list" where
  "scan_locks table lo hi sortedKeys =
     (let (rs, prev) = range_locks table lo hi [] sortedKeys
      in rs @ [(ResourceForGap table prev (trailingGapHi hi sortedKeys), LockS)])"

definition LockForRangeScan :: "gostring \<Rightarrow> gostring \<Rightarrow> gostring \<Rightarrow> call" where
  "LockForRangeScan table lo hi =
     Lock (ResourceForTable table) LockIS
       (with_table table (\<lambda>t. lock_all (scan_locks table lo hi (sort (Keys t))) (Return (Inr Completed))))"

text \<open>The loop of \<^verbatim>\<open>LockForInsert\<close> that finds the neighbours of the key.\<close>

fun neighbours :: "gostring \<Rightarrow> gostring \<Rightarrow> gostring list \<Rightarrow> gostring \<times> gostring" where
  "neighbours key prev [] = (prev, [])"
| "neighbours key prev (k # ks) =
     (if k < key then neighbours key k ks else if k > key then (prev, k) else neighbours key prev ks)"

definition insert_gap :: "gostring \<Rightarrow> gostring \<Rightarrow> gostring list \<Rightarrow> ResourceID" where
  "insert_gap table key sortedKeys =
     (let (prev, nxt) = neighbours key [] sortedKeys
      in ResourceForGap table prev (if nxt = [] then gapInfinitySentinel else nxt))"

definition LockForInsert :: "gostring \<Rightarrow> gostring \<Rightarrow> call" where
  "LockForInsert table key =
     Lock (ResourceForTable table) LockIX
       (with_table table (\<lambda>t.
          if \<not> isGapSafeKey key then fail (txn_error ErrTxnAborted)
          else lock_all [(insert_gap table key (sort (Keys t)), LockX), (ResourceForRow table key, LockX)]
                 (Return (Inr Completed))))"

definition TwoPLScan :: "Transaction \<Rightarrow> gostring \<Rightarrow> (Row \<Rightarrow> bool) option \<Rightarrow> call" where
  "TwoPLScan t table flt =
     (let read = with_table table (\<lambda>tbl. Return (Inr (RowList (Scan tbl flt))))
      in case t_Isolation t of
           Serializable \<Rightarrow> and_then (LockForRangeScan table [] []) read
         | RepeatableRead \<Rightarrow> Lock (ResourceForTable table) LockS read
         | ReadCommitted \<Rightarrow> Lock (ResourceForTable table) LockIS read
         | ReadUncommitted \<Rightarrow> read)"

text \<open>A call that never has to wait, run from start to end; \<open>None\<close> when it blocks, or when it asks for a
  resource whose name could be that of another one.\<close>

primrec run_call :: "call \<Rightarrow> txn_id \<Rightarrow> Manager \<Rightarrow> ((mgr_error + reply) \<times> Manager) option" where
  "run_call (Return r) = (\<lambda>i m. Some (r, m))"
| "run_call (Lock r md c) = (\<lambda>i m.
     case AcquireLock_enter i r md (LockAcq m) of
       (_, AcqOk, st) \<Rightarrow> if wf_resource r then run_call c i (m\<lparr>LockAcq := st\<rparr>) else None
     | (_, AcqWait _, _) \<Rightarrow> None)"
| "run_call (Do f) = (\<lambda>i m. let (g, m') = map_prod run_call id (f m) in g i m')"

section \<open>Gap locks and phantoms\<close>

lemma neighbours_next:
  "key \<notin> set ks \<Longrightarrow> snd (neighbours key prev ks) = (case find (\<lambda>k. key < k) ks of Some k \<Rightarrow> k | None \<Rightarrow> [])"
  by (induction ks arbitrary: prev) auto

lemma find_widen: "find (\<lambda>k. key < k) ks = Some n \<Longrightarrow> key \<le> hi \<Longrightarrow> hi < n \<Longrightarrow> find (\<lambda>k. hi < k) ks = Some n"
  for key :: gostring
  by (induction ks) (auto split: if_splits)

lemma range_locks_beyond: "\<forall>k \<in> set ks. hi < k \<Longrightarrow> hi \<noteq> [] \<Longrightarrow> lo = [] \<or> lo \<le> hi \<Longrightarrow>
    range_locks table lo hi prev ks = ([], prev)"
  by (induction ks) (auto simp: inRange_def)

text \<open>The loop locks the gap in front of the next key when that key is in the range, and otherwise
  ends with the lower end of that gap.\<close>

lemma range_locks_gap:
  assumes "sorted ks" and "key \<notin> set ks" and "inRange lo hi key" and "neighbours key prev ks = (p, n)"
  shows "if n \<noteq> [] \<and> inRange lo hi n then (ResourceForGap table p n, LockS) \<in> set (fst (range_locks table lo hi prev ks))
         else snd (range_locks table lo hi prev ks) = p"
  using assms
proof (induction ks arbitrary: prev)
  case (Cons k ks)
  then have key: "k \<noteq> key" and bounds: "lo = [] \<or> lo \<le> key" "hi = [] \<or> key \<le> hi" by (auto simp: inRange_def)
  show ?case
  proof (cases "k < key")
    case True
    then have nb: "neighbours key k ks = (p, n)" using Cons.prems(4) by simp
    have hi: "hi = [] \<or> k \<le> hi" using bounds(2) True by auto
    have "\<not> inRange lo hi k \<Longrightarrow> lo \<noteq> [] \<and> k < lo" using hi by (auto simp: inRange_def)
    then show ?thesis
      using Cons.IH [OF _ _ Cons.prems(3) nb] Cons.prems(1,2) by (auto split: prod.splits)
  next
    case False
    with key have gt: "key < k" by simp
    then have np: "n = k" "p = prev" "n \<noteq> []" using Cons.prems(4) False by auto
    show ?thesis
    proof (cases "inRange lo hi k")
      case True
      then show ?thesis using np by (auto split: prod.splits)
    next
      case False
      have lo: "lo = [] \<or> lo \<le> k" "\<not> k < lo \<or> lo = []" using bounds(1) gt by auto
      with False have hi: "hi \<noteq> []" "hi < k" by (auto simp: inRange_def)
      then have "\<forall>k' \<in> set ks. hi < k'" using Cons.prems(1) by (auto intro: less_le_trans)
      then have "range_locks table lo hi prev ks = ([], prev)"
        using range_locks_beyond [of ks hi lo] hi bounds by (auto intro: order_trans)
      then show ?thesis using False np lo by auto
    qed
  qed
qed simp

lemma scan_locks_insert_gap:
  assumes "sorted ks" and "key \<notin> set ks" and "inRange lo hi key"
  shows "(insert_gap table key ks, LockS) \<in> set (scan_locks table lo hi ks)"
proof -
  obtain p n where nb: "neighbours key [] ks = (p, n)" by (cases "neighbours key [] ks")
  note gap = range_locks_gap [OF assms nb, of table]
  show ?thesis
  proof (cases "n \<noteq> [] \<and> inRange lo hi n")
    case True
    then show ?thesis using gap nb by (simp add: insert_gap_def scan_locks_def case_prod_beta)
  next
    case False
    have nxt: "n = (case find (\<lambda>k. key < k) ks of Some k \<Rightarrow> k | None \<Rightarrow> [])"
      using neighbours_next [OF assms(2), of "[]"] nb by simp
    have "(if n = [] then gapInfinitySentinel else n) = trailingGapHi hi ks"
    proof (cases "find (\<lambda>k. key < k) ks")
      case None
      have none: "hi \<noteq> [] \<Longrightarrow> find (\<lambda>k. hi < k) ks = None"
        using None assms(3) by (fastforce simp: find_None_iff inRange_def)
      show ?thesis using none nxt None by (simp add: trailingGapHi_def)
    next
      case (Some k)
      then have "n = k" "key < k" using nxt Some find_Some_iff [of "\<lambda>k. key < k" ks k] by (simp, blast)
      moreover have "n \<noteq> []" using calculation by auto
      ultimately have "hi \<noteq> []" "hi < n" "key \<le> hi" using False assms(3) by (auto simp: inRange_def)
      then show ?thesis using find_widen [OF Some] \<open>n = k\<close> \<open>n \<noteq> []\<close> by (simp add: trailingGapHi_def)
    qed
    then show ?thesis using gap False nb by (simp add: insert_gap_def scan_locks_def case_prod_beta)
  qed
qed

lemma scan_mode_excludes: "strength LockS \<le> strength md \<Longrightarrow> \<not> mode_compat md LockX"
  by (cases md) simp_all

text \<open>
  C18. No phantoms among the keys a range scan has locked. While a transaction holds the locks that
  \<^verbatim>\<open>LockForRangeScan\<close> requests for a range of a table, no other transaction holds the gap lock that
  \<^verbatim>\<open>LockForInsert\<close> requests for a key of the range that the table does not have: both compute the
  same gap from the keys of the table, whichever of the bounds is open and whether or not the
  bounds are keys.
\<close>

theorem range_scan_excludes_insert:
  assumes "lock_reachable st pend" and "rows_ok tbl" and "row_at tbl key = None" and "inRange lo hi key" and "t1 \<noteq> t2"
    and "\<forall>(r, md) \<in> set (scan_locks table lo hi (sort (Keys tbl))).
      \<exists>md'. HeldSet_Get (helds st t1) r = Some md' \<and> strength md \<le> strength md'"
  shows "HeldSet_Get (helds st t2) (insert_gap table key (sort (Keys tbl))) \<noteq> Some LockX"
proof
  assume x: "HeldSet_Get (helds st t2) (insert_gap table key (sort (Keys tbl))) = Some LockX"
  have "key \<notin> set (sort (Keys tbl))" using mem_table.keys_rows [OF assms(2)] assms(3) by auto
  from scan_locks_insert_gap [OF sorted_sort this assms(4), of table] assms(6) obtain md' where
    md: "HeldSet_Get (helds st t1) (insert_gap table key (sort (Keys tbl))) = Some md'" "strength LockS \<le> strength md'" by fastforce
  have "mode_compat md' LockX"
    using held_compat [OF reachable_inv [OF assms(1)] _ _ assms(5)] md(1) x by (simp add: HeldSet_Get_def)
  then show False using scan_mode_excludes [OF md(2)] by simp
qed

text \<open>Transaction 1 has scanned the table with the keys a and c.\<close>

definition gap_table :: Table where
  "gap_table = PutRow (PutRow (NewTable ''t'' []) ''a'' (Some [])) ''c'' (Some [])"

definition gap_scanned :: lock_sys where
  "gap_scanned = fold (\<lambda>(r, md). acq 1 r md) (scan_locks ''t'' [] [] (sort (Keys gap_table))) NewAcquirer"

lemma gap_scan_locks:
  "scan_locks ''t'' [] [] (sort (Keys gap_table)) =
     [(ResourceForGap ''t'' [] ''a'', LockS), (ResourceForRow ''t'' ''a'', LockS),
      (ResourceForGap ''t'' ''a'' ''c'', LockS), (ResourceForRow ''t'' ''c'', LockS),
      (ResourceForGap ''t'' ''c'' gapInfinitySentinel, LockS)]"
  by code_simp

lemma gap_scanned_reachable: "lock_reachable gap_scanned Map.empty"
  unfolding gap_scanned_def gap_scan_locks
  by (simp, intro acq_step rtranclp.rtrancl_refl refl) code_simp+

theorem range_scan_excludes_insert_witness:
  "insert_gap ''t'' ''b'' (sort (Keys gap_table)) = ResourceForGap ''t'' ''a'' ''c'' \<and>
   HeldSet_Get (helds gap_scanned 2) (insert_gap ''t'' ''b'' (sort (Keys gap_table))) \<noteq> Some LockX"
proof -
  have held: "list_all (\<lambda>(r, md). HeldSet_Get (helds gap_scanned 1) r = Some md)
      (scan_locks ''t'' [] [] (sort (Keys gap_table)))"
    by code_simp
  have all: "\<forall>(r, md) \<in> set (scan_locks ''t'' [] [] (sort (Keys gap_table))).
      \<exists>md'. HeldSet_Get (helds gap_scanned 1) r = Some md' \<and> strength md \<le> strength md'"
    using held by (auto simp: list_all_iff)
  have ok: "rows_ok gap_table" "row_at gap_table ''b'' = None" "inRange [] [] ''b''"
    by (simp_all add: rows_ok_def row_at_def inRange_def gap_table_def PutRow_def NewTable_def)
  have "insert_gap ''t'' ''b'' (sort (Keys gap_table)) = ResourceForGap ''t'' ''a'' ''c''" by code_simp
  then show ?thesis using range_scan_excludes_insert [OF gap_scanned_reachable ok _ all, of 2] by simp
qed

end
