(* ===== verification/Two_PL_Iso.thy ===== *)
theory Two_PL_Iso
  imports Two_PL
begin

text \<open>
  What two-phase locking guarantees: rolling back to a savepoint or aborting restores the
  catalog, and a transaction that holds a lock on a row sees no change of it by others, whatever
  the interleaving of their calls.
\<close>

section \<open>Undo\<close>

text \<open>Two catalogs with the same tables and the same rows.\<close>

definition same_db :: "Catalog \<Rightarrow> Catalog \<Rightarrow> bool" where
  "same_db c c' \<longleftrightarrow> db c = db c' \<and> (\<forall>n. Lookup c n = None \<longleftrightarrow> Lookup c' n = None)"

lemma same_db_refl [simp]: "same_db c c"
  by (simp add: same_db_def)

lemma same_db_trans: "same_db c c' \<Longrightarrow> same_db c' c'' \<Longrightarrow> same_db c c''"
  by (simp add: same_db_def)

lemma row_at_simps [simp]:
  "row_at (PutRow t k v) = (row_at t)(k \<mapsto> v)" "row_at (snd (DeleteRow t k)) = (row_at t)(k := None)"
  by (auto simp: row_at_def PutRow_def DeleteRow_def fun_eq_iff gomap_simps)

text \<open>What undoing an entry does to the rows.\<close>

definition undo_row :: "UndoEntry \<Rightarrow> values option \<Rightarrow> values option" where
  "undo_row u v =
     (if u_Op u = UndoInsert then None else case BeforeImage u of None \<Rightarrow> v | Some b \<Rightarrow> Some (Some b))"

lemma undo_action_db:
  "db (undo_action u c) n k =
     (if n = u_Table u \<and> k = u_Key u \<and> Lookup c n \<noteq> None then undo_row u (db c n k) else db c n k)"
  "Lookup (undo_action u c) n = None \<longleftrightarrow> Lookup c n = None"
  by (auto simp: undo_action_def undo_row_def db_def split: option.splits UndoOpType.splits)

lemma undo_action_same: "same_db c c' \<Longrightarrow> same_db (undo_action u c) (undo_action u c')"
  unfolding same_db_def by (auto simp: undo_action_db fun_eq_iff)

lemma undo_all_same: "same_db c c' \<Longrightarrow> same_db (fold undo_action us c) (fold undo_action us c')"
  by (induction us arbitrary: c c') (auto intro: undo_action_same)

lemma undo_entries_loop_eq:
  "\<exists>w. snd (undo_entries_loop e i us l m) = m\<lparr>m_WAL := w, m_Catalog := fold undo_action us (m_Catalog m)\<rparr>"
proof (induction us arbitrary: l m)
  case Nil
  show ?case by (rule exI [of _ "m_WAL m"]) simp
next
  case (Cons u us)
  show ?case unfolding undo_entries_loop.simps Let_def case_prod_beta
    by (rule exE [OF Cons.IH], rule exI, erule trans, simp)
qed

text \<open>A write that fits the row: an insert of a row that is absent, an update or a delete of one that
  is present with values.\<close>

definition fits_row :: "UndoOpType \<Rightarrow> gostring \<Rightarrow> gostring \<Rightarrow> Catalog \<Rightarrow> bool" where
  "fits_row op table key c =
     (case db c table key of None \<Rightarrow> op = UndoInsert | Some v \<Rightarrow> op \<noteq> UndoInsert \<and> v \<noteq> None)"

text \<open>The undo log of a transaction, whatever its protocol.\<close>

definition log_of :: "Manager \<Rightarrow> txn_id \<Rightarrow> UndoLog" where
  "log_of m i = (case objs m i of None \<Rightarrow> [] | Some t \<Rightarrow> t_UndoLog t)"

lemma log_write_cases:
  assumes "log_write e i op table key b a m = Some (l, m')"
  obtains "m' = m" | w where "m' = upd_txn i (LastWALLSN_update (\<lambda>_. l)) (m\<lparr>m_WAL := w\<rparr>)"
  using assms by (auto simp: log_write_def Let_def split: if_splits option.splits prod.splits)

text \<open>What a transaction's own write changes of it.\<close>

definition same_txn :: "Transaction \<Rightarrow> Transaction \<Rightarrow> bool" where
  "same_txn t t' \<longleftrightarrow> t_ID t' = t_ID t \<and> t_Status t' = t_Status t \<and> t_Protocol t' = t_Protocol t \<and> t_Isolation t' = t_Isolation t \<and>
     Savepoints t' = Savepoints t"

lemma write_row_spec:
  assumes "write_row e i table key vals op m = (Inr r, m')" and "objs m i = Some t"
  obtains t' l where "objs m' = (objs m)(i \<mapsto> t')" and "same_txn t t'"
    and "t_UndoLog t' = t_UndoLog t @ [\<lparr>u_Op = op, u_Table = table, u_Key = key,
           BeforeImage = Option.bind (db (m_Catalog m) table key) id, WALWriteLSN = l\<rparr>]"
    and "db (m_Catalog m') = (db (m_Catalog m))(table := (db (m_Catalog m) table)(key := if op = UndoDelete then None else Some vals))"
    and "Lookup (m_Catalog m) table \<noteq> None" and "\<And>n. Lookup (m_Catalog m') n = None \<longleftrightarrow> Lookup (m_Catalog m) n = None"
    and "LockAcq m' = LockAcq m" and "nextID m' = nextID m" and "txns m' = txns m"
proof -
  from assms(1) obtain tbl l m1 where tbl: "Lookup (m_Catalog m) table = Some tbl"
    and log: "log_write e i op table key (Some (image_of (fst (GetRow tbl key)))) vals m = Some (l, m1)"
    and m': "m' = upd_txn i (addWrite key) ((upd_txn i (log_undo op table key (fst (GetRow tbl key)) l) m1)
      \<lparr>m_Catalog := store_table table (case op of UndoDelete \<Rightarrow> snd (DeleteRow tbl key) | _ \<Rightarrow> PutRow tbl key vals)
        (m_Catalog m1)\<rparr>)"
    by (auto simp: write_row_def Let_def split: option.splits)
  have before: "fst (GetRow tbl key) = Option.bind (db (m_Catalog m) table key) id"
    by (auto simp: GetRow_def db_def tbl row_at_def split: option.splits)
  obtain t1 where m1: "objs m1 = (objs m)(i \<mapsto> t1)" "same_txn t t1" "t_UndoLog t1 = t_UndoLog t" "m_Catalog m1 = m_Catalog m"
    "LockAcq m1 = LockAcq m" "nextID m1 = nextID m" "txns m1 = txns m"
    using log by (cases rule: log_write_cases) (use assms(2) in \<open>auto simp: same_txn_def fun_eq_iff\<close>)
  show thesis
  proof (rule that)
    show "objs m' = (objs m)(i \<mapsto> addWrite key (log_undo op table key (fst (GetRow tbl key)) l t1))" by (simp add: m' m1(1))
  qed (use m1 tbl in \<open>auto simp: m' before same_txn_def addWrite_def log_undo_def AppendWithLSN_def db_store fun_eq_iff
      db_def split: UndoOpType.splits\<close>)
qed

text \<open>Undoing the entry of a write that fitted its row gives the rows before the write.\<close>

lemma undo_write:
  assumes "fits_row op table key c" and "Lookup c table \<noteq> None"
    and "db c' = (db c)(table := (db c table)(key := new))" and "\<And>n. Lookup c' n = None \<longleftrightarrow> Lookup c n = None"
    and "u_Op u = op" "u_Table u = table" "u_Key u = key" "BeforeImage u = Option.bind (db c table key) id"
  shows "same_db (undo_action u c') c"
  using assms unfolding same_db_def by (auto simp: undo_action_db undo_row_def fits_row_def fun_eq_iff split: option.splits)

text \<open>A sequence of writes by one transaction under its locks, each of which succeeds and fits its row.\<close>

type_synonym write_op = "gostring \<times> gostring \<times> values \<times> UndoOpType"

fun write_all :: "env \<Rightarrow> txn_id \<Rightarrow> write_op list \<Rightarrow> Manager \<Rightarrow> Manager option" where
  "write_all e i [] m = Some m"
| "write_all e i ((table, key, vals, op) # ws) m =
     (if fits_row op table key (m_Catalog m)
      then case write_row e i table key vals op m of (Inr _, m') \<Rightarrow> write_all e i ws m' | _ \<Rightarrow> None
      else None)"

lemma write_all_spec:
  assumes "write_all e i ws m = Some m'" and "objs m i = Some t"
  shows "\<exists>t' us. objs m' = (objs m)(i \<mapsto> t') \<and> same_txn t t' \<and> t_UndoLog t' = t_UndoLog t @ us \<and>
    same_db (fold undo_action (rev us) (m_Catalog m')) (m_Catalog m) \<and> txns m' = txns m \<and> LockAcq m' = LockAcq m"
  using assms
proof (induction e i ws m arbitrary: t rule: write_all.induct)
  case (1 e i m)
  then show ?case by (auto simp: same_txn_def fun_eq_iff)
next
  case (2 e i table key vals op ws m)
  then obtain r m1 where fit: "fits_row op table key (m_Catalog m)" and w: "write_row e i table key vals op m = (Inr r, m1)"
    and rest: "write_all e i ws m1 = Some m'" by (auto split: if_splits prod.splits sum.splits)
  obtain t1 l where t1: "objs m1 = (objs m)(i \<mapsto> t1)" "same_txn t t1"
    "t_UndoLog t1 = t_UndoLog t @ [\<lparr>u_Op = op, u_Table = table, u_Key = key,
       BeforeImage = Option.bind (db (m_Catalog m) table key) id, WALWriteLSN = l\<rparr>]" (is "_ = _ @ [?u]")
    and c1: "db (m_Catalog m1) = (db (m_Catalog m))(table := (db (m_Catalog m) table)(key := if op = UndoDelete then None else Some vals))"
      "Lookup (m_Catalog m) table \<noteq> None" "\<And>n. Lookup (m_Catalog m1) n = None \<longleftrightarrow> Lookup (m_Catalog m) n = None"
    and same: "LockAcq m1 = LockAcq m" "txns m1 = txns m"
    using write_row_spec [OF w 2(3)] by metis
  obtain t' us where t': "objs m' = (objs m1)(i \<mapsto> t')" "same_txn t1 t'" "t_UndoLog t' = t_UndoLog t1 @ us"
    "same_db (fold undo_action (rev us) (m_Catalog m')) (m_Catalog m1)" "txns m' = txns m1" "LockAcq m' = LockAcq m1"
    using 2(1) [OF fit w [symmetric] refl rest, of t1] t1(1) by (metis fun_upd_same)
  have "same_db (undo_action ?u (fold undo_action (rev us) (m_Catalog m'))) (m_Catalog m)"
    using undo_action_same [OF t'(4), of ?u] undo_write [OF fit c1(2,1,3), of ?u] by (auto intro: same_db_trans)
  with t' t1 same show ?case by (intro exI [of _ t'] exI [of _ "?u # us"]) (auto simp: same_txn_def fun_eq_iff)
qed

text \<open>Undoing the newest entries of a log whose writes all fitted.\<close>

lemma applyUndoEntries_eq:
  "\<exists>w. snd (applyUndoEntries e us i m) = m\<lparr>m_WAL := w, m_Catalog := fold undo_action (rev us) (m_Catalog m)\<rparr>"
  unfolding applyUndoEntries_def by (rule undo_entries_loop_eq)

lemma GetTxn_objs: "GetTxn m i = Some t \<longleftrightarrow> i \<in> set (txns m) \<and> objs m i = Some t"
  by (auto simp: GetTxn_def)

text \<open>
  C17. Rolling a two-phase locking transaction back to a savepoint restores the database. After a
  savepoint is set and any sequence of writes is made, each of which inserts a row that is absent or
  updates or deletes a row that has values, \<^verbatim>\<open>RollbackToSavepoint\<close> succeeds, every table has again
  the rows it had when the savepoint was set, the undo log has again its old length, and every lock
  the transaction holds is kept.
\<close>

theorem RollbackToSavepoint_restores:
  assumes "GetTxn m i = Some t" and "t_Protocol t = Protocol2PL"
    and "CreateSavepoint i name m = (err1, m1)" and "write_all e i ws m1 = Some m2"
    and "RollbackToSavepoint e' i name m2 = (err, m3)"
  shows "err = None \<and> db (m_Catalog m3) = db (m_Catalog m) \<and> log_of m3 i = log_of m i \<and> LockAcq m3 = LockAcq m2"
proof -
  define sp where "sp = \<lparr>sp_Name = name, UndoPosition = UndoLog_Len (t_UndoLog t)\<rparr>"
  have active: "i \<in> set (txns m)" "objs m i = Some t" using assms(1) by (auto simp: GetTxn_objs)
  have m1: "m1 = upd_txn i (\<lambda>t. t\<lparr>Savepoints := Savepoints t @ [\<lparr>sp_Name = name, UndoPosition = UndoLog_Len (t_UndoLog t)\<rparr>]\<rparr>) m"
    using assms(1,3) by (simp add: CreateSavepoint_def)
  then have t1: "objs m1 i = Some (t\<lparr>Savepoints := Savepoints t @ [sp]\<rparr>)" using active by (simp add: sp_def)
  obtain t2 us where t2: "objs m2 = (objs m1)(i \<mapsto> t2)" "same_txn (t\<lparr>Savepoints := Savepoints t @ [sp]\<rparr>) t2"
    and us: "t_UndoLog t2 = t_UndoLog t @ us" "same_db (fold undo_action (rev us) (m_Catalog m2)) (m_Catalog m1)"
    and tx: "txns m2 = txns m1"
    using write_all_spec [OF assms(4) t1] by auto
  have get: "GetTxn m2 i = Some t2" using t2 tx active m1 by (simp add: GetTxn_objs)
  have find: "find (\<lambda>sp. sp_Name sp = name) (rev (Savepoints t2)) = Some sp"
    using t2(2) by (simp add: same_txn_def sp_def)
  have entries: "EntriesFrom (t_UndoLog t2) (UndoPosition sp) = us"
    "TruncateTo (t_UndoLog t2) (UndoPosition sp) = t_UndoLog t"
    using us(1) by (auto simp: EntriesFrom_def TruncateTo_def sp_def UndoLog_Len_def)
  obtain w where w: "snd (applyUndoEntries e' us i m2) = m2\<lparr>m_WAL := w, m_Catalog := fold undo_action (rev us) (m_Catalog m2)\<rparr>"
    using applyUndoEntries_eq by blast
  have "t_Protocol t2 = Protocol2PL" using t2(2) assms(2) by (simp add: same_txn_def)
  then have "err = None \<and> m3 = upd_txn i (\<lambda>t. t\<lparr>t_UndoLog := TruncateTo (t_UndoLog t) (UndoPosition sp)\<rparr>)
      (m2\<lparr>m_WAL := w, m_Catalog := fold undo_action (rev us) (m_Catalog m2)\<rparr>)"
    using assms(5) by (simp add: RollbackToSavepoint_def get find entries w Let_def)
  then show ?thesis using us(2) m1 t2 active entries by (simp add: same_db_def log_of_def)
qed

section \<open>Interleavings\<close>

text \<open>What a goroutine that serves a transaction is doing: nothing, running a call, or waiting in the
  lock manager with the rest of the call still to run.\<close>

datatype thread = Idle | Running call | Blocked wait_info call

type_synonym threads = "txn_id \<Rightarrow> thread"

definition pends_of :: "threads \<Rightarrow> pends" where
  "pends_of th i = (case th i of Blocked w c \<Rightarrow> Some w | _ \<Rightarrow> None)"

definition idle :: threads where
  "idle = (\<lambda>_. Idle)"

datatype tpl_op =
    OpRead gostring gostring
  | OpWrite env gostring gostring "values" UndoOpType
  | OpRangeScan gostring gostring gostring
  | OpLockInsert gostring gostring
  | OpScan gostring "(Row \<Rightarrow> bool) option"

fun call_of :: "Transaction \<Rightarrow> tpl_op \<Rightarrow> call" where
  "call_of t (OpRead table key) = TwoPLRead t table key"
| "call_of t (OpWrite e table key vals op) = TwoPLWrite e t table key vals op"
| "call_of t (OpRangeScan table lo hi) = LockForRangeScan table lo hi"
| "call_of t (OpLockInsert table key) = LockForInsert table key"
| "call_of t (OpScan table flt) = TwoPLScan t table flt"

text \<open>One step of transaction \<open>i\<close>. The sections between the lock requests are atomic, and so are a lock
  request up to the point where it waits, and \<^verbatim>\<open>Commit\<close> and \<^verbatim>\<open>Abort\<close>. A transaction may be ended by
  anyone at any time, also in the middle of one of its calls. A section that writes runs only while
  its transaction is active: the code does not check this, and \<open>write_after_abort\<close> shows what a section
  does that runs after its transaction was aborted.\<close>

inductive tpl_step :: "txn_id \<Rightarrow> Manager \<times> threads \<Rightarrow> Manager \<times> threads \<Rightarrow> bool" for i where
  begun: "nextID m < - 1 \<Longrightarrow> Begin e protocol isoLevel m = (Inr i, m') \<Longrightarrow> tpl_step i (m, th) (m', th)"
| called: "th i = Idle \<Longrightarrow> GetTxn m i = Some t \<Longrightarrow> tpl_step i (m, th) (m, th(i := Running (call_of t op)))"
| granted: "th i = Running (Lock r md c) \<Longrightarrow> wf_resource r \<Longrightarrow>
    AcquireLock_enter i r md (LockAcq m) = (qa, AcqOk, st) \<Longrightarrow>
    tpl_step i (m, th) (m\<lparr>LockAcq := st\<rparr>, th(i := Running c))"
| blocked: "th i = Running (Lock r md c) \<Longrightarrow> wf_resource r \<Longrightarrow>
    AcquireLock_enter i r md (LockAcq m) = (qa, AcqWait ch, st) \<Longrightarrow>
    tpl_step i (m, th) (m\<lparr>LockAcq := st\<rparr>, th(i := Blocked \<lparr>w_res = r, w_mode = md, w_queue = qa, w_ch = ch\<rparr> c))"
| woken: "th i = Blocked w c \<Longrightarrow> wk = WakeGranted \<longrightarrow> ch_closed (LockAcq m) (w_ch w) \<Longrightarrow>
    wait_finish wk (w_queue w) i (w_res w) (w_mode w) (LockAcq m) = Some (err, st) \<Longrightarrow>
    tpl_step i (m, th) (m\<lparr>LockAcq := st\<rparr>, th(i := Running (case err of None \<Rightarrow> c | Some x \<Rightarrow> fail x)))"
| ran: "th i = Running (Do f) \<Longrightarrow> f m = (c, m') \<Longrightarrow> GetTxn m i \<noteq> None \<or> m' = m \<Longrightarrow> tpl_step i (m, th) (m', th(i := Running c))"
| returned: "th i = Running (Return r) \<Longrightarrow> tpl_step i (m, th) (m, th(i := Idle))"
| committed: "Commit e i m = (err, m') \<Longrightarrow> tpl_step i (m, th) (m', th)"
| aborted: "Abort e i m = (err, m') \<Longrightarrow> tpl_step i (m, th) (m', th)"
| saved: "CreateSavepoint i name m = (err, m') \<Longrightarrow> tpl_step i (m, th) (m', th)"
| rolled_back: "RollbackToSavepoint e i name m = (err, m') \<Longrightarrow> tpl_step i (m, th) (m', th)"

inductive_cases tpl_stepE: "tpl_step i (m, th) (m', th')"

definition tpl_reachable :: "Manager \<Rightarrow> threads \<Rightarrow> bool" where
  "tpl_reachable m th \<longleftrightarrow> (\<exists>m0. objs m0 = Map.empty \<and> LockAcq m0 = NewAcquirer \<and>
     (\<lambda>s s'. \<exists>i. tpl_step i s s')\<^sup>*\<^sup>* (m0, idle) (m, th))"

text \<open>A section that belongs to \<open>i\<close> changes only rows that are exclusively locked, and logs nothing
  else for undo.\<close>

abbreviation undo_res :: "UndoEntry \<Rightarrow> ResourceID" where
  "undo_res u \<equiv> ResourceForRow (u_Table u) (u_Key u)"

definition own_write :: "txn_id \<Rightarrow> ResourceID set \<Rightarrow> Manager \<Rightarrow> Manager \<Rightarrow> bool" where
  "own_write i H m m' \<longleftrightarrow> (objs m i \<noteq> None \<longrightarrow>
     LockAcq m' = LockAcq m \<and> nextID m' = nextID m \<and> txns m' = txns m \<and>
     (\<exists>t t'. objs m i = Some t \<and> objs m' = (objs m)(i \<mapsto> t') \<and> same_txn t t' \<and>
        (\<forall>u \<in> set (t_UndoLog t'). u \<in> set (t_UndoLog t) \<or> undo_res u \<in> H)) \<and>
     (\<forall>n k. ResourceForRow n k \<notin> H \<longrightarrow> db (m_Catalog m') n k = db (m_Catalog m) n k))"

text \<open>Every section of the rest of a call is covered by the exclusive lock that the request before it
  was for.\<close>

inductive safe :: "txn_id \<Rightarrow> ResourceID set \<Rightarrow> call \<Rightarrow> bool" for i where
  safe_return: "safe i H (Return r)"
| safe_lock: "safe i (if md = LockX then {r} else {}) c \<Longrightarrow> safe i H (Lock r md c)"
| safe_do: "(\<And>m. t_ID (the (objs m i)) = i \<Longrightarrow> own_write i H m (snd (f m)) \<and> safe i H (fst (f m))) \<Longrightarrow> safe i H (Do f)"

inductive_simps safe_simps [simp]: "safe i H (Return r)" "safe i H (Lock r md c)"
inductive_cases safe_DoE: "safe i H (Do f)"

lemma own_write_refl [simp]: "own_write i H m m"
  by (auto simp: own_write_def same_txn_def fun_eq_iff)

lemma own_write_mono: "own_write i H m m' \<Longrightarrow> H \<subseteq> H' \<Longrightarrow> own_write i H' m m'"
  unfolding own_write_def by (auto, blast+)

lemma safe_mono: "safe i H c \<Longrightarrow> H \<subseteq> H' \<Longrightarrow> safe i H' c"
proof (induction arbitrary: H' rule: safe.induct)
  case (safe_do H f)
  show ?case
  proof (rule safe.safe_do, rule conjI)
    fix m :: Manager assume id: "t_ID (the (objs m i)) = i"
    show "own_write i H' m (snd (f m))" using safe_do.IH [OF id] own_write_mono safe_do.prems by blast
    show "safe i H' (fst (f m))" using safe_do.IH [OF id] safe_do.prems by blast
  qed
qed simp_all

lemma safe_with_table: "(\<And>t. safe i H (k t)) \<Longrightarrow> safe i H (with_table table k)"
  unfolding with_table_def by (rule safe_do) (auto simp: fail_def split: option.splits)

lemma safe_lock_all: "(\<And>H. safe i H k) \<Longrightarrow> safe i H (lock_all xs k)"
  by (induction xs arbitrary: H) auto

lemma safe_and_then: "safe i H c \<Longrightarrow> (\<And>H. safe i H k) \<Longrightarrow> safe i H (and_then c k)"
proof (induction rule: safe.induct)
  case (safe_do H f)
  then show ?case by (auto intro!: safe.safe_do)
qed (auto split: sum.splits)

lemma write_row_own: "t_ID (the (objs m i)) = i \<Longrightarrow>
    own_write i {ResourceForRow table key} m (snd (write_row e i table key vals op m))"
proof (cases "write_row e i table key vals op m")
  case (Pair r m')
  show ?thesis
  proof (cases r)
    case (Inl err)
    then have "m' = m" using Pair by (auto simp: write_row_def Let_def split: option.splits prod.splits)
    then show ?thesis using Pair by simp
  next
    case (Inr x)
    show ?thesis
    proof (cases "objs m i")
      case (Some t)
      show ?thesis using write_row_spec [OF Pair [unfolded Inr] Some] Some
        by (rule, auto simp: own_write_def Pair ResourceForRow_def)
    qed (simp add: own_write_def)
  qed
qed

lemma TwoPLWrite_safe: "t_ID t = i \<Longrightarrow> safe i H (TwoPLWrite e t table key vals op)"
  by (auto simp: TwoPLWrite_def write_row_own intro!: safe_do)

lemma LockForRangeScan_safe: "safe i H (LockForRangeScan table lo hi)"
  unfolding LockForRangeScan_def by (auto intro!: safe_with_table safe_lock_all)

lemma call_of_safe: "t_ID t = i \<Longrightarrow> safe i H (call_of t op)"
proof (cases op)
  case (OpRead table key)
  have "safe i H (with_table table (\<lambda>tbl. let (v, ok) = GetRow tbl key in Return (Inr (Found v ok))))" for H
    by (rule safe_with_table) (simp add: Let_def split: prod.splits)
  then show ?thesis using OpRead by (simp add: TwoPLRead_def safe_lock_all)
next
  case (OpLockInsert table key)
  show ?thesis unfolding OpLockInsert call_of.simps LockForInsert_def
    by (auto simp: fail_def intro!: safe_with_table)
next
  case (OpScan table flt)
  have "safe i H (with_table table (\<lambda>tbl. Return (Inr (RowList (Scan tbl flt)))))" for H
    by (rule safe_with_table) simp
  then show ?thesis using OpScan
    by (auto simp: TwoPLScan_def Let_def LockForRangeScan_safe split: IsolationLevel.splits intro: safe_and_then)
qed (simp_all add: TwoPLWrite_safe LockForRangeScan_safe)

section \<open>Frames of the lock manager\<close>

lemma acquire_frame:
  assumes "AcquireLock_enter i r md st = (qa, out, st')"
  shows "j \<noteq> i \<Longrightarrow> helds st' j = helds st j" and "held st i r' = Some LockX \<Longrightarrow> held st' i r' = Some LockX"
    and "out = AcqOk \<Longrightarrow> md = LockX \<Longrightarrow> held st' i r = Some LockX"
proof -
  obtain st0 where create: "GetOrCreate st r = (qa, st0)" and sec: "acquire_section qa i r md st0 = (out, st')"
    using assms by (auto simp: AcquireLock_enter_def split: prod.splits)
  have h0: "helds st0 = helds st" using GetOrCreate_get [OF create] by simp
  have top: "strength md \<le> strength LockX" by (cases md) simp_all
  have eqX: "strength LockX \<le> strength e \<Longrightarrow> e = LockX" for e by (cases e) simp_all
  show "j \<noteq> i \<Longrightarrow> helds st' j = helds st j"
    using sec by (auto simp: acquire_section_def Let_def h0 [symmetric] split: if_splits option.splits)
  show "held st i r' = Some LockX \<Longrightarrow> held st' i r' = Some LockX"
    using sec top by (auto simp: acquire_section_def Let_def HeldSet_Get_def h0 [symmetric] gomap_simps HeldSet_Set_def
        HeldSet_Delete_def not_le split: if_splits option.splits)
  show "out = AcqOk \<Longrightarrow> md = LockX \<Longrightarrow> held st' i r = Some LockX"
    using sec eqX by (auto simp: acquire_section_def Let_def HeldSet_Get_def h0 [symmetric] gomap_simps HeldSet_Set_def
        split: if_splits option.splits)
qed

lemma wait_finish_frame:
  assumes "wait_finish wk qa i r md st = Some (err, st')"
  shows "j \<noteq> i \<Longrightarrow> helds st' j = helds st j"
    and "held st i r' = Some LockX \<Longrightarrow> r' \<noteq> r \<Longrightarrow> held st' i r' = Some LockX" and "err = None \<Longrightarrow> held st' i r = Some md"
  using assms by (auto simp: wait_finish_def wait_granted_def wait_cancel_def HeldSet_Set_def gomap_simps split: wakeup.splits)

section \<open>Frames of the operations that end or roll back a transaction\<close>

lemma undo_frame: "\<forall>u \<in> set us. \<not> (u_Table u = n \<and> u_Key u = k) \<Longrightarrow> db (fold undo_action us c) n k = db c n k"
  by (induction us arbitrary: c) (auto simp: undo_action_db)

text \<open>The rows that a transaction with two-phase locking can still roll back.\<close>

definition may_undo :: "Manager \<Rightarrow> txn_id \<Rightarrow> UndoEntry set" where
  "may_undo m i =
     (case GetTxn m i of None \<Rightarrow> {} | Some t \<Rightarrow> if t_Protocol t = Protocol2PL then set (t_UndoLog t) else {})"

definition ended_by :: "txn_id \<Rightarrow> pends \<Rightarrow> Manager \<Rightarrow> Manager \<Rightarrow> bool" where
  "ended_by i pend m m' \<longleftrightarrow> nextID m' = nextID m \<and> set (txns m') = set (txns m) - {i} \<and>
     objs m i \<noteq> None \<and> objs m' i \<noteq> None \<and> (\<forall>j. j \<noteq> i \<longrightarrow> objs m' j = objs m j) \<and> ids_ok m' \<and>
     lock_inv (LockAcq m') pend \<and> (\<forall>j. j \<noteq> i \<longrightarrow> helds (LockAcq m') j = helds (LockAcq m) j) \<and>
     (\<forall>n k. (\<forall>u \<in> may_undo m i. \<not> (u_Table u = n \<and> u_Key u = k)) \<longrightarrow> db (m_Catalog m') n k = db (m_Catalog m) n k)"

lemma release_locks_frame:
  assumes "lock_inv (LockAcq m) pend"
  obtains st where "release_locks i m = (None, m\<lparr>LockAcq := st\<rparr>)" and "lock_inv st pend"
    and "\<And>r. held st i r = None" and "\<And>j. j \<noteq> i \<Longrightarrow> helds st j = helds (LockAcq m) j"
proof -
  obtain st where st: "ReleaseAllLocks i (LockAcq m) = Some st" "lock_inv st pend" "\<And>r. held st i r = None"
    "\<And>j. j \<noteq> i \<Longrightarrow> helds st j = helds (LockAcq m) j"
    using inv_ReleaseAllLocks [OF assms, of i] by blast
  from st(1) have "release_locks i m = (None, m\<lparr>LockAcq := st\<rparr>)" by (simp add: release_locks_def)
  from that [OF this st(2-4)] show thesis .
qed

lemma end_txn_frame:
  "objs (end_txn i s m) = (objs m)(i := map_option (setStatus s) (objs m i))" "txns (end_txn i s m) = removeAll i (txns m)"
  "nextID (end_txn i s m) = nextID m" "LockAcq (end_txn i s m) = LockAcq m" "m_Catalog (end_txn i s m) = m_Catalog m"
  by (simp_all add: end_txn_def Let_def)

lemma applyMVCCUndo_frame:
  "objs (applyMVCCUndo e t m) = objs m" "txns (applyMVCCUndo e t m) = txns m" "nextID (applyMVCCUndo e t m) = nextID m"
  "LockAcq (applyMVCCUndo e t m) = LockAcq m" "m_Catalog (applyMVCCUndo e t m) = m_Catalog m"
  by (simp_all add: applyMVCCUndo_def Let_def)

lemmas end_frames = end_txn_frame applyMVCCUndo_frame setStatus_def closeAbort_def ended_by_def ids_ok_def

lemma Abort_2pl:
  assumes "GetTxn m i = Some t" and "GetStatus t = TxnActive" and "t_Protocol t = Protocol2PL" and "lock_inv (LockAcq m) pend"
  obtains st w a m' where "Abort e i m = (None, m')" and "m_Catalog m' = fold undo_action (rev (t_UndoLog t)) (m_Catalog m)"
    and "objs m' = (objs m)(i \<mapsto> t\<lparr>t_Status := TxnAborted, abort_closed := True\<rparr>)" and "txns m' = removeAll i (txns m)"
    and "nextID m' = nextID m" and "lock_inv (LockAcq m') pend" and "\<And>r. held (LockAcq m') i r = None"
    and "\<And>j. j \<noteq> i \<Longrightarrow> helds (LockAcq m') j = helds (LockAcq m) j"
proof -
  define m1 where "m1 = upd_txn i closeAbort (end_txn i TxnAborted m)"
  obtain w where w: "snd (applyUndoLog e t m1) = m1\<lparr>m_WAL := w, m_Catalog := fold undo_action (rev (t_UndoLog t)) (m_Catalog m1)\<rparr>"
    using applyUndoEntries_eq unfolding applyUndoLog_def UndoLog_All_def by blast
  have "lock_inv (LockAcq (snd (applyUndoLog e t m1))) pend" using assms(4) unfolding w by (simp add: m1_def end_txn_frame)
  from release_locks_frame [OF this, of i] obtain st where st:
    "release_locks i (snd (applyUndoLog e t m1)) = (None, snd (applyUndoLog e t m1)\<lparr>LockAcq := st\<rparr>)"
    "lock_inv st pend" "\<And>r. held st i r = None" "\<And>j. j \<noteq> i \<Longrightarrow> helds st j = helds (LockAcq m) j"
    unfolding w by (auto simp: m1_def end_txn_frame)
  obtain prev where "Abort e i m = (None, (snd (applyUndoLog e t m1)\<lparr>LockAcq := st\<rparr>)
      \<lparr>m_WAL := snd (writer_Abort e i prev (m_WAL (snd (applyUndoLog e t m1))))\<rparr>)"
    using assms(1-3) st(1) by (simp add: Abort_def m1_def [symmetric] Let_def case_prod_beta)
  then show thesis
    by (rule that) (use st assms(1) in \<open>auto simp: w end_frames GetTxn_objs, auto simp: m1_def end_frames\<close>)
qed

lemma Abort_frame:
  assumes "lock_inv (LockAcq m) pend" and "ids_ok m" and "Abort e i m = (err, m')"
  shows "m' = m \<or> ended_by i pend m m'"
proof (cases "\<exists>t. GetTxn m i = Some t \<and> GetStatus t = TxnActive")
  case True
  then obtain t where t: "GetTxn m i = Some t" "GetStatus t = TxnActive" by blast
  then have obj: "objs m i = Some t" by (simp add: GetTxn_objs)
  show ?thesis
  proof (cases "t_Protocol t")
    case Protocol2PL
    have undo: "db (fold undo_action (rev (t_UndoLog t)) c) n k = db c n k"
      if "\<forall>u \<in> may_undo m i. \<not> (u_Table u = n \<and> u_Key u = k)" for c n k
      using that by (intro undo_frame) (simp add: may_undo_def t Protocol2PL)
    from Abort_2pl [OF t Protocol2PL assms(1), of e] have "ended_by i pend m (snd (Abort e i m))"
      by (rule) (use assms(2) obj undo in \<open>auto simp: ended_by_def ids_ok_def split: if_splits\<close>)
    then show ?thesis using assms(3) by simp
  next
    case ProtocolMVCC
    with t assms(2,3) obj assms(1) show ?thesis by (auto simp: Abort_def Let_def end_frames split: if_splits)
  qed
next
  case False
  then show ?thesis using assms(3) by (auto simp: Abort_def split: option.splits)
qed

lemma Commit_frame:
  assumes "lock_inv (LockAcq m) pend" and "ids_ok m" and "Commit e i m = (err, m')"
  shows "m' = m \<or> ended_by i pend m m'"
proof (cases "\<exists>t. GetTxn m i = Some t \<and> GetStatus t = TxnActive")
  case True
  then obtain t where t: "GetTxn m i = Some t" "GetStatus t = TxnActive" by blast
  then have obj: "objs m i = Some t" by (simp add: GetTxn_objs)
  show ?thesis
  proof (cases "t_Protocol t = ProtocolMVCC \<and> t_Isolation t = Serializable \<and> CheckCommit (m_SSITracker m) i")
    case True
    with t assms obj show ?thesis by (auto simp: Commit_def commit_ssi_abort_def Let_def end_frames split: if_splits)
  next
    case False
    then have fin: "commit_finish e i t m = (err, m')" using t assms(3) by (auto simp: Commit_def split: if_splits)
    show ?thesis
    proof (cases "writer_Commit e i (LastWALLSN t) (m_WAL m)")
      case None
      then show ?thesis using fin by (simp add: commit_finish_def)
    next
      case (Some w)
      define m1 where "m1 = end_txn i TxnCommitted (m\<lparr>m_WAL := w\<rparr>)"
      define m2 where "m2 = (if t_Protocol t = ProtocolMVCC \<and> t_Isolation t = Serializable
        then m1\<lparr>m_SSITracker := Cleanup (m_SSITracker m1) i\<rparr> else m1)"
      have m2: "ended_by i pend m m2" using assms(1,2) obj by (auto simp: m2_def m1_def end_frames split: if_splits)
      then have "lock_inv (LockAcq m2) pend" by (simp add: ended_by_def)
      from release_locks_frame [OF this, of i] obtain st where st:
        "release_locks i m2 = (None, m2\<lparr>LockAcq := st\<rparr>)" "lock_inv st pend"
        "\<And>j. j \<noteq> i \<Longrightarrow> helds st j = helds (LockAcq m2) j" by metis
      have "commit_finish e i t m = (if t_Protocol t = Protocol2PL then release_locks i m2 else (None, m2))"
        by (simp add: commit_finish_def Some Let_def m2_def m1_def)
      then have "m' = (if t_Protocol t = Protocol2PL then m2\<lparr>LockAcq := st\<rparr> else m2)"
        using fin st(1) by (auto split: if_splits)
      with m2 st show ?thesis by (auto simp: ended_by_def ids_ok_def split: if_splits)
    qed
  qed
next
  case False
  then show ?thesis using assms(3) by (auto simp: Commit_def split: option.splits if_splits)
qed

section \<open>The invariant of two-phase locking\<close>

definition thread_ok :: "Manager \<Rightarrow> txn_id \<Rightarrow> thread \<Rightarrow> bool" where
  "thread_ok m i x =
     (case x of
        Idle \<Rightarrow> True
      | Running c \<Rightarrow> objs m i \<noteq> None \<and> (\<exists>H. safe i H c \<and> (i \<in> set (txns m) \<longrightarrow> (\<forall>r \<in> H. held (LockAcq m) i r = Some LockX)))
      | Blocked w c \<Rightarrow> objs m i \<noteq> None \<and> safe i (if w_mode w = LockX then {w_res w} else {}) c)"

definition tpl_inv :: "Manager \<Rightarrow> threads \<Rightarrow> bool" where
  "tpl_inv m th \<longleftrightarrow> lock_inv (LockAcq m) (pends_of th) \<and> ids_ok m \<and>
     (\<forall>i. objs m i \<noteq> None \<longrightarrow> i \<le> nextID m) \<and>
     (\<forall>i. nextID m < i \<longrightarrow> helds (LockAcq m) i = [] \<and> th i = Idle) \<and>
     (\<forall>i. \<forall>u \<in> may_undo m i. held (LockAcq m) i (undo_res u) = Some LockX) \<and>
     (\<forall>i. thread_ok m i (th i))"

lemma tpl_invD:
  assumes "tpl_inv m th"
  shows "lock_inv (LockAcq m) (pends_of th)" and "ids_ok m" and "objs m i \<noteq> None \<Longrightarrow> i \<le> nextID m"
    and "nextID m < i \<Longrightarrow> helds (LockAcq m) i = [] \<and> th i = Idle"
    and "u \<in> may_undo m i \<Longrightarrow> held (LockAcq m) i (undo_res u) = Some LockX" and "thread_ok m i (th i)"
  using assms by (auto simp: tpl_inv_def)

text \<open>What a step of \<open>i\<close> leaves alone: the locks and the thread of everyone else, and the rows that \<open>i\<close>
  does not hold exclusively.\<close>

definition step_frame :: "txn_id \<Rightarrow> Manager \<times> threads \<Rightarrow> Manager \<times> threads \<Rightarrow> bool" where
  "step_frame i s s' \<longleftrightarrow> (case (s, s') of ((m, th), (m', th')) \<Rightarrow>
     (\<forall>j. j \<noteq> i \<longrightarrow> helds (LockAcq m') j = helds (LockAcq m) j \<and> th' j = th j \<and> objs m' j = objs m j \<and>
        (j \<in> set (txns m') \<longleftrightarrow> j \<in> set (txns m))) \<and> nextID m \<le> nextID m' \<and>
     (\<forall>n k. held (LockAcq m) i (ResourceForRow n k) \<noteq> Some LockX \<longrightarrow> db (m_Catalog m') n k = db (m_Catalog m) n k))"

text \<open>So a step keeps the invariant if it keeps what the invariant says of \<open>i\<close>.\<close>

lemma tpl_inv_step:
  assumes inv: "tpl_inv m th" and frame: "step_frame i (m, th) (m', th')"
    and "lock_inv (LockAcq m') (pends_of th')" and "ids_ok m'"
    and "objs m' i \<noteq> None \<Longrightarrow> i \<le> nextID m'" and "nextID m' < i \<Longrightarrow> helds (LockAcq m') i = [] \<and> th' i = Idle"
    and "\<And>u. u \<in> may_undo m' i \<Longrightarrow> held (LockAcq m') i (undo_res u) = Some LockX" and "thread_ok m' i (th' i)"
  shows "tpl_inv m' th'"
proof -
  have same: "helds (LockAcq m') j = helds (LockAcq m) j" "th' j = th j" "objs m' j = objs m j"
    "j \<in> set (txns m') \<longleftrightarrow> j \<in> set (txns m)" if "j \<noteq> i" for j
    using frame that by (auto simp: step_frame_def)
  have next_le: "nextID m \<le> nextID m'" using frame by (simp add: step_frame_def)
  have undo: "may_undo m' j = may_undo m j" if "j \<noteq> i" for j
    using same [OF that] by (simp add: may_undo_def GetTxn_def)
  have thr: "thread_ok m' j (th' j)" if "j \<noteq> i" for j
    using tpl_invD(6) [OF inv, of j] same [OF that] by (auto simp: thread_ok_def split: thread.splits)
  have "objs m' j \<noteq> None \<longrightarrow> j \<le> nextID m'" for j
    using assms(5) tpl_invD(3) [OF inv, of j] same [of j] next_le by (cases "j = i") (auto intro: order_trans)
  moreover have "nextID m' < j \<longrightarrow> helds (LockAcq m') j = [] \<and> th' j = Idle" for j
    using assms(6) tpl_invD(4) [OF inv, of j] same [of j] next_le by (cases "j = i") (auto intro: order.strict_trans1)
  moreover have "\<forall>u \<in> may_undo m' j. held (LockAcq m') j (undo_res u) = Some LockX" for j
    using assms(7) tpl_invD(5) [OF inv, of _ j] same [of j] undo [of j] by (cases "j = i") auto
  moreover have "thread_ok m' j (th' j)" for j using assms(8) thr [of j] by (cases "j = i") auto
  ultimately show ?thesis using assms(3,4) by (simp add: tpl_inv_def)
qed

lemma pends_of_upd:
  "pends_of (th(i := x)) = (pends_of th)(i := (case x of Blocked w c \<Rightarrow> Some w | _ \<Rightarrow> None))"
  by (auto simp: pends_of_def fun_eq_iff)

lemma pends_of_id: "pends_of th i = None \<Longrightarrow> (pends_of th)(i := None) = pends_of th"
  by (auto simp: fun_eq_iff)

lemma enter_txn_frame:
  "\<exists>t. objs (enter_txn e i protocol isoLevel m) = (objs m)(i \<mapsto> t) \<and> t_ID t = i \<and> t_UndoLog t = []"
  "LockAcq (enter_txn e i protocol isoLevel m) = set_held (LockAcq m) i NewHeldSet"
  "m_Catalog (enter_txn e i protocol isoLevel m) = m_Catalog m" "nextID (enter_txn e i protocol isoLevel m) = nextID m"
  "txns (enter_txn e i protocol isoLevel m) = List.insert i (txns m)"
proof -
  show "\<exists>t. objs (enter_txn e i protocol isoLevel m) = (objs m)(i \<mapsto> t) \<and> t_ID t = i \<and> t_UndoLog t = []"
    by (rule exI [of _ "the (objs (enter_txn e i protocol isoLevel m) i)"])
       (simp add: enter_txn_def Let_def case_prod_beta NewTransaction_def NewUndoLog_def split: option.split)
qed (simp_all add: enter_txn_def Let_def split: prod.splits)

lemma step_begun:
  assumes inv: "tpl_inv m th" and "nextID m < - 1" and run: "Begin e protocol isoLevel m = (Inr i, m')"
  shows "step_frame i (m, th) (m', th) \<and> tpl_inv m' th"
proof -
  have i: "i = nextID m + 1" and m': "m' = enter_txn e i protocol isoLevel (m\<lparr>nextID := i\<rparr>)"
    using run by (auto simp: Begin_def nextTxnID_def Let_def split: if_splits)
  have lt: "nextID m < i" using assms(2) i by (simp add: word_less_Suc)
  then have free: "helds (LockAcq m) i = []" "th i = Idle" using tpl_invD(4) [OF inv] by auto
  then have locks: "set_held (LockAcq m) i NewHeldSet = LockAcq m"
    by (simp add: set_held_def NewHeldSet_def fun_upd_idem)
  obtain t where t: "objs m' = (objs m)(i \<mapsto> t)" "t_ID t = i" "t_UndoLog t = []"
    and rest: "LockAcq m' = LockAcq m" "m_Catalog m' = m_Catalog m" "nextID m' = i" "txns m' = List.insert i (txns m)"
    using enter_txn_frame(1) [of e i protocol isoLevel "m\<lparr>nextID := i\<rparr>"]
    by (auto simp: m' enter_txn_frame(2-) locks)
  have frame: "step_frame i (m, th) (m', th)" using t rest lt by (auto simp: step_frame_def)
  moreover have "tpl_inv m' th"
    by (rule tpl_inv_step [OF inv frame])
       (use tpl_invD(1,2) [OF inv] t rest free in \<open>auto simp: ids_ok_def may_undo_def GetTxn_def thread_ok_def split: if_splits\<close>)
  ultimately show ?thesis by simp
qed

lemma step_called:
  assumes inv: "tpl_inv m th" and "th i = Idle" and "GetTxn m i = Some t"
  shows "step_frame i (m, th) (m, th(i := Running (call_of t op))) \<and> tpl_inv m (th(i := Running (call_of t op)))"
proof -
  have obj: "objs m i = Some t" using assms(3) by (simp add: GetTxn_objs)
  then have "t_ID t = i" using tpl_invD(2) [OF inv] by (simp add: ids_ok_def)
  then have thr: "thread_ok m i (Running (call_of t op))"
    using call_of_safe [of t i "{}" op] obj by (auto simp: thread_ok_def)
  have pend: "pends_of th i = None" using assms(2) by (simp add: pends_of_def)
  have frame: "step_frame i (m, th) (m, th(i := Running (call_of t op)))" by (auto simp: step_frame_def)
  moreover have "tpl_inv m (th(i := Running (call_of t op)))"
    by (rule tpl_inv_step [OF inv frame])
       (use tpl_invD(1-5) [OF inv] obj thr pend in \<open>auto simp: pends_of_upd pends_of_id not_less dest: leD\<close>)
  ultimately show ?thesis by simp
qed

lemma thread_ok_lock:
  assumes "objs m i \<noteq> None" and "safe i (if md = LockX then {r} else {}) c" and "md = LockX \<Longrightarrow> held (LockAcq m) i r = Some LockX"
  shows "thread_ok m i (Running c)"
  using assms unfolding thread_ok_def
  by (simp, intro exI [of _ "if md = LockX then {r} else {}"]) auto

lemma thread_ok_return: "objs m i \<noteq> None \<Longrightarrow> thread_ok m i (Running (Return r))"
  by (auto simp: thread_ok_def)

lemma step_locked:
  assumes inv: "tpl_inv m th" and run: "th i = Running (Lock r md c)" and wf: "wf_resource r"
    and acq: "AcquireLock_enter i r md (LockAcq m) = (qa, out, st)"
    and th': "th' = th(i := (case out of AcqOk \<Rightarrow> Running c
      | AcqWait ch \<Rightarrow> Blocked \<lparr>w_res = r, w_mode = md, w_queue = qa, w_ch = ch\<rparr> c))"
  shows "step_frame i (m, th) (m\<lparr>LockAcq := st\<rparr>, th') \<and> tpl_inv (m\<lparr>LockAcq := st\<rparr>) th'"
proof -
  have pend: "pends_of th i = None" using run by (simp add: pends_of_def)
  have obj: "objs m i \<noteq> None" and safe: "safe i (if md = LockX then {r} else {}) c"
    using tpl_invD(6) [OF inv, of i] by (auto simp: run thread_ok_def)
  note fr = acquire_frame [OF acq]
  have linv: "lock_inv st (pends_of th')"
    using inv_acquire [OF tpl_invD(1) [OF inv] wf pend acq] pend
    by (auto simp: th' pends_of_upd pends_of_id split: acquire_outcome.splits)
  have thr: "thread_ok (m\<lparr>LockAcq := st\<rparr>) i (th' i)"
    using thread_ok_lock [OF _ safe, of "m\<lparr>LockAcq := st\<rparr>"] obj safe fr(3)
    by (cases out) (simp_all add: th' thread_ok_def split: if_splits)
  have frame: "step_frame i (m, th) (m\<lparr>LockAcq := st\<rparr>, th')" using fr(1) by (simp add: step_frame_def th')
  moreover have "tpl_inv (m\<lparr>LockAcq := st\<rparr>) th'"
    by (rule tpl_inv_step [OF inv frame])
       (use tpl_invD(2-5) [OF inv] obj thr linv fr(2) in
          \<open>auto simp: ids_ok_def not_less may_undo_def GetTxn_def dest: leD split: if_splits option.splits\<close>)
  ultimately show ?thesis by simp
qed

lemma step_woken:
  assumes inv: "tpl_inv m th" and run: "th i = Blocked w c" and wk: "wk = WakeGranted \<longrightarrow> ch_closed (LockAcq m) (w_ch w)"
    and fin: "wait_finish wk (w_queue w) i (w_res w) (w_mode w) (LockAcq m) = Some (err, st)"
    and th': "th' = th(i := Running (case err of None \<Rightarrow> c | Some x \<Rightarrow> fail x))"
  shows "step_frame i (m, th) (m\<lparr>LockAcq := st\<rparr>, th') \<and> tpl_inv (m\<lparr>LockAcq := st\<rparr>) th'"
proof -
  have pend: "pends_of th i = Some w" using run by (simp add: pends_of_def)
  have obj: "objs m i \<noteq> None" and safe: "safe i (if w_mode w = LockX then {w_res w} else {}) c"
    using tpl_invD(6) [OF inv, of i] by (auto simp: run thread_ok_def)
  note fr = wait_finish_frame [OF fin]
  have "lock_step (LockAcq m, pends_of th) (st, (pends_of th)(i := None))"
    using pend wk fin by (rule lock_step.woken [where pend = "pends_of th"])
  then have linv: "lock_inv st (pends_of th')"
    using inv_step tpl_invD(1) [OF inv] by (simp add: th' pends_of_upd)
  have free: "held (LockAcq m) i (w_res w) = None"
    using inv_pend [OF tpl_invD(1) [OF inv] pend] by (simp add: pend_ok_def)
  have thr: "thread_ok (m\<lparr>LockAcq := st\<rparr>) i (th' i)"
    using thread_ok_lock [OF _ safe, of "m\<lparr>LockAcq := st\<rparr>"] thread_ok_return obj fr(3)
    by (cases err) (simp_all add: th' fail_def)
  have frame: "step_frame i (m, th) (m\<lparr>LockAcq := st\<rparr>, th')" using fr(1) by (simp add: step_frame_def th')
  have keep: "held st i r' = Some LockX" if "held (LockAcq m) i r' = Some LockX" for r'
    using fr(2) [OF that] that free by (cases "r' = w_res w") simp_all
  have "tpl_inv (m\<lparr>LockAcq := st\<rparr>) th'"
    by (rule tpl_inv_step [OF inv frame])
       (use tpl_invD(2-5) [OF inv] obj thr linv keep in
          \<open>auto simp: ids_ok_def not_less may_undo_def GetTxn_def dest: leD split: if_splits option.splits\<close>)
  with frame show ?thesis by simp
qed

lemma step_ran:
  assumes inv: "tpl_inv m th" and run: "th i = Running (Do f)" and f: "f m = (c, m')" and act: "GetTxn m i = Some t"
  shows "step_frame i (m, th) (m', th(i := Running c)) \<and> tpl_inv m' (th(i := Running c))"
proof -
  have pend: "pends_of th i = None" using run by (simp add: pends_of_def)
  have obj: "objs m i = Some t" and "i \<in> set (txns m)" using act by (auto simp: GetTxn_def split: if_splits)
  then obtain H where safe: "safe i H (Do f)" and H: "\<forall>r \<in> H. held (LockAcq m) i r = Some LockX"
    using tpl_invD(6) [OF inv, of i] by (auto simp: run thread_ok_def)
  have id: "t_ID (the (objs m i)) = i" using tpl_invD(2) [OF inv] obj by (simp add: ids_ok_def)
  have own: "own_write i H m m'" and c: "safe i H c" using safe_DoE [OF safe] id f by (metis fst_conv snd_conv)+
  obtain t' where m': "LockAcq m' = LockAcq m" "nextID m' = nextID m" "txns m' = txns m" "objs m' = (objs m)(i \<mapsto> t')"
    "same_txn t t'" "\<And>u. u \<in> set (t_UndoLog t') \<Longrightarrow> u \<in> set (t_UndoLog t) \<or> undo_res u \<in> H"
    "\<And>n k. ResourceForRow n k \<notin> H \<Longrightarrow> db (m_Catalog m') n k = db (m_Catalog m) n k"
    using own obj unfolding own_write_def by auto
  have frame: "step_frame i (m, th) (m', th(i := Running c))" using m' H by (fastforce simp: step_frame_def)
  have thr: "thread_ok m' i (Running c)" using c H m' by (auto simp: thread_ok_def)
  have undo: "held (LockAcq m') i (undo_res u) = Some LockX" if "u \<in> may_undo m' i" for u
    using that tpl_invD(5) [OF inv, of u i] m'(1,3,4,5) m'(6) [of u] H obj
    by (auto simp: may_undo_def GetTxn_def same_txn_def split: if_splits)
  have "tpl_inv m' (th(i := Running c))"
  proof (rule tpl_inv_step [OF inv frame])
    show "ids_ok m'" using tpl_invD(2) [OF inv] m'(4,5) obj by (auto simp: ids_ok_def same_txn_def)
    show "lock_inv (LockAcq m') (pends_of (th(i := Running c)))"
      using tpl_invD(1) [OF inv] pend by (simp add: m' pends_of_upd pends_of_id)
    show "i \<le> nextID m'" using tpl_invD(3) [OF inv, of i] obj by (simp add: m')
    then show "nextID m' < i \<Longrightarrow> helds (LockAcq m') i = [] \<and> (th(i := Running c)) i = Idle" by simp
  qed (use undo thr in auto)
  with frame show ?thesis by simp
qed

lemma step_ran_ended:
  assumes inv: "tpl_inv m th" and run: "th i = Running (Do f)" and f: "f m = (c, m)" and ended: "GetTxn m i = None"
  shows "step_frame i (m, th) (m, th(i := Running c)) \<and> tpl_inv m (th(i := Running c))"
proof -
  have pend: "pends_of th i = None" using run by (simp add: pends_of_def)
  obtain H where obj: "objs m i \<noteq> None" and safe: "safe i H (Do f)"
    using tpl_invD(6) [OF inv, of i] by (auto simp: run thread_ok_def)
  have "t_ID (the (objs m i)) = i" using tpl_invD(2) [OF inv] obj by (auto simp: ids_ok_def)
  with safe_DoE [OF safe] f have "safe i H c" by (metis fst_conv)
  moreover have "i \<notin> set (txns m)" using ended obj by (simp add: GetTxn_def split: if_splits)
  ultimately have thr: "thread_ok m i (Running c)" using obj by (auto simp: thread_ok_def)
  have frame: "step_frame i (m, th) (m, th(i := Running c))" by (auto simp: step_frame_def)
  moreover have "tpl_inv m (th(i := Running c))"
    by (rule tpl_inv_step [OF inv frame])
       (use tpl_invD(1-5) [OF inv] obj thr pend in \<open>auto simp: pends_of_upd pends_of_id not_less dest: leD\<close>)
  ultimately show ?thesis by simp
qed

lemma step_ended:
  assumes inv: "tpl_inv m th" and ended: "m' = m \<or> ended_by i (pends_of th) m m'"
  shows "step_frame i (m, th) (m', th) \<and> tpl_inv m' th"
proof (cases "m' = m")
  case True
  with inv show ?thesis by (simp add: step_frame_def)
next
  case False
  with ended have e: "ended_by i (pends_of th) m m'" by simp
  have rows: "db (m_Catalog m') n k = db (m_Catalog m) n k" if "held (LockAcq m) i (ResourceForRow n k) \<noteq> Some LockX" for n k
    using e that tpl_invD(5) [OF inv, of _ i] unfolding ended_by_def by metis
  have frame: "step_frame i (m, th) (m', th)" using e rows by (simp add: step_frame_def ended_by_def)
  have le: "i \<le> nextID m'" using tpl_invD(3) [OF inv, of i] e by (simp add: ended_by_def)
  have thr: "thread_ok m' i (th i)"
    using tpl_invD(6) [OF inv, of i] e by (auto simp: thread_ok_def ended_by_def split: thread.splits)
  have "tpl_inv m' th"
    by (rule tpl_inv_step [OF inv frame]) (use e le thr in \<open>auto simp: ended_by_def may_undo_def GetTxn_def\<close>)
  with frame show ?thesis by simp
qed

text \<open>A change of the transaction's own record that adds nothing to its undo log.\<close>

lemma step_own:
  assumes inv: "tpl_inv m th" and obj: "objs m i = Some t" and obj': "objs m' = (objs m)(i \<mapsto> t')"
    and t': "t_ID t' = t_ID t" "t_Protocol t' = t_Protocol t" "set (t_UndoLog t') \<subseteq> set (t_UndoLog t)"
    and same: "LockAcq m' = LockAcq m" "nextID m' = nextID m" "txns m' = txns m"
    and rows: "\<And>n k. \<forall>u \<in> may_undo m i. \<not> (u_Table u = n \<and> u_Key u = k) \<Longrightarrow> db (m_Catalog m') n k = db (m_Catalog m) n k"
  shows "step_frame i (m, th) (m', th) \<and> tpl_inv m' th"
proof -
  have "db (m_Catalog m') n k = db (m_Catalog m) n k" if "held (LockAcq m) i (ResourceForRow n k) \<noteq> Some LockX" for n k
    using that tpl_invD(5) [OF inv, of _ i] by (intro rows) metis
  then have frame: "step_frame i (m, th) (m', th)" using same obj' by (simp add: step_frame_def)
  have undo: "may_undo m' i \<subseteq> may_undo m i"
    using obj obj' t' same by (auto simp: may_undo_def GetTxn_def split: if_splits)
  have "tpl_inv m' th"
  proof (rule tpl_inv_step [OF inv frame])
    show "ids_ok m'" using tpl_invD(2) [OF inv] obj' t'(1) obj by (auto simp: ids_ok_def)
    show "thread_ok m' i (th i)" using tpl_invD(6) [OF inv, of i] obj' obj same
      by (auto simp: thread_ok_def split: thread.splits)
    show "held (LockAcq m') i (undo_res u) = Some LockX" if "u \<in> may_undo m' i" for u
      using tpl_invD(5) [OF inv, of u i] undo that same by auto
  qed (use tpl_invD(1,3,4) [OF inv] obj same in auto)
  with frame show ?thesis by simp
qed

lemma step_saved:
  assumes inv: "tpl_inv m th" and run: "CreateSavepoint i name m = (err, m')"
  shows "step_frame i (m, th) (m', th) \<and> tpl_inv m' th"
proof (cases "GetTxn m i")
  case None
  then show ?thesis using run inv by (simp add: CreateSavepoint_def step_frame_def)
next
  case (Some t)
  then have obj: "objs m i = Some t" by (simp add: GetTxn_objs)
  show ?thesis
    by (rule step_own [OF inv obj, of _ "t\<lparr>Savepoints := Savepoints t @ [\<lparr>sp_Name = name, UndoPosition = UndoLog_Len (t_UndoLog t)\<rparr>]\<rparr>"])
       (use run Some obj in \<open>auto simp: CreateSavepoint_def\<close>)
qed

lemma step_rolled_back:
  assumes inv: "tpl_inv m th" and run: "RollbackToSavepoint e i name m = (err, m')"
  shows "step_frame i (m, th) (m', th) \<and> tpl_inv m' th"
proof (cases "\<exists>t sp. GetTxn m i = Some t \<and> find (\<lambda>sp. sp_Name sp = name) (rev (Savepoints t)) = Some sp")
  case False
  then have "m' = m" using run by (auto simp: RollbackToSavepoint_def split: option.splits)
  then show ?thesis using inv by (simp add: step_frame_def)
next
  case True
  then obtain t sp where t: "GetTxn m i = Some t" and sp: "find (\<lambda>sp. sp_Name sp = name) (rev (Savepoints t)) = Some sp" by blast
  have obj: "objs m i = Some t" using t by (simp add: GetTxn_objs)
  define us where "us = EntriesFrom (t_UndoLog t) (UndoPosition sp)"
  obtain w where w: "snd (applyUndoEntries e us i m) = m\<lparr>m_WAL := w, m_Catalog := fold undo_action (rev us) (m_Catalog m)\<rparr>"
    using applyUndoEntries_eq by blast
  have m': "m' = upd_txn i (\<lambda>t. t\<lparr>t_UndoLog := TruncateTo (t_UndoLog t) (UndoPosition sp)\<rparr>)
      (if t_Protocol t = Protocol2PL then m\<lparr>m_WAL := w, m_Catalog := fold undo_action (rev us) (m_Catalog m)\<rparr> else m)"
    using run by (auto simp: RollbackToSavepoint_def t sp us_def [symmetric] w Let_def)
  have sub: "set us \<subseteq> set (t_UndoLog t)" by (auto simp: us_def EntriesFrom_def dest: in_set_dropD)
  have rows: "db (m_Catalog m') n k = db (m_Catalog m) n k" if "\<forall>u \<in> may_undo m i. \<not> (u_Table u = n \<and> u_Key u = k)" for n k
    using that sub undo_frame [of "rev us" n k "m_Catalog m"] by (cases "t_Protocol t") (auto simp: m' may_undo_def t subset_iff)
  show ?thesis
    by (rule step_own [OF inv obj, of _ "t\<lparr>t_UndoLog := TruncateTo (t_UndoLog t) (UndoPosition sp)\<rparr>"])
       (use obj rows in \<open>auto simp: m' TruncateTo_def dest: in_set_takeD\<close>)
qed

lemma step_returned: "tpl_inv m th \<Longrightarrow> th i = Running (Return r) \<Longrightarrow> tpl_inv m (th(i := Idle))"
  unfolding tpl_inv_def by (auto simp: pends_of_upd pends_of_def fun_upd_idem thread_ok_def)

lemma tpl_step_ok:
  assumes inv: "tpl_inv m th" and step: "tpl_step i (m, th) (m', th')"
  shows "step_frame i (m, th) (m', th') \<and> tpl_inv m' th'"
proof (rule tpl_stepE [OF step], goal_cases)
  case (1 e protocol isoLevel)
  with step_begun [OF inv] show ?thesis by auto
next
  case (2 t op)
  with step_called [OF inv] show ?thesis by auto
next
  case (3 r md c qa st)
  with step_locked [OF inv, of i r md c qa AcqOk st th'] show ?thesis by auto
next
  case (4 r md c qa ch st)
  with step_locked [OF inv, of i r md c qa "AcqWait ch" st th'] show ?thesis by auto
next
  case (5 w c wk err st)
  with step_woken [OF inv, of i w c wk err st th'] show ?thesis by auto
next
  case (6 f c)
  with step_ran [OF inv] step_ran_ended [OF inv] show ?thesis by (cases "GetTxn m i") auto
next
  case (7 r)
  with step_returned [OF inv] show ?thesis by (auto simp: step_frame_def)
next
  case (8 e err)
  with step_ended [OF inv, OF Commit_frame [OF tpl_invD(1,2) [OF inv]]] show ?thesis by simp
next
  case (9 e err)
  with step_ended [OF inv, OF Abort_frame [OF tpl_invD(1,2) [OF inv]]] show ?thesis by simp
next
  case (10 name err)
  with step_saved [OF inv] show ?thesis by auto
next
  case (11 e name err)
  with step_rolled_back [OF inv] show ?thesis by auto
qed

lemma tpl_inv_reachable: "tpl_reachable m th \<Longrightarrow> tpl_inv m th"
proof -
  have run: "(\<lambda>s s'. \<exists>i. tpl_step i s s')\<^sup>*\<^sup>* s s' \<Longrightarrow> tpl_inv (fst s) (snd s) \<Longrightarrow> tpl_inv (fst s') (snd s')" for s s'
    by (induction rule: rtranclp_induct) (auto dest: tpl_step_ok)
  have "tpl_inv m0 idle" if "objs m0 = Map.empty" "LockAcq m0 = NewAcquirer" for m0
    using that lock_inv_initial
    by (auto simp: tpl_inv_def idle_def pends_of_def [abs_def] ids_ok_def NewAcquirer_def NewHeldSet_def may_undo_def
        GetTxn_def thread_ok_def)
  then show "tpl_reachable m th \<Longrightarrow> tpl_inv m th" unfolding tpl_reachable_def using run by fastforce
qed

section \<open>Properties of two-phase locking\<close>

definition others_run :: "txn_id \<Rightarrow> Manager \<times> threads \<Rightarrow> Manager \<times> threads \<Rightarrow> bool" where
  "others_run i = (\<lambda>s s'. \<exists>j. j \<noteq> i \<and> tpl_step j s s')\<^sup>*\<^sup>*"

lemma shared_lock_excludes:
  assumes "tpl_inv m th" and "held (LockAcq m) i r = Some md" and "strength LockS \<le> strength md" and "j \<noteq> i"
  shows "held (LockAcq m) j r \<noteq> Some LockX"
  using held_compat [OF tpl_invD(1) [OF assms(1)] assms(2) _ assms(4) [symmetric]] scan_mode_excludes [OF assms(3)] by auto

lemma others_run_frame:
  assumes "others_run i s s'" and "tpl_inv (fst s) (snd s)" and "held (LockAcq (fst s)) i (ResourceForRow n k) = Some md"
    and "strength LockS \<le> strength md"
  shows "tpl_inv (fst s') (snd s') \<and> helds (LockAcq (fst s')) i = helds (LockAcq (fst s)) i \<and>
    db (m_Catalog (fst s')) n k = db (m_Catalog (fst s)) n k"
  using assms unfolding others_run_def
proof (induction rule: rtranclp_induct)
  case (step s1 s2)
  then obtain j where j: "j \<noteq> i" "tpl_step j s1 s2" by blast
  obtain m1 th1 m2 th2 where s: "s1 = (m1, th1)" "s2 = (m2, th2)" by (metis prod.exhaust)
  have IH: "tpl_inv m1 th1" "helds (LockAcq m1) i = helds (LockAcq (fst s)) i" "db (m_Catalog m1) n k = db (m_Catalog (fst s)) n k"
    using step s by auto
  have ok: "step_frame j s1 s2" "tpl_inv m2 th2" using tpl_step_ok [OF IH(1), of j m2 th2] j s by auto
  have "held (LockAcq m1) j (ResourceForRow n k) \<noteq> Some LockX"
    using shared_lock_excludes [OF IH(1) _ step.prems(3) j(1)] IH(2) step.prems(2) by metis
  then show ?case using ok IH j s by (auto simp: step_frame_def)
qed auto


text \<open>
  C16. Aborting a two-phase locking transaction restores the database: after any sequence of writes
  that succeed and fit their rows, \<^verbatim>\<open>Abort\<close> succeeds, every table has the rows it had before the first
  write, the transaction is marked aborted and holds no lock.
\<close>

theorem Abort_restores:
  assumes "GetTxn m i = Some t" and "t_Protocol t = Protocol2PL" and "GetStatus t = TxnActive" and "t_UndoLog t = []"
    and "lock_reachable (LockAcq m) pend" and "write_all e i ws m = Some m2" and "Abort e' i m2 = (err, m3)"
  shows "err = None \<and> db (m_Catalog m3) = db (m_Catalog m) \<and> status_of m3 i = Some TxnAborted \<and>
    (\<forall>r. HeldSet_Get (helds (LockAcq m3) i) r = None)"
proof -
  obtain t2 us where t2: "objs m2 = (objs m)(i \<mapsto> t2)" "same_txn t t2" "t_UndoLog t2 = us"
    "same_db (fold undo_action (rev us) (m_Catalog m2)) (m_Catalog m)" "txns m2 = txns m" "LockAcq m2 = LockAcq m"
    using write_all_spec [OF assms(6)] assms(1,4) by (auto simp: GetTxn_objs)
  have "GetTxn m2 i = Some t2" "GetStatus t2 = TxnActive" "t_Protocol t2 = Protocol2PL" "lock_inv (LockAcq m2) pend"
    using t2 assms(1-3) reachable_inv [OF assms(5)] by (auto simp: GetTxn_objs same_txn_def GetStatus_def)
  from Abort_2pl [OF this, of e'] assms(7) obtain
    "err = None" "m_Catalog m3 = fold undo_action (rev (t_UndoLog t2)) (m_Catalog m2)"
    "objs m3 = (objs m2)(i \<mapsto> t2\<lparr>t_Status := TxnAborted, abort_closed := True\<rparr>)" "\<And>r. held (LockAcq m3) i r = None"
    by (metis Pair_inject)
  then show ?thesis using t2 by (simp add: same_db_def status_of_def HeldSet_Get_def)
qed

end
