(* ===== verification/Two_PL_Runs.thy ===== *)
theory Two_PL_Runs
  imports Two_PL_Iso Server_Start
begin

text \<open>
  Concrete runs under two-phase locking: the instances of the properties of this protocol, and
  runs in which the code does not keep what its comments promise.
\<close>

section \<open>A manager with one table\<close>

definition tpl_start :: Manager where
  "tpl_start = NewManager (Register NewCatalog (PutRow (NewTable ''t'' []) ''a'' (Some [IntVal 7])))"

text \<open>The manager and its transactions 1 and 2 at an isolation level.\<close>

definition tpl_two :: "IsolationLevel \<Rightarrow> Manager" where
  "tpl_two l = snd (Begin sample_env Protocol2PL l (snd (Begin sample_env Protocol2PL l tpl_start)))"

definition run_op :: "txn_id \<Rightarrow> tpl_op \<Rightarrow> Manager \<Rightarrow> ((mgr_error + reply) \<times> Manager) option" where
  "run_op i op m = (case GetTxn m i of None \<Rightarrow> None | Some t \<Rightarrow> run_call (call_of t op) i m)"

definition put :: "gostring \<Rightarrow> int \<Rightarrow> UndoOpType \<Rightarrow> tpl_op" where
  "put key v op = OpWrite sample_env ''t'' key (Some [IntVal (of_int v)]) op"

text \<open>A call that does not block is a sequence of steps of its transaction.\<close>

lemma run_call_steps:
  "run_call c i m = Some (x, m') \<Longrightarrow> th i = Running c \<Longrightarrow> safe i H c \<Longrightarrow> GetTxn m i = Some t \<Longrightarrow> t_ID t = i \<Longrightarrow>
     (tpl_step i)\<^sup>*\<^sup>* (m, th) (m', th(i := Idle))"
proof (induction c arbitrary: m th H t)
  case (Return y)
  then have "tpl_step i (m, th) (m', th(i := Idle))" using tpl_step.returned [of th i y m] by simp
  then show ?case ..
next
  case (Lock r md c)
  then obtain qa st where acq: "AcquireLock_enter i r md (LockAcq m) = (qa, AcqOk, st)" and wf: "wf_resource r"
    and rest: "run_call c i (m\<lparr>LockAcq := st\<rparr>) = Some (x, m')"
    by (auto split: prod.splits acquire_outcome.splits if_splits)
  have "tpl_step i (m, th) (m\<lparr>LockAcq := st\<rparr>, th(i := Running c))" by (rule tpl_step.granted [where qa = qa]) (use Lock wf acq in auto)
  moreover have "(tpl_step i)\<^sup>*\<^sup>* (m\<lparr>LockAcq := st\<rparr>, th(i := Running c)) (m', th(i := Idle))"
    using Lock.IH [OF rest, where th = "th(i := Running c)" and t = t] Lock.prems(3-5)
    by (simp add: fun_upd_def GetTxn_def cong: if_cong)
  ultimately show ?case by (rule converse_rtranclp_into_rtranclp)
next
  case (Do f)
  obtain c m1 where f: "f m = (c, m1)" by (cases "f m")
  have rest: "run_call c i m1 = Some (x, m')" "(c, m1) \<in> range f" using Do.prems(1) f by (simp, metis rangeI)
  have stp: "tpl_step i (m, th) (m1, th(i := Running c))" using Do.prems(2) f by (rule tpl_step.ran) (simp add: Do.prems(4))
  have obj: "objs m i = Some t" "t_ID (the (objs m i)) = i" using Do.prems(4,5) by (auto simp: GetTxn_objs)
  from safe_DoE [OF Do.prems(3)] obj(2) f have own: "own_write i H m m1" and c: "safe i H c" by (metis fst_conv snd_conv)+
  obtain t' where t': "GetTxn m1 i = Some t'" "t_ID t' = i"
    using own obj(1) Do.prems(4,5) by (auto simp: own_write_def GetTxn_def same_txn_def split: if_splits)
  have "(tpl_step i)\<^sup>*\<^sup>* (m1, th(i := Running c)) (m', th(i := Idle))"
    using Do.IH [OF rest(2) _ rest(1), where th = "th(i := Running c)"] c t' by (simp add: fun_upd_def cong: if_cong)
  with stp show ?case by (rule converse_rtranclp_into_rtranclp)
qed

lemma run_op_steps:
  assumes "run_op i op m = Some (x, m')" and "th i = Idle" and "ids_ok m"
  shows "(tpl_step i)\<^sup>*\<^sup>* (m, th) (m', th)"
proof -
  obtain t where t: "GetTxn m i = Some t" "run_call (call_of t op) i m = Some (x, m')"
    using assms(1) by (auto simp: run_op_def split: option.splits)
  have stp: "tpl_step i (m, th) (m, th(i := Running (call_of t op)))" using assms(2) t(1) by (rule tpl_step.called)
  have id: "t_ID t = i" using t(1) assms(3) by (auto simp: GetTxn_objs ids_ok_def)
  have "(tpl_step i)\<^sup>*\<^sup>* (m, th(i := Running (call_of t op))) (m', th)"
    using run_call_steps [OF t(2) _ call_of_safe [OF id, of "{}"] t(1) id, of "th(i := Running (call_of t op))"] assms(2)
    by (simp add: fun_upd_idem)
  with stp show ?thesis by (rule converse_rtranclp_into_rtranclp)
qed

text \<open>Transaction 1 has read row a.\<close>

definition tpl_read :: Manager where
  "tpl_read = snd (the (run_op 1 (OpRead ''t'' ''a'') (tpl_two RepeatableRead)))"

lemma tpl_read_run:
  "run_op 1 (OpRead ''t'' ''a'') (tpl_two RepeatableRead) = Some (Inr (Found (Some [IntVal 7]) True), tpl_read)"
proof -
  have "map_option fst (run_op 1 (OpRead ''t'' ''a'') (tpl_two RepeatableRead)) = Some (Inr (Found (Some [IntVal 7]) True))"
    by code_simp
  then show ?thesis by (auto simp: tpl_read_def)
qed

text \<open>Two transactions of a level begin, and calls of theirs that do not block keep the state reachable.\<close>

lemma tpl_reachable_step:
  assumes "tpl_reachable m th" and "tpl_step i (m, th) (m', th')"
  shows "tpl_reachable m' th'"
  using assms unfolding tpl_reachable_def by (blast intro: rtranclp.rtrancl_into_rtrancl)

lemma others_step: "others_run i s s' \<Longrightarrow> tpl_step j s' s'' \<Longrightarrow> j \<noteq> i \<Longrightarrow> others_run i s s''"
  unfolding others_run_def by (erule rtranclp.rtrancl_into_rtrancl) blast

lemma tpl_two_reachable: "tpl_reachable (tpl_two l) idle"
proof -
  have begun: "nextID m < - 1 \<Longrightarrow> MaxActive m = 0 \<Longrightarrow> \<exists>i. tpl_step i (m, idle) (snd (Begin sample_env Protocol2PL l m), idle)" for m
    by (rule exI [of _ "nextID m + 1"], rule tpl_step.begun) (simp_all add: Begin_def nextTxnID_def)
  have nx: "nextID (snd (Begin e p l m)) = nextID m + 1" "MaxActive (snd (Begin e p l m)) = MaxActive m"
    if "MaxActive m = 0" for e p l m
    using that by (simp_all add: Begin_def nextTxnID_def enter_txn_def Let_def split: prod.splits)
  have start: "nextID tpl_start = 0" "MaxActive tpl_start = 0" "objs tpl_start = Map.empty" "LockAcq tpl_start = NewAcquirer"
    by (simp_all add: tpl_start_def NewManager_def)
  have less: "(0 :: u64) < - 1" "(1 :: u64) < - 1"
    by (simp_all add: word_less_nat_alt unsigned_minus_1_eq_mask mask_eq_exp_minus_1)
  have "tpl_reachable tpl_start idle" unfolding tpl_reachable_def using start by blast
  moreover obtain i where "tpl_step i (tpl_start, idle) (snd (Begin sample_env Protocol2PL l tpl_start), idle)"
    using begun [of tpl_start] start less by auto
  ultimately have "tpl_reachable (snd (Begin sample_env Protocol2PL l tpl_start)) idle" by (rule tpl_reachable_step)
  moreover obtain j where "tpl_step j (snd (Begin sample_env Protocol2PL l tpl_start), idle) (tpl_two l, idle)"
    using begun [of "snd (Begin sample_env Protocol2PL l tpl_start)"] nx [of tpl_start] start less by (auto simp: tpl_two_def)
  ultimately show ?thesis by (rule tpl_reachable_step)
qed

lemma run_op_reachable:
  assumes "tpl_reachable m th" and "run_op i op m = Some (x, m')" and "th i = Idle"
  shows "tpl_reachable m' th"
proof -
  have "(\<lambda>s s'. \<exists>i. tpl_step i s s')\<^sup>*\<^sup>* (m, th) (m', th)"
    using run_op_steps [where th = th, OF assms(2,3) tpl_invD(2) [OF tpl_inv_reachable [OF assms(1)]]] by (rule rtranclp_mono [THEN predicate2D, rotated]) auto
  then show ?thesis using assms(1) unfolding tpl_reachable_def by (auto intro: rtranclp_trans)
qed

text \<open>Transaction 2 wants to write the row and waits.\<close>

abbreviation table_t :: ResourceID where "table_t \<equiv> ResourceForTable ''t''"

definition tpl_wait :: Manager where
  "tpl_wait = tpl_read\<lparr>LockAcq := acq 2 row_a LockX (acq 2 table_t LockIX (LockAcq tpl_read))\<rparr>"

lemma writer_waits:
  "let l = LockAcq tpl_read; l1 = acq 2 table_t LockIX l
   in (fst (AcquireLock_enter 2 table_t LockIX l), fst (snd (AcquireLock_enter 2 table_t LockIX l)),
       fst (AcquireLock_enter 2 row_a LockX l1), fst (snd (AcquireLock_enter 2 row_a LockX l1)),
       map_option t_ID (GetTxn tpl_read 2), HeldSet_Get (helds l 1) row_a, db (m_Catalog tpl_read) ''t'' ''a'') =
      (0, AcqOk, 1, AcqWait 3, Some 2, Some LockS, Some (Some [IntVal 7]))"
  by code_simp


section \<open>Rollback\<close>

definition sample_writes :: "write_op list" where
  "sample_writes = [(''t'', ''a'', Some [IntVal 8], UndoUpdate), (''t'', ''b'', Some [IntVal 1], UndoInsert), (''t'', ''a'', None, UndoDelete)]"

definition tpl_saved :: Manager where
  "tpl_saved = snd (CreateSavepoint 1 ''sp'' (tpl_two RepeatableRead))"

lemma tpl_two_facts:
  "let m = tpl_two RepeatableRead
   in (map_option t_Protocol (GetTxn m 1), map_option t_Status (GetTxn m 1), map_option t_UndoLog (GetTxn m 1),
       write_all sample_env 1 sample_writes m = None, write_all sample_env 1 sample_writes tpl_saved = None,
       db (m_Catalog m) ''t'' ''a'', db (m_Catalog m) ''t'' ''b'',
       map_option (\<lambda>m. (db (m_Catalog m) ''t'' ''a'', db (m_Catalog m) ''t'' ''b'')) (write_all sample_env 1 sample_writes m)) =
      (Some Protocol2PL, Some TxnActive, Some [], False, False, Some (Some [IntVal 7]), None, Some (None, Some (Some [IntVal 1])))"
  unfolding Let_def by code_simp

lemma tpl_two_locks: "lock_reachable (LockAcq (tpl_two l)) Map.empty"
proof -
  have same: "set_held NewAcquirer i NewHeldSet = NewAcquirer" for i by (simp add: set_held_def NewAcquirer_def fun_upd_idem)
  have "LockAcq (snd (Begin sample_env Protocol2PL l m)) = NewAcquirer" if "LockAcq m = NewAcquirer" for m
    using that by (simp add: Begin_def nextTxnID_def enter_txn_frame same)
  then have "LockAcq (tpl_two l) = NewAcquirer" by (simp add: tpl_two_def tpl_start_def NewManager_def)
  then show ?thesis by simp
qed

theorem RollbackToSavepoint_restores_witness:
  "\<exists>m2. write_all sample_env 1 sample_writes tpl_saved = Some m2 \<and>
     db (m_Catalog (snd (RollbackToSavepoint sample_env 1 ''sp'' m2))) ''t'' ''a'' = Some (Some [IntVal 7])"
proof -
  note facts = tpl_two_facts [unfolded Let_def prod.inject]
  obtain t where t: "GetTxn (tpl_two RepeatableRead) 1 = Some t" "t_Protocol t = Protocol2PL" using facts by auto
  obtain m2 where m2: "write_all sample_env 1 sample_writes tpl_saved = Some m2" using facts by auto
  have "CreateSavepoint 1 ''sp'' (tpl_two RepeatableRead) = (fst (CreateSavepoint 1 ''sp'' (tpl_two RepeatableRead)), tpl_saved)"
    by (simp add: tpl_saved_def)
  from RollbackToSavepoint_restores [OF t this m2, of sample_env] m2 facts show ?thesis
    by (cases "RollbackToSavepoint sample_env 1 ''sp'' m2") auto
qed

theorem Abort_restores_witness:
  "\<exists>m2. write_all sample_env 1 sample_writes (tpl_two RepeatableRead) = Some m2 \<and> db (m_Catalog m2) ''t'' ''a'' = None \<and>
     db (m_Catalog (snd (Abort sample_env 1 m2))) ''t'' ''a'' = Some (Some [IntVal 7])"
proof -
  note facts = tpl_two_facts [unfolded Let_def prod.inject]
  obtain t where t: "GetTxn (tpl_two RepeatableRead) 1 = Some t" "t_Protocol t = Protocol2PL" "GetStatus t = TxnActive" "t_UndoLog t = []"
    using facts by (auto simp: GetStatus_def)
  obtain m2 where m2: "write_all sample_env 1 sample_writes (tpl_two RepeatableRead) = Some m2" using facts by auto
  from Abort_restores [OF t tpl_two_locks m2, of sample_env] m2 facts show ?thesis
    by (cases "Abort sample_env 1 m2") auto
qed

section \<open>Departures\<close>

text \<open>
  A phantom at the serializable level. Transaction 1 scans the table with gap locks; transaction 2
  inserts a row and commits, since \<^verbatim>\<open>TwoPLWrite\<close> never asks for the gap lock of \<^verbatim>\<open>LockForInsert\<close>;
  the second scan of transaction 1 has one row more.
\<close>

definition rows_read :: "((mgr_error + reply) \<times> Manager) option \<Rightarrow> nat option" where
  "rows_read x = (case x of Some (Inr (RowList rs), m) \<Rightarrow> Some (length rs) | _ \<Rightarrow> None)"

definition after :: "((mgr_error + reply) \<times> Manager) option \<Rightarrow> Manager" where
  "after x = snd (the x)"

lemma phantom:
  "let s1 = run_op 1 (OpScan ''t'' None) (tpl_two Serializable);
       m2 = snd (Commit sample_env 2 (after (run_op 2 (put ''b'' 1 UndoInsert) (after s1))))
   in (rows_read s1, rows_read (run_op 1 (OpScan ''t'' None) m2)) = (Some 1, Some 2)"
  unfolding Let_def by code_simp

text \<open>
  A write after the abort. Transaction 1 has its locks and is about to write row a when it is
  aborted from another goroutine, for instance as the victim of a deadlock; its locks are released,
  transaction 2 reads the row under a shared lock, and then transaction 1 goes on and writes,
  because \<^verbatim>\<open>TwoPLWrite\<close> does not look at the status again. The write is never undone.
\<close>

definition late_write_run :: "(mgr_error + reply) option list" where
  "late_write_run =
     (let m = tpl_two RepeatableRead;
          m1 = m\<lparr>LockAcq := acq 1 row_a LockX (acq 1 table_t LockIX (LockAcq m))\<rparr>;
          m2 = snd (Abort sample_env 1 m1);
          r3 = run_op 2 (OpRead ''t'' ''a'') m2;
          m4 = snd (write_row sample_env 1 ''t'' ''a'' (Some [IntVal 8]) UndoUpdate (after r3));
          r5 = run_op 2 (OpRead ''t'' ''a'') m4
      in [map_option fst r3, map_option fst r5])"

lemma write_after_abort:
  "late_write_run = [Some (Inr (Found (Some [IntVal 7]) True)), Some (Inr (Found (Some [IntVal 8]) True))]"
  by code_simp

text \<open>
  Aborts that do not restore the table: an update of a row that does not exist creates it, and the
  undo entry without a before-image leaves it; an insert of a row that exists overwrites it, and its
  undo deletes it.
\<close>

lemma aborted_update_stays:
  "db (m_Catalog (snd (Abort sample_env 1 (after (run_op 1 (put ''z'' 5 UndoUpdate) (tpl_two Serializable)))))) ''t'' ''z'' =
     Some (Some [IntVal 5])"
  by code_simp

lemma aborted_insert_deletes:
  "db (m_Catalog (snd (Abort sample_env 1 (after (run_op 1 (put ''a'' 9 UndoInsert) (tpl_two Serializable)))))) ''t'' ''a'' = None"
  by code_simp

end
