(* ===== verification/Spec2Isabelle.thy ===== *)
theory Spec2Isabelle
  imports Deadlock Values Lock_Schedules Catalog Mvcc Ssi Wal_Log Txn_Runs Two_PL_Runs
begin

text \<open>
  A verification development for the TransactionManager repository.
\<close>

end
